(* ===== verification/HalPrelude.thy ===== *)
theory HalPrelude
  imports Main "HOL-Library.Word"
begin

text \<open>
  Shared vocabulary of the development: the machine integers of \<^verbatim>\<open>HAL/inc/alt_types.h\<close>, the
  error numbers and flags of the C library the HAL is compiled against, the ways in which a call can
  fail to return, C strings, and the generic lemmas the component theories share.
\<close>

unbundle bit_operations_syntax

section \<open>Machine integers\<close>

text \<open>
  The target is RV32: \<^verbatim>\<open>alt_u32\<close> is \<^verbatim>\<open>unsigned long\<close> (32 bits), \<^verbatim>\<open>alt_u64\<close> is
  \<^verbatim>\<open>unsigned long long\<close>, a pointer is 32 bits wide.
  A C \<^verbatim>\<open>int\<close> that is only ever a small status value is an \<open>int\<close>; a value whose bits are
  inspected, or whose wrap-around matters, is a word.
\<close>

type_synonym u8 = "8 word"
type_synonym u16 = "16 word"
type_synonym u32 = "32 word"
type_synonym u64 = "64 word"

abbreviation (input) INT_MAX :: u32 where "INT_MAX \<equiv> 0x7FFFFFFF"
abbreviation (input) UINT_MAX :: nat where "UINT_MAX \<equiv> 4294967295"

section \<open>Error numbers and flags of the C library\<close>

abbreviation (input) ESRCH :: int where "ESRCH \<equiv> 3"
abbreviation (input) EIO :: int where "EIO \<equiv> 5"
abbreviation (input) ECHILD :: int where "ECHILD \<equiv> 10"
abbreviation (input) EWOULDBLOCK :: int where "EWOULDBLOCK \<equiv> 11"
abbreviation (input) EACCES :: int where "EACCES \<equiv> 13"
abbreviation (input) ENODEV :: int where "ENODEV \<equiv> 19"
abbreviation (input) EINVAL :: int where "EINVAL \<equiv> 22"
abbreviation (input) EMFILE :: int where "EMFILE \<equiv> 24"
abbreviation (input) ENOTTY :: int where "ENOTTY \<equiv> 25"
abbreviation (input) EBADFD :: int where "EBADFD \<equiv> 81"
abbreviation (input) ENOSYS :: int where "ENOSYS \<equiv> 88"
abbreviation (input) ENOTSUP :: int where "ENOTSUP \<equiv> 134"

abbreviation (input) O_RDONLY :: u32 where "O_RDONLY \<equiv> 0"
abbreviation (input) O_WRONLY :: u32 where "O_WRONLY \<equiv> 1"
abbreviation (input) O_RDWR :: u32 where "O_RDWR \<equiv> 2"
abbreviation (input) O_ACCMODE :: u32 where "O_ACCMODE \<equiv> 3"
abbreviation (input) O_APPEND :: u32 where "O_APPEND \<equiv> 8"
abbreviation (input) O_NONBLOCK :: u32 where "O_NONBLOCK \<equiv> 0x4000"
abbreviation (input) F_GETFL :: int where "F_GETFL \<equiv> 3"
abbreviation (input) F_SETFL :: int where "F_SETFL \<equiv> 4"
abbreviation (input) S_IFCHR :: nat where "S_IFCHR \<equiv> 8192"

section \<open>How a call can fail to return\<close>

text \<open>
  A C function either returns a value (\<open>Inr\<close>) or never does so in a defined way (\<open>Inl\<close>): it
  spins forever, the program ends through \<^verbatim>\<open>exit\<close>, or the call has no defined behaviour because
  it indexes an array out of range, follows a null pointer or divides by zero.
\<close>

datatype stuck =
    Spins
  | Exits int
  | OutOfBounds
  | NullDeref
  | DivByZero
  | LinkError

text \<open>Sequencing of calls that may not return.\<close>

fun andThen :: "'e + 'a \<Rightarrow> ('a \<Rightarrow> 'e + 'b) \<Rightarrow> 'e + 'b" where
  "andThen (Inl e) f = Inl e"
| "andThen (Inr a) f = f a"

lemma andThen_Inr_iff:
  "andThen m f = Inr b \<longleftrightarrow> (\<exists>a. m = Inr a \<and> f a = Inr b)"
  by (cases m) auto

lemma andThen_Inl_iff:
  "andThen m f = Inl e \<longleftrightarrow> m = Inl e \<or> (\<exists>a. m = Inr a \<and> f a = Inl e)"
  by (cases m) auto

lemma andThen_assoc: "andThen (andThen m f) g = andThen m (\<lambda>a. andThen (f a) g)"
  by (cases m) auto

text \<open>A loop that does not end is the value \<open>None\<close> of a partial function: the call spins.\<close>

fun returned :: "(stuck + 'a) option \<Rightarrow> stuck + 'a" where
  "returned None = Inl Spins"
| "returned (Some r) = r"

text \<open>A call through a function pointer that may be null.\<close>

fun call_ptr :: "'f option \<Rightarrow> ('f \<Rightarrow> stuck + 'a) \<Rightarrow> stuck + 'a" where
  "call_ptr None k = Inl NullDeref"
| "call_ptr (Some f) k = k f"

section \<open>C strings\<close>

text \<open>
  A C string is the list of its characters without the terminator; reading at the index
  \<open>length s\<close> gives the terminator.
\<close>

definition nul :: char where
  "nul = CHR 0x00"

definition cstr :: "string \<Rightarrow> bool" where
  "cstr s \<longleftrightarrow> nul \<notin> set s"

definition char_at :: "string \<Rightarrow> nat \<Rightarrow> char" where
  "char_at s i = (if i < length s then s ! i else nul)"

lemma char_at_Nil [simp]: "char_at [] i = nul"
  by (simp add: char_at_def)

lemma char_at_0 [simp]: "char_at (c # s) 0 = c"
  by (simp add: char_at_def)

lemma char_at_Suc [simp]: "char_at (c # s) (Suc i) = char_at s i"
  by (simp add: char_at_def)

lemma char_at_append_length [simp]: "char_at (xs @ ys) (length xs) = char_at ys 0"
  by (simp add: char_at_def nth_append)

lemma cstr_Nil [simp]: "cstr []"
  by (simp add: cstr_def)

lemma cstr_Cons [simp]: "cstr (c # s) \<longleftrightarrow> c \<noteq> nul \<and> cstr s"
  by (auto simp: cstr_def)

lemma cstr_append [simp]: "cstr (xs @ ys) \<longleftrightarrow> cstr xs \<and> cstr ys"
  by (auto simp: cstr_def)

lemma char_at_nul_iff: "cstr s \<Longrightarrow> char_at s i = nul \<longleftrightarrow> length s \<le> i"
  by (auto simp: cstr_def char_at_def in_set_conv_nth)

lemma cstr_nth: "cstr s \<Longrightarrow> i < length s \<Longrightarrow> s ! i \<noteq> nul"
  by (metis cstr_def nth_mem)

lemma cstr_drop: "cstr s \<Longrightarrow> cstr (drop n s)"
  by (auto simp: cstr_def dest: in_set_dropD)

section \<open>Bounded searches\<close>

text \<open>A search upwards from \<open>i\<close> below a bound looks at \<open>i\<close> first.\<close>

lemma search_step:
  assumes "\<And>j. i \<le> j \<Longrightarrow> b j \<Longrightarrow> b i"
  shows "(\<exists>j::nat. i \<le> j \<and> b j \<and> P j) \<longleftrightarrow> b i \<and> (P i \<or> (\<exists>j. i + 1 \<le> j \<and> b j \<and> P j))"
  using assms by (metis Suc_eq_plus1 Suc_leD le_antisym not_less_eq_eq order_refl)

section \<open>Words\<close>

lemma unat_AND_le: "unat (a AND b :: 'a::len word) \<le> unat b"
  by (metis word_and_le1 word_le_nat_alt)

lemma unat_add_no_overflow:
  "unat (a :: 'a::len word) + unat b < 2 ^ LENGTH('a) \<Longrightarrow> unat (a + b) = unat a + unat b"
  by (simp add: unat_word_ariths)

lemma unat_mult_no_overflow:
  "unat (a :: 'a::len word) * unat b < 2 ^ LENGTH('a) \<Longrightarrow> unat (a * b) = unat a * unat b"
  by (simp add: unat_word_ariths)

lemma unat_ucast_u64 [simp]: "unat (ucast (n :: u32) :: u64) = unat n"
  using unsigned_less [of n, where ?'a = nat]
  by (simp add: unsigned_ucast_eq take_bit_nat_eq_self)

lemma ucast_u8_u32: "ucast (ucast (c :: u8) :: u32) = c"
  by transfer simp

lemma uint_ucast_u64 [simp]: "uint (ucast (n :: u32) :: u64) = uint n"
  using unsigned_less [of n, where ?'a = int]
  by (simp add: unsigned_ucast_eq take_bit_int_eq_self)

end
