(* ===== verification/LList.thy ===== *)
theory LList
  imports HalPrelude
begin

text \<open>
  The intrusive doubly linked lists of \<^verbatim>\<open>HAL/inc/sys/alt_llist.h\<close>.  A list element is a node
  embedded in a larger object, so the links live in a heap that maps the address of a node to the
  addresses of its neighbours, and a list is a circular chain that passes through its head element.
  \<open>llist_at\<close> says which list of nodes a heap holds at a head; the two operations are shown to be
  list operations under it, and the locale \<open>intrusive_list\<close> is what the device registry and the
  alarm list rely on.
\<close>

section \<open>The code\<close>

text \<open>An address; 0 is \<^verbatim>\<open>NULL\<close>.\<close>

type_synonym addr = nat

record llheap =
  ll_next :: "addr \<Rightarrow> addr"
  ll_prev :: "addr \<Rightarrow> addr"

text \<open>\<^verbatim>\<open>ALT_LLIST_HEAD(head)\<close>: a head whose two links point to itself.\<close>

definition ALT_LLIST_HEAD :: "addr \<Rightarrow> llheap \<Rightarrow> llheap" where
  "ALT_LLIST_HEAD head h =
     h\<lparr>ll_next := (ll_next h)(head := head), ll_prev := (ll_prev h)(head := head)\<rparr>"

text \<open>\<^verbatim>\<open>ALT_LLIST_ENTRY\<close>: both links of an entry are null.\<close>

definition ALT_LLIST_ENTRY :: "addr \<Rightarrow> llheap \<Rightarrow> llheap" where
  "ALT_LLIST_ENTRY entry h =
     h\<lparr>ll_next := (ll_next h)(entry := 0), ll_prev := (ll_prev h)(entry := 0)\<rparr>"

text \<open>The four assignments, in the order of the code; each reads the heap the one before left.\<close>

definition alt_llist_insert :: "addr \<Rightarrow> addr \<Rightarrow> llheap \<Rightarrow> llheap" where
  "alt_llist_insert list entry h =
     (let h1 = h\<lparr>ll_prev := (ll_prev h)(entry := list)\<rparr>;
          h2 = h1\<lparr>ll_next := (ll_next h1)(entry := ll_next h1 list)\<rparr>;
          h3 = h2\<lparr>ll_prev := (ll_prev h2)(ll_next h2 list := entry)\<rparr>
      in h3\<lparr>ll_next := (ll_next h3)(list := entry)\<rparr>)"

definition alt_llist_remove :: "addr \<Rightarrow> llheap \<Rightarrow> llheap" where
  "alt_llist_remove entry h =
     (let h1 = h\<lparr>ll_prev := (ll_prev h)(ll_next h entry := ll_prev h entry)\<rparr>;
          h2 = h1\<lparr>ll_next := (ll_next h1)(ll_prev h1 entry := ll_next h1 entry)\<rparr>;
          h3 = h2\<lparr>ll_prev := (ll_prev h2)(entry := entry)\<rparr>
      in h3\<lparr>ll_next := (ll_next h3)(entry := entry)\<rparr>)"

section \<open>The list a heap holds\<close>

text \<open>
  \<open>dll h p xs e\<close>: following the \<open>next\<close> links from \<open>p\<close> visits exactly the nodes \<open>xs\<close> and then
  \<open>e\<close>, and every \<open>previous\<close> link on the way points back.
\<close>

fun dll :: "llheap \<Rightarrow> addr \<Rightarrow> addr list \<Rightarrow> addr \<Rightarrow> bool" where
  "dll h p [] e \<longleftrightarrow> ll_next h p = e \<and> ll_prev h e = p"
| "dll h p (x # xs) e \<longleftrightarrow> ll_next h p = x \<and> ll_prev h x = p \<and> dll h x xs e"

definition llist_at :: "llheap \<Rightarrow> addr \<Rightarrow> addr list \<Rightarrow> bool" where
  "llist_at h head xs \<longleftrightarrow> dll h head xs head \<and> distinct (head # xs)"

lemma dll_append:
  "dll h p (xs @ ys) e \<longleftrightarrow> (\<exists>q. dll h p xs q \<and> (case ys of [] \<Rightarrow> q = e | y # zs \<Rightarrow> q = y \<and> dll h y zs e))"
  by (induction xs arbitrary: p) (auto split: list.splits)

lemma dll_split:
  "dll h p (xs @ y # ys) e \<longleftrightarrow> dll h p xs y \<and> dll h y ys e"
  by (simp add: dll_append)

text \<open>Writing a link of a node that the chain does not use changes nothing in it.\<close>

lemma dll_upd_next:
  "u \<notin> set (p # xs) \<Longrightarrow> dll (h\<lparr>ll_next := (ll_next h)(u := v)\<rparr>) p xs e = dll h p xs e"
  by (induction xs arbitrary: p) auto

lemma dll_upd_prev:
  "u \<notin> set (xs @ [e]) \<Longrightarrow> dll (h\<lparr>ll_prev := (ll_prev h)(u := v)\<rparr>) p xs e = dll h p xs e"
  by (induction xs arbitrary: p) auto

lemma dll_next_last:
  "dll h p xs e \<Longrightarrow> ll_next h (last (p # xs)) = e"
  by (induction xs arbitrary: p) auto

lemma dll_prev_end: "dll h p xs e \<Longrightarrow> ll_prev h e = last (p # xs)"
  by (induction xs arbitrary: p) auto

lemma dll_next_first: "dll h p xs e \<Longrightarrow> ll_next h p = hd (xs @ [e])"
  by (cases xs) auto

lemma dll_cong:
  "\<lbrakk>\<And>x. x \<in> set (p # xs) \<Longrightarrow> ll_next h' x = ll_next h x;
    \<And>x. x \<in> set (xs @ [e]) \<Longrightarrow> ll_prev h' x = ll_prev h x\<rbrakk>
   \<Longrightarrow> dll h' p xs e = dll h p xs e"
  by (induction xs arbitrary: p) auto

text \<open>A heap holds at most one list at a head.\<close>

lemma dll_unique:
  "\<lbrakk>dll h p xs e; dll h p ys e; e \<notin> set xs; e \<notin> set ys\<rbrakk> \<Longrightarrow> xs = ys"
proof (induction xs arbitrary: p ys)
  case Nil
  then show ?case by (cases ys) auto
next
  case (Cons x xs)
  then show ?case by (cases ys) auto
qed

lemma llist_at_unique: "llist_at h l xs \<Longrightarrow> llist_at h l ys \<Longrightarrow> xs = ys"
  by (auto simp: llist_at_def intro: dll_unique)

section \<open>The operations on lists\<close>

lemma alt_llist_insert_next:
  "ll_next (alt_llist_insert l e h) = (ll_next h)(e := ll_next h l, l := e)"
  by (simp add: alt_llist_insert_def Let_def)

lemma alt_llist_insert_prev:
  "ll_prev (alt_llist_insert l e h) =
     (ll_prev h)(e := l, ll_next h l := e)"
  by (simp add: alt_llist_insert_def Let_def)

lemma alt_llist_remove_next:
  "ll_next (alt_llist_remove e h) =
     (ll_next h)(ll_prev h e := ll_next h e, e := e)"
  by (simp add: alt_llist_remove_def Let_def)

lemma alt_llist_remove_prev:
  "ll_prev (alt_llist_remove e h) = (ll_prev h)(ll_next h e := ll_prev h e, e := e)"
  by (simp add: alt_llist_remove_def Let_def)

lemmas llist_op_links =
  alt_llist_insert_next alt_llist_insert_prev alt_llist_remove_next alt_llist_remove_prev

lemma llist_at_insert:
  assumes "llist_at h l xs" and "e \<notin> set (l # xs)"
  shows "llist_at (alt_llist_insert l e h) l (e # xs)"
proof -
  from assms have d: "dll h l xs l" and nd: "distinct (l # xs)" and e: "e \<noteq> l" "e \<notin> set xs"
    by (auto simp: llist_at_def)
  have "dll (alt_llist_insert l e h) e xs l"
  proof (cases xs)
    case Nil
    with d e show ?thesis by (auto simp: llist_op_links)
  next
    case (Cons x ys)
    with d nd e have "dll h x ys l" "ll_next h l = x" by auto
    moreover have "dll (alt_llist_insert l e h) x ys l = dll h x ys l"
      using nd e Cons calculation(2) by (intro dll_cong) (auto simp: llist_op_links)
    ultimately show ?thesis using Cons nd e by (auto simp: llist_op_links)
  qed
  moreover have "ll_next h l \<noteq> e" using d e by (cases xs) auto
  ultimately show ?thesis
    using e nd by (auto simp: llist_at_def llist_op_links)
qed

lemma llist_at_remove:
  assumes "llist_at h l (xs @ e # ys)"
  shows "llist_at (alt_llist_remove e h) l (xs @ ys)"
proof -
  from assms have d1: "dll h l xs e" and d2: "dll h e ys l" and nd: "distinct (l # xs @ e # ys)"
    by (auto simp: llist_at_def dll_split)
  let ?h = "alt_llist_remove e h" and ?p = "last (l # xs)" and ?n = "hd (ys @ [l])"
  have p: "ll_prev h e = ?p" and n: "ll_next h e = ?n"
    using dll_prev_end [OF d1] dll_next_first [OF d2] by auto
  have pe: "?p \<noteq> e" "?n \<noteq> e" using nd by (cases ys; cases xs rule: rev_cases; auto)+
  have up: "ll_next ?h = (ll_next h)(?p := ?n, e := e)" "ll_prev ?h = (ll_prev h)(?n := ?p, e := e)"
    using p n by (simp_all add: llist_op_links)
  have left: "dll ?h l xs ?n"
  proof (cases xs rule: rev_cases)
    case Nil
    then show ?thesis using up pe by (cases ys) auto
  next
    case (snoc as a)
    with d1 have "dll h l as a" by (simp add: dll_split)
    moreover have "dll ?h l as a = dll h l as a"
      using nd snoc by (intro dll_cong) (cases ys; auto simp: up)+
    ultimately show ?thesis using snoc up pe nd by (simp add: dll_split)
  qed
  have "dll ?h l (xs @ ys) l"
  proof (cases ys)
    case Nil
    with left show ?thesis by simp
  next
    case (Cons y zs)
    with d2 have "dll h y zs l" by simp
    moreover have "dll ?h y zs l = dll h y zs l"
      using nd Cons by (intro dll_cong) (cases xs rule: rev_cases; auto simp: up)+
    ultimately show ?thesis using Cons left by (simp add: dll_split)
  qed
  with nd show ?thesis by (auto simp: llist_at_def)
qed

text \<open>A removed entry points to itself, so removing it again changes nothing.\<close>

lemma alt_llist_remove_self:
  "ll_next (alt_llist_remove e h) e = e" "ll_prev (alt_llist_remove e h) e = e"
  by (simp_all add: llist_op_links)

lemma alt_llist_remove_unlinked:
  "ll_next h e = e \<Longrightarrow> ll_prev h e = e \<Longrightarrow> alt_llist_remove e h = h"
  by (simp add: alt_llist_remove_def Let_def fun_upd_idem)

text \<open>Lists that share no node with the list that changes are unaffected.\<close>

lemma llist_at_insert_frame:
  assumes "llist_at h m zs" "llist_at h l xs" "set (m # zs) \<inter> set (e # l # xs) = {}"
  shows "llist_at (alt_llist_insert l e h) m zs"
proof -
  have "ll_next h l \<in> set (l # xs)"
    using assms(2) by (cases xs) (auto simp: llist_at_def)
  then have "dll (alt_llist_insert l e h) m zs m = dll h m zs m"
    using assms(3) by (intro dll_cong) (auto simp: llist_op_links)
  with assms(1) show ?thesis by (simp add: llist_at_def)
qed

lemma llist_at_neighbours:
  assumes "llist_at h l (xs @ e # ys)"
  shows "ll_prev h e \<in> set (l # xs)" "ll_next h e \<in> set (l # ys)"
proof -
  from assms have "dll h l xs e" "dll h e ys l" by (auto simp: llist_at_def dll_split)
  then show "ll_prev h e \<in> set (l # xs)" "ll_next h e \<in> set (l # ys)"
    by (cases xs rule: rev_cases; cases ys; auto dest: dll_prev_end)+
qed

lemma llist_at_remove_frame:
  assumes "llist_at h m zs" "llist_at h l (xs @ e # ys)" "set (m # zs) \<inter> set (l # xs @ e # ys) = {}"
  shows "llist_at (alt_llist_remove e h) m zs"
proof -
  from llist_at_neighbours [OF assms(2)] have "dll (alt_llist_remove e h) m zs m = dll h m zs m"
    using assms(3) by (intro dll_cong) (auto simp: llist_op_links)
  with assms(1) show ?thesis by (simp add: llist_at_def)
qed

lemma llist_at_head: "llist_at (ALT_LLIST_HEAD l h) l []"
  by (simp add: llist_at_def ALT_LLIST_HEAD_def)

text \<open>A removed node points to itself; so do nodes that operations on other nodes do not reach.\<close>

definition unlinked :: "llheap \<Rightarrow> addr \<Rightarrow> bool" where
  "unlinked h x \<longleftrightarrow> ll_next h x = x \<and> ll_prev h x = x"

lemma unlinked_insert_frame:
  assumes "llist_at h l xs" "x \<notin> set (e # l # xs)"
  shows "unlinked (alt_llist_insert l e h) x = unlinked h x"
proof -
  have "ll_next h l \<in> set (l # xs)" using assms(1) by (cases xs) (auto simp: llist_at_def)
  with assms(2) show ?thesis by (auto simp: unlinked_def llist_op_links)
qed

lemma unlinked_remove_frame:
  assumes "llist_at h l xs" "e \<in> set xs" "x \<notin> set (l # xs)"
  shows "unlinked (alt_llist_remove e h) x = unlinked h x"
proof -
  obtain as bs where "xs = as @ e # bs" using assms(2) by (auto dest: split_list)
  with assms llist_at_neighbours [of h l as e bs] have "ll_prev h e \<noteq> x" "ll_next h e \<noteq> x" "e \<noteq> x" by auto
  then show ?thesis by (auto simp: unlinked_def llist_op_links)
qed

section \<open>The interface of an intrusive list\<close>

text \<open>
  What a user of the lists relies on: a new head is the empty list, inserting puts the entry first,
  removing an entry takes exactly it out, and a list never holds a node twice.
\<close>

locale intrusive_list =
  fixes new :: "addr \<Rightarrow> 'h \<Rightarrow> 'h"
    and ins :: "addr \<Rightarrow> addr \<Rightarrow> 'h \<Rightarrow> 'h"
    and rem :: "addr \<Rightarrow> 'h \<Rightarrow> 'h"
    and rep :: "'h \<Rightarrow> addr \<Rightarrow> addr list \<Rightarrow> bool"
  assumes rep_new: "rep (new l h) l []"
    and rep_ins: "rep h l xs \<Longrightarrow> e \<noteq> l \<Longrightarrow> e \<notin> set xs \<Longrightarrow> rep (ins l e h) l (e # xs)"
    and rep_rem: "rep h l (xs @ e # ys) \<Longrightarrow> rep (rem e h) l (xs @ ys)"
    and rep_distinct: "rep h l xs \<Longrightarrow> distinct (l # xs)"
begin

lemma rep_rem_member:
  assumes "rep h l xs" "e \<in> set xs"
  shows "rep (rem e h) l (remove1 e xs)"
proof -
  from assms(2) obtain as bs where x: "xs = as @ e # bs" and "e \<notin> set as"
    by (auto dest: split_list_first)
  then have "remove1 e xs = as @ bs" by (simp add: remove1_append)
  with x assms(1) rep_rem show ?thesis by simp
qed

lemma rep_ins_rem:
  assumes "rep h l xs" "e \<noteq> l" "e \<notin> set xs"
  shows "rep (rem e (ins l e h)) l xs"
  using rep_rem [of "ins l e h" l "[]" e xs] rep_ins [OF assms] by simp

lemma rep_ins_all:
  "rep h l xs \<Longrightarrow> distinct es \<Longrightarrow> set es \<inter> set (l # xs) = {} \<Longrightarrow>
   rep (fold (ins l) es h) l (rev es @ xs)"
proof (induction es arbitrary: h xs)
  case Nil
  then show ?case by simp
next
  case (Cons e es)
  then have "rep (ins l e h) l (e # xs)" by (intro rep_ins) auto
  then have "rep (fold (ins l) es (ins l e h)) l (rev es @ e # xs)"
    using Cons.prems by (intro Cons.IH) auto
  then show ?case by simp
qed

lemma rep_new_ins_all:
  "distinct es \<Longrightarrow> l \<notin> set es \<Longrightarrow> rep (fold (ins l) es (new l h)) l (rev es)"
  using rep_ins_all [OF rep_new, of es] by simp

end

text \<open>
  A list whose entries may be removed at any time, once they were in the list: a removed entry is free, to
  remove a free entry does nothing, and no operation on other entries changes that.  \<open>K\<close> are the entries
  that may be removed.
\<close>

locale removable_list = intrusive_list new ins rem rep
  for new :: "addr \<Rightarrow> 'h \<Rightarrow> 'h"
    and ins :: "addr \<Rightarrow> addr \<Rightarrow> 'h \<Rightarrow> 'h"
    and rem :: "addr \<Rightarrow> 'h \<Rightarrow> 'h"
    and rep :: "'h \<Rightarrow> addr \<Rightarrow> addr list \<Rightarrow> bool" +
  fixes free :: "'h \<Rightarrow> addr \<Rightarrow> bool"
  assumes free_rem: "free (rem e h) e"
    and rem_free: "free h e \<Longrightarrow> rem e h = h"
    and free_ins: "rep h l xs \<Longrightarrow> x \<notin> set (e # l # xs) \<Longrightarrow> free (ins l e h) x = free h x"
    and free_rem_other: "rep h l xs \<Longrightarrow> e \<in> set xs \<Longrightarrow> x \<notin> set (l # xs) \<Longrightarrow> free (rem e h) x = free h x"
begin

lemma ins_tracked:
  assumes "rep h l xs" "l \<notin> K" "\<forall>x \<in> K - set xs. free h x" "e \<noteq> l" "e \<notin> set xs"
  shows "rep (ins l e h) l (e # xs) \<and> (\<forall>x \<in> insert e K - set (e # xs). free (ins l e h) x)"
  using rep_ins [OF assms(1,4,5)] free_ins [OF assms(1), of _ e] assms(2,3) by auto

lemma rem_tracked:
  assumes "rep h l xs" "l \<notin> K" "\<forall>x \<in> K - set xs. free h x" "e \<in> K \<union> set xs"
  shows "rep (rem e h) l (remove1 e xs) \<and> (\<forall>x \<in> K - set (remove1 e xs). free (rem e h) x)"
proof (cases "e \<in> set xs")
  case True
  have "free (rem e h) x" if "x \<in> K" "x \<notin> set (remove1 e xs)" for x
  proof (cases "x = e")
    case False
    with that have "x \<notin> set (l # xs)" using assms(2) by auto
    with free_rem_other [OF assms(1) True this] assms(3) that(1) show ?thesis by auto
  qed (simp add: free_rem)
  with rep_rem_member [OF assms(1) True] show ?thesis by blast
next
  case False
  with assms rem_free [of h e] show ?thesis by (simp add: remove1_idem)
qed

end

interpretation hal_list: removable_list ALT_LLIST_HEAD alt_llist_insert alt_llist_remove llist_at unlinked
proof unfold_locales
  show "distinct (l # xs)" if "llist_at h l xs" for h l xs
    using that by (simp add: llist_at_def)
  show "unlinked (alt_llist_remove e h) e" for e h
    by (simp add: unlinked_def alt_llist_remove_self)
  show "alt_llist_remove e h = h" if "unlinked h e" for h e
    using that by (simp add: unlinked_def alt_llist_remove_unlinked)
  show "unlinked (alt_llist_insert l e h) x = unlinked h x" if "llist_at h l xs" "x \<notin> set (e # l # xs)" for h l xs x e
    using that by (rule unlinked_insert_frame)
qed (simp_all add: llist_at_head llist_at_insert llist_at_remove unlinked_remove_frame)

section \<open>Properties\<close>

text \<open>Removing an entry takes exactly that entry out of the list that holds it, keeps every list
  that shares no node with it, and can be repeated without effect: the removed entry is left pointing
  to itself.\<close>

lemma alt_llist_remove_correct:
  assumes "llist_at h l (xs @ e # ys)"
  shows "llist_at (alt_llist_remove e h) l (xs @ ys) \<and>
         alt_llist_remove e (alt_llist_remove e h) = alt_llist_remove e h \<and>
         (\<forall>m zs. llist_at h m zs \<longrightarrow> set (m # zs) \<inter> set (l # xs @ e # ys) = {} \<longrightarrow>
                 llist_at (alt_llist_remove e h) m zs)"
  using llist_at_remove [OF assms] alt_llist_remove_unlinked [OF alt_llist_remove_self]
    llist_at_remove_frame [OF _ assms] by blast

text \<open>Inserting an entry that no list holds puts it first in its list and keeps every list that
  shares no node with it; removing it again restores the list.\<close>

lemma alt_llist_insert_correct:
  assumes "llist_at h l xs" and "e \<notin> set (l # xs)"
  shows "llist_at (alt_llist_insert l e h) l (e # xs) \<and>
         llist_at (alt_llist_remove e (alt_llist_insert l e h)) l xs \<and>
         (\<forall>m zs. llist_at h m zs \<longrightarrow> set (m # zs) \<inter> set (e # l # xs) = {} \<longrightarrow>
                 llist_at (alt_llist_insert l e h) m zs)"
  using assms hal_list.rep_ins hal_list.rep_ins_rem llist_at_insert_frame [OF _ assms(1)]
  by (metis list.set_intros(1) list.set_intros(2))

end
