(* ===== verification/AlarmClock.thy ===== *)
theory AlarmClock
  imports LList
begin

text \<open>
  The system clock: the alarm list and the tick handler (\<^verbatim>\<open>alt_alarm_start.c\<close>, \<^verbatim>\<open>alt_tick.c\<close>,
  \<^verbatim>\<open>sys/alt_alarm.h\<close>) and the calls that read or set the time (\<^verbatim>\<open>alt_gettod.c\<close>,
  \<^verbatim>\<open>alt_settod.c\<close>, \<^verbatim>\<open>alt_times.c\<close>).  An alarm is known by its address, which is also the address
  of its list node because \<^verbatim>\<open>llist\<close> is the first member of \<^verbatim>\<open>alt_alarm_s\<close>.  A callback is a value
  of the type \<open>'cb\<close>, run by the parameter \<open>call\<close> of the tick handler, which may change the whole
  state; the state the callbacks own is \<open>ck_world\<close>.
\<close>

section \<open>State\<close>

record timeval =
  tv_sec :: int
  tv_usec :: int

record timezone =
  tz_minuteswest :: int
  tz_dsttime :: int

record tms =
  tms_utime :: u32
  tms_stime :: u32
  tms_cutime :: u32
  tms_cstime :: u32

text \<open>
  The fields of \<^verbatim>\<open>struct alt_alarm_s\<close> by alarm address (\<open>al_time\<close>, \<open>al_callback\<close>,
  \<open>al_context\<close>), the head of \<^verbatim>\<open>alt_alarm_list\<close>, and the globals of the clock.
\<close>

record ('cb, 'w) clock =
  ck_links :: llheap
  alt_alarm_list :: addr
  al_time :: "addr \<Rightarrow> u64"
  al_callback :: "addr \<Rightarrow> 'cb"
  al_context :: "addr \<Rightarrow> addr"
  tick_rate :: u32
  nticks :: u64
  alt_timezone :: timezone
  alt_resettime :: timeval
  ck_errno :: int
  ck_world :: 'w

definition alt_ticks_per_second :: "('cb, 'w) clock \<Rightarrow> u32" where
  "alt_ticks_per_second s = tick_rate s"

definition alt_nticks :: "('cb, 'w) clock \<Rightarrow> u64" where
  "alt_nticks s = nticks s"

definition alt_sysclk_init :: "u32 \<Rightarrow> ('cb, 'w) clock \<Rightarrow> int \<times> ('cb, 'w) clock" where
  "alt_sysclk_init n s = (if tick_rate s = 0 then (0, s\<lparr>tick_rate := n\<rparr>) else (-1, s))"

section \<open>Alarms\<close>

text \<open>
  \<^verbatim>\<open>alt_irq_disable_all\<close> and \<^verbatim>\<open>alt_irq_enable_all\<close> bracket the update of the list; a call is one
  transition of the model.
\<close>

definition alt_alarm_start ::
    "addr \<Rightarrow> u32 \<Rightarrow> 'cb \<Rightarrow> addr \<Rightarrow> ('cb, 'w) clock \<Rightarrow> int \<times> ('cb, 'w) clock" where
  "alt_alarm_start alarm n callback ctx s =
     (if alt_ticks_per_second s \<noteq> 0 then
        if alarm \<noteq> 0 then
          let s1 = s\<lparr>al_callback := (al_callback s)(alarm := callback),
                     al_context := (al_context s)(alarm := ctx)\<rparr>;
              current_nticks = alt_nticks s1;
              s2 = s1\<lparr>al_time := (al_time s1)(alarm := ucast n + current_nticks + 1)\<rparr>;
              s3 = s2\<lparr>ck_links := alt_llist_insert (alt_alarm_list s2) alarm (ck_links s2)\<rparr>
          in (0, s3)
        else (- EINVAL, s)
      else (- ENOTSUP, s))"

definition alt_alarm_stop :: "addr \<Rightarrow> ('cb, 'w) clock \<Rightarrow> ('cb, 'w) clock" where
  "alt_alarm_stop alarm s = s\<lparr>ck_links := alt_llist_remove alarm (ck_links s)\<rparr>"

type_synonym ('cb, 'w) runner = "'cb \<Rightarrow> addr \<Rightarrow> ('cb, 'w) clock \<Rightarrow> u32 \<times> ('cb, 'w) clock"

text \<open>One pass of the loop body: the expired alarm's callback and what its return value does.\<close>

definition alt_tick_alarm :: "('cb, 'w) runner \<Rightarrow> addr \<Rightarrow> ('cb, 'w) clock \<Rightarrow> ('cb, 'w) clock" where
  "alt_tick_alarm call alarm s =
     (if al_time s alarm \<le> nticks s then
        let (next_callback, s1) = call (al_callback s alarm) (al_context s alarm) s
        in if next_callback = 0 then alt_alarm_stop alarm s1
           else s1\<lparr>al_time := (al_time s1)(alarm := al_time s1 alarm + ucast next_callback)\<rparr>
      else s)"

text \<open>
  The loop over the list: the successor is read before the callback runs.  It may never end when
  a callback rearranges the list, so its result is optional.
\<close>

partial_function (option) alt_tick_loop ::
    "('cb, 'w) runner \<Rightarrow> addr \<Rightarrow> ('cb, 'w) clock \<Rightarrow> ('cb, 'w) clock option" where
  "alt_tick_loop call alarm s =
     (if alarm = alt_alarm_list s then Some s
      else alt_tick_loop call (ll_next (ck_links s) alarm) (alt_tick_alarm call alarm s))"

definition alt_tick :: "('cb, 'w) runner \<Rightarrow> ('cb, 'w) clock \<Rightarrow> ('cb, 'w) clock option" where
  "alt_tick call s =
     (let alarm = ll_next (ck_links s) (alt_alarm_list s)
      in alt_tick_loop call alarm (s\<lparr>nticks := nticks s + 1\<rparr>))"

section \<open>The time of day\<close>

abbreviation ALT_US :: int where "ALT_US \<equiv> 1000000"

text \<open>
  \<^verbatim>\<open>(nticks*(ALT_US/tick_rate))%ALT_US\<close>: the quotient is taken at 32 bits, the product and the
  remainder at 64.
\<close>

definition tick_usec :: "u64 \<Rightarrow> u32 \<Rightarrow> u64" where
  "tick_usec n rate = (n * ucast ((1000000 :: u32) div rate)) mod 1000000"

text \<open>The two normalisation loops of \<^verbatim>\<open>ALT_GETTIMEOFDAY\<close>.\<close>

function carry_down :: "int \<Rightarrow> int \<Rightarrow> int \<times> int" where
  "carry_down sec usec =
     (if usec < 0 then (if sec \<le> 0 then (0, 0) else carry_down (sec - 1) (usec + ALT_US))
      else (sec, usec))"
  by pat_completeness auto
termination by (relation "measure (\<lambda>(sec, usec). nat (- usec))") auto

function carry_up :: "int \<Rightarrow> int \<Rightarrow> int \<times> int" where
  "carry_up sec usec =
     (if ALT_US \<le> usec then carry_up (sec + 1) (usec - ALT_US) else (sec, usec))"
  by pat_completeness auto
termination by (relation "measure (\<lambda>(sec, usec). nat usec)") auto

declare carry_down.simps [simp del] carry_up.simps [simp del]

text \<open>
  \<^verbatim>\<open>time_t\<close> has 64 bits and \<^verbatim>\<open>suseconds_t\<close> is a \<^verbatim>\<open>long\<close>; each sum is taken in the unsigned type C
  converts it to and read back as signed.  \<open>tz = None\<close> is a null \<^verbatim>\<open>ptimezone\<close>.
\<close>

definition ALT_GETTIMEOFDAY ::
    "timeval \<Rightarrow> timezone option \<Rightarrow> ('cb, 'w) clock \<Rightarrow> int \<times> timeval \<times> timezone option" where
  "ALT_GETTIMEOFDAY tv tz s =
     (let n = alt_nticks s; rate = alt_ticks_per_second s
      in if rate \<noteq> 0 then
           let sec0 = sint (word_of_int (tv_sec (alt_resettime s)) + n div ucast rate);
               usec0 = sint (word_of_int (tv_usec (alt_resettime s)) + (ucast (tick_usec n rate) :: u32));
               (sec1, usec1) = carry_down sec0 usec0;
               (sec2, usec2) = carry_up sec1 usec1
           in (0, \<lparr>tv_sec = sec2, tv_usec = usec2\<rparr>, map_option (\<lambda>_. alt_timezone s) tz)
         else (- ENOTSUP, tv, tz))"

text \<open>The time zone is read through the pointer without a test: \<open>tz = None\<close> is a null pointer.\<close>

definition ALT_SETTIMEOFDAY ::
    "timeval \<Rightarrow> timezone option \<Rightarrow> ('cb, 'w) clock \<Rightarrow> stuck + (int \<times> ('cb, 'w) clock)" where
  "ALT_SETTIMEOFDAY t tz s =
     (let n = alt_nticks s; rate = alt_ticks_per_second s
      in if rate \<noteq> 0 then
           let sec = sint (word_of_int (tv_sec t) - n div ucast rate);
               usec = sint (ucast (word_of_int (tv_usec t) - tick_usec n rate) :: u32)
           in case tz of
                None \<Rightarrow> Inl NullDeref
              | Some z \<Rightarrow>
                  Inr (0, s\<lparr>alt_resettime := \<lparr>tv_sec = sec, tv_usec = usec\<rparr>, alt_timezone := z\<rparr>)
         else Inr (-1, s\<lparr>ck_errno := ENOSYS\<rparr>))"

text \<open>\<^verbatim>\<open>clock_t\<close> is \<^verbatim>\<open>unsigned long\<close>: the 64-bit tick count loses its upper half.\<close>

definition ALT_TIMES :: "tms \<Rightarrow> ('cb, 'w) clock \<Rightarrow> u32 \<times> tms \<times> ('cb, 'w) clock" where
  "ALT_TIMES buf s =
     (let ticks = ucast (alt_nticks s)
      in if alt_ticks_per_second s = 0 then (0, buf, s\<lparr>ck_errno := ENOSYS\<rparr>)
         else (ticks, \<lparr>tms_utime = 0, tms_stime = ticks, tms_cutime = 0, tms_cstime = 0\<rparr>, s))"

section \<open>What a tick does to the alarm list\<close>

text \<open>
  Callbacks that change nothing but the state they own.  The functional specification of a tick runs
  over the list of alarms and says which ones stay registered, their new times and the callbacks' state.
\<close>

definition world_call :: "('cb \<Rightarrow> addr \<Rightarrow> 'w \<Rightarrow> u32 \<times> 'w) \<Rightarrow> ('cb, 'w) runner" where
  "world_call f cb ctx s = (let (n, w) = f cb ctx (ck_world s) in (n, s\<lparr>ck_world := w\<rparr>))"

fun tick_alarms ::
    "(addr \<Rightarrow> 'w \<Rightarrow> u32 \<times> 'w) \<Rightarrow> u64 \<Rightarrow> addr list \<Rightarrow> (addr \<Rightarrow> u64) \<Rightarrow> 'w
     \<Rightarrow> addr list \<times> (addr \<Rightarrow> u64) \<times> 'w" where
  "tick_alarms f now [] t w = ([], t, w)"
| "tick_alarms f now (x # xs) t w =
     (if t x \<le> now then
        let (n, w') = f x w
        in if n = 0 then tick_alarms f now xs t w'
           else apfst ((#) x) (tick_alarms f now xs (t(x := t x + ucast n)) w')
      else apfst ((#) x) (tick_alarms f now xs t w))"

lemma tick_alarms_subset: "set (fst (tick_alarms f now xs t w)) \<subseteq> set xs"
  by (induction xs arbitrary: t w) (auto split: prod.split dest!: subsetD)

lemma tick_alarms_frame:
  "x \<notin> set xs \<Longrightarrow> fst (snd (tick_alarms f now xs t w)) x = t x"
  by (induction xs arbitrary: t w) (auto split: prod.split)

lemma alt_tick_alarm_frame:
  assumes "alt_tick_alarm (world_call f) x s = s'"
  shows "alt_alarm_list s' = alt_alarm_list s" "nticks s' = nticks s"
    "al_callback s' = al_callback s" "al_context s' = al_context s"
    "tick_rate s' = tick_rate s" "alt_timezone s' = alt_timezone s"
    "alt_resettime s' = alt_resettime s" "ck_errno s' = ck_errno s"
  using assms
  by (auto simp: alt_tick_alarm_def world_call_def alt_alarm_stop_def Let_def split: prod.splits if_splits)

text \<open>
  The loop invariant: the alarms before the cursor are done (\<open>pre\<close>), those from it on (\<open>xs\<close>) are
  not, the heap holds \<open>pre @ xs\<close>, and the alarms of \<open>K\<close> that are not in the list point to themselves.
\<close>

lemma alt_tick_loop_tracked:
  assumes "llist_at (ck_links s) (alt_alarm_list s) (pre @ xs)"
    and "alt_alarm_list s \<notin> K" and "\<forall>x \<in> K - set (pre @ xs). unlinked (ck_links s) x"
    and "tick_alarms (\<lambda>x. f (al_callback s x) (al_context s x)) (nticks s) xs (al_time s) (ck_world s)
           = (ys, t', w')"
  shows "\<exists>h. alt_tick_loop (world_call f) (hd (xs @ [alt_alarm_list s])) s =
               Some (s\<lparr>ck_links := h, al_time := t', ck_world := w'\<rparr>) \<and>
             llist_at h (alt_alarm_list s) (pre @ ys) \<and> (\<forall>x \<in> K - set (pre @ ys). unlinked h x)"
  using assms
proof (induction xs arbitrary: s pre ys)
  case Nil
  then show ?case by (subst alt_tick_loop.simps) (auto intro!: exI [of _ "ck_links s"])
next
  case (Cons x xs)
  let ?s' = "alt_tick_alarm (world_call f) x s"
  let ?F = "\<lambda>x. f (al_callback s x) (al_context s x)"
  obtain n w where fw: "?F x (ck_world s) = (n, w)" by (cases "?F x (ck_world s)")
  from Cons.prems(1) have x: "x \<noteq> alt_alarm_list s" and d: "dll (ck_links s) x xs (alt_alarm_list s)"
    by (auto simp: llist_at_def dll_split)
  have step: "alt_tick_loop (world_call f) (hd ((x # xs) @ [alt_alarm_list s])) s =
              alt_tick_loop (world_call f) (hd (xs @ [alt_alarm_list s])) ?s'"
    using x dll_next_first [OF d] by (subst alt_tick_loop.simps) simp
  note fr = alt_tick_alarm_frame [of f x s ?s', OF refl]
  consider (skip) "\<not> al_time s x \<le> nticks s"
    | (drop) "al_time s x \<le> nticks s" "n = 0"
    | (keep) "al_time s x \<le> nticks s" "n \<noteq> 0" by blast
  then show ?case
  proof cases
    case skip
    then have s': "?s' = s" by (simp add: alt_tick_alarm_def)
    from skip Cons.prems(4) obtain zs where y: "ys = x # zs"
      and "tick_alarms ?F (nticks s) xs (al_time s) (ck_world s) = (zs, t', w')"
      by (auto simp: apfst_def map_prod_def split: prod.splits)
    then have "\<exists>h. alt_tick_loop (world_call f) (hd (xs @ [alt_alarm_list s])) s =
               Some (s\<lparr>ck_links := h, al_time := t', ck_world := w'\<rparr>) \<and>
             llist_at h (alt_alarm_list s) ((pre @ [x]) @ zs) \<and> (\<forall>y \<in> K - set ((pre @ [x]) @ zs). unlinked h y)"
      using Cons.prems(1-3) by (intro Cons.IH) (simp_all del: fun_upd_apply)
    then show ?thesis using y step s' by simp
  next
    case drop
    then have s': "?s' = s\<lparr>ck_world := w, ck_links := alt_llist_remove x (ck_links s)\<rparr>"
      using fw by (simp add: alt_tick_alarm_def world_call_def alt_alarm_stop_def)
    have "remove1 x (pre @ x # xs) = pre @ xs"
      using Cons.prems(1) by (auto simp: remove1_append llist_at_def)
    with hal_list.rem_tracked [OF Cons.prems(1-3), of x]
    have removed: "llist_at (alt_llist_remove x (ck_links s)) (alt_alarm_list s) (pre @ xs)"
      "\<forall>y \<in> K - set (pre @ xs). unlinked (alt_llist_remove x (ck_links s)) y" by simp_all
    from drop fw Cons.prems(4)
    have "tick_alarms ?F (nticks s) xs (al_time s) w = (ys, t', w')" by simp
    then have "\<exists>h. alt_tick_loop (world_call f) (hd (xs @ [alt_alarm_list ?s'])) ?s' =
               Some (?s'\<lparr>ck_links := h, al_time := t', ck_world := w'\<rparr>) \<and>
             llist_at h (alt_alarm_list ?s') (pre @ ys) \<and> (\<forall>y \<in> K - set (pre @ ys). unlinked h y)"
      using removed Cons.prems(2) s' by (intro Cons.IH) (simp_all del: fun_upd_apply)
    then show ?thesis using step s' by simp
  next
    case keep
    then have s': "?s' = s\<lparr>ck_world := w, al_time := (al_time s)(x := al_time s x + ucast n)\<rparr>"
      using fw by (simp add: alt_tick_alarm_def world_call_def)
    from keep fw Cons.prems(4) obtain zs where y: "ys = x # zs"
      and "tick_alarms ?F (nticks s) xs ((al_time s)(x := al_time s x + ucast n)) w = (zs, t', w')"
      by (auto simp: apfst_def map_prod_def split: prod.splits)
    then have "\<exists>h. alt_tick_loop (world_call f) (hd (xs @ [alt_alarm_list ?s'])) ?s' =
               Some (?s'\<lparr>ck_links := h, al_time := t', ck_world := w'\<rparr>) \<and>
             llist_at h (alt_alarm_list ?s') ((pre @ [x]) @ zs) \<and> (\<forall>y \<in> K - set ((pre @ [x]) @ zs). unlinked h y)"
      using Cons.prems(1-3) s' by (intro Cons.IH) (simp_all del: fun_upd_apply)
    then show ?thesis using y step s' by simp
  qed
qed

lemma alt_tick_tracked:
  assumes "llist_at (ck_links s) (alt_alarm_list s) xs"
    and "alt_alarm_list s \<notin> K" and "\<forall>x \<in> K - set xs. unlinked (ck_links s) x"
    and "tick_alarms (\<lambda>x. f (al_callback s x) (al_context s x)) (nticks s + 1) xs (al_time s) (ck_world s)
           = (ys, t', w')"
  shows "\<exists>h. alt_tick (world_call f) s =
               Some (s\<lparr>nticks := nticks s + 1, ck_links := h, al_time := t', ck_world := w'\<rparr>) \<and>
             llist_at h (alt_alarm_list s) ys \<and> (\<forall>x \<in> K - set ys. unlinked h x)"
proof -
  from assms(1) have "ll_next (ck_links s) (alt_alarm_list s) = hd (xs @ [alt_alarm_list s])"
    by (cases xs) (auto simp: llist_at_def)
  with alt_tick_loop_tracked [of "s\<lparr>nticks := nticks s + 1\<rparr>" "[]" xs K f ys t' w'] assms
  show ?thesis by (simp add: alt_tick_def)
qed

lemma alt_tick_list:
  assumes "llist_at (ck_links s) (alt_alarm_list s) xs"
    and "tick_alarms (\<lambda>x. f (al_callback s x) (al_context s x)) (nticks s + 1) xs (al_time s) (ck_world s)
           = (ys, t', w')"
  shows "\<exists>h. alt_tick (world_call f) s =
               Some (s\<lparr>nticks := nticks s + 1, ck_links := h, al_time := t', ck_world := w'\<rparr>) \<and>
             llist_at h (alt_alarm_list s) ys"
  using alt_tick_tracked [of s xs "{}"] assms by simp

text \<open>
  Callbacks that only record that they ran: the record grows by the expired alarms, in list order,
  and the alarms that stay are the ones that had not expired or asked to be called again.
\<close>

lemma tick_alarms_recording:
  assumes "distinct xs"
  shows "tick_alarms (\<lambda>x w. (p x, w @ [x])) now xs t w =
           (filter (\<lambda>x. t x \<le> now \<longrightarrow> p x \<noteq> 0) xs,
            (\<lambda>x. if x \<in> set xs \<and> t x \<le> now \<and> p x \<noteq> 0 then t x + ucast (p x) else t x),
            w @ filter (\<lambda>x. t x \<le> now) xs)"
  using assms
proof (induction xs arbitrary: t w)
  case Nil
  then show ?case by simp
next
  case (Cons x xs)
  have eq: "filter (\<lambda>y. (t(x := v)) y \<le> now) xs = filter (\<lambda>y. t y \<le> now) xs"
    "filter (\<lambda>y. (t(x := v)) y \<le> now \<longrightarrow> p y \<noteq> 0) xs = filter (\<lambda>y. t y \<le> now \<longrightarrow> p y \<noteq> 0) xs" for v
    using Cons.prems by (auto intro: filter_cong)
  show ?case
    using Cons.prems Cons.IH [of t] Cons.IH [of "t(x := t x + ucast (p x))"]
    by (auto simp only: tick_alarms.simps eq Let_def prod.case apfst_conv filter.simps distinct.simps
        list.set insert_iff split: if_splits) (auto simp: fun_eq_iff)
qed

fun alt_ticks :: "('cb, 'w) runner \<Rightarrow> nat \<Rightarrow> ('cb, 'w) clock \<Rightarrow> ('cb, 'w) clock option" where
  "alt_ticks call 0 s = Some s"
| "alt_ticks call (Suc k) s = Option.bind (alt_tick call s) (alt_ticks call k)"

text \<open>While no alarm has expired, ticks only count.\<close>

lemma tick_alarms_quiet: "\<forall>x \<in> set xs. \<not> t x \<le> now \<Longrightarrow> tick_alarms f now xs t w = (xs, t, w)"
  by (induction xs) auto

lemma alt_ticks_quiet:
  assumes "llist_at (ck_links s) (alt_alarm_list s) xs"
    and "\<forall>x \<in> set xs. unat (nticks s) + k < unat (al_time s x)"
  shows "\<exists>h. alt_ticks (world_call f) k s = Some (s\<lparr>nticks := nticks s + of_nat k, ck_links := h\<rparr>) \<and>
             llist_at h (alt_alarm_list s) xs"
  using assms
proof (induction k arbitrary: s)
  case 0
  then show ?case by (auto intro!: exI [of _ "ck_links s"])
next
  case (Suc k)
  show ?case
  proof (cases xs)
    case Nil
    let ?s = "\<lambda>h. s\<lparr>nticks := nticks s + 1, ck_links := h\<rparr>"
    from alt_tick_list [of s "[]" f "[]" "al_time s" "ck_world s"] Suc.prems Nil
    obtain h where t: "alt_tick (world_call f) s = Some (?s h)" and h: "llist_at h (alt_alarm_list s) []"
      by auto
    from Suc.IH [of "?s h"] h Nil t show ?thesis by (auto simp: add.assoc)
  next
    case (Cons y ys)
    let ?s = "\<lambda>h. s\<lparr>nticks := nticks s + 1, ck_links := h\<rparr>"
    have "unat (nticks s) + 1 < unat (al_time s y)" using Suc.prems Cons by simp
    moreover have "unat (al_time s y) < 2 ^ 64" using unsigned_less [of "al_time s y"] by simp
    ultimately have u: "unat (nticks s + 1) = unat (nticks s) + 1"
      by (subst unat_add_no_overflow) auto
    with Suc.prems have "\<forall>x \<in> set xs. \<not> al_time s x \<le> nticks s + 1"
      by (auto simp: word_le_nat_alt)
    from alt_tick_list [OF Suc.prems(1) tick_alarms_quiet [OF this]]
    obtain h where t: "alt_tick (world_call f) s = Some (?s h)" and h: "llist_at h (alt_alarm_list s) xs"
      by auto
    from Suc.IH [of "?s h"] h Suc.prems u t show ?thesis by (auto simp: add.assoc)
  qed
qed

lemma alt_ticks_Suc: "alt_ticks call (Suc k) s = Option.bind (alt_ticks call k s) (alt_tick call)"
proof (induction k arbitrary: s)
  case 0
  show ?case by (cases "alt_tick call s") auto
next
  case (Suc k)
  have "alt_ticks call (Suc (Suc k)) s = Option.bind (alt_tick call s) (\<lambda>t. alt_ticks call (Suc k) t)"
    by (rule alt_ticks.simps(2))
  also have "\<dots> = Option.bind (alt_tick call s) (\<lambda>t. Option.bind (alt_ticks call k t) (alt_tick call))"
    by (simp only: Suc.IH)
  also have "\<dots> = Option.bind (alt_ticks call (Suc k) s) (alt_tick call)"
    by (simp add: Option.bind_assoc)
  finally show ?case .
qed

lemma alt_alarm_start_registers:
  assumes "alt_alarm_start x n cb ctx s = (0, s')" and "x \<notin> set (alt_alarm_list s # xs)"
    and "llist_at (ck_links s) (alt_alarm_list s) xs"
  shows "llist_at (ck_links s') (alt_alarm_list s') (x # xs)" "al_time s' = (al_time s)(x := ucast n + nticks s + 1)"
    "al_callback s' = (al_callback s)(x := cb)" "al_context s' = (al_context s)(x := ctx)"
    "nticks s' = nticks s" "ck_world s' = ck_world s" "alt_alarm_list s' = alt_alarm_list s"
  using assms hal_list.rep_ins [of "ck_links s" "alt_alarm_list s" xs x]
  by (auto simp: alt_alarm_start_def alt_nticks_def Let_def split: if_splits)

section \<open>Properties\<close>

text \<open>C9: For every list of registered alarms whose callbacks change only a state of their own, and do not themselves start
  or stop alarms, the tick handler returns (the loop ends although the
  handler removes alarms from the list it walks), and it does to the list, to the alarm times and to
  the callbacks' state exactly what the functional specification does: the expired alarms run in list
  order, those that return zero are deregistered, the others are moved on by the interval they return.
  (Callbacks that start and stop alarms are the subject of \<^verbatim>\<open>AlarmProg\<close>; one that stops the alarm that comes next
  makes the handler spin.)\<close>

theorem alt_tick_refines:
  assumes "llist_at (ck_links s) (alt_alarm_list s) xs"
  shows "\<exists>h ys t w. tick_alarms (\<lambda>x. f (al_callback s x) (al_context s x)) (nticks s + 1) xs
                        (al_time s) (ck_world s) = (ys, t, w) \<and>
           alt_tick (world_call f) s =
             Some (s\<lparr>nticks := nticks s + 1, ck_links := h, al_time := t, ck_world := w\<rparr>) \<and>
           llist_at h (alt_alarm_list s) ys"
proof -
  obtain ys t w where "tick_alarms (\<lambda>x. f (al_callback s x) (al_context s x)) (nticks s + 1) xs
      (al_time s) (ck_world s) = (ys, t, w)" by (rule prod_cases3)
  with alt_tick_list [OF assms, of f ys t w] show ?thesis by auto
qed

definition clock0 :: "(nat, addr list) clock" where
  "clock0 = \<lparr>ck_links = ALT_LLIST_HEAD 1 \<lparr>ll_next = \<lambda>_. 0, ll_prev = \<lambda>_. 0\<rparr>, alt_alarm_list = 1,
     al_time = \<lambda>_. 0, al_callback = \<lambda>_. 0, al_context = \<lambda>_. 0, tick_rate = 100, nticks = 0,
     alt_timezone = \<lparr>tz_minuteswest = 0, tz_dsttime = 0\<rparr>,
     alt_resettime = \<lparr>tv_sec = 0, tv_usec = 0\<rparr>, ck_errno = 0, ck_world = []\<rparr>"

definition clock2 :: "(nat, addr list) clock" where
  "clock2 = snd (alt_alarm_start 8 0 0 8 (snd (alt_alarm_start 16 3 0 16 clock0)))"

lemma clock2_list: "llist_at (ck_links clock2) (alt_alarm_list clock2) [8, 16]"
  by (simp add: clock2_def clock0_def alt_alarm_start_def alt_ticks_per_second_def llist_at_def
      ALT_LLIST_HEAD_def alt_llist_insert_def Let_def)

lemma clock2_fields [simp]:
  "alt_alarm_list clock2 = 1" "nticks clock2 = 0" "ck_world clock2 = []"
  "al_time clock2 8 = 1" "al_time clock2 16 = 4" "al_context clock2 8 = 8" "al_context clock2 16 = 16"
  by (simp_all add: clock2_def clock0_def alt_alarm_start_def alt_ticks_per_second_def alt_nticks_def Let_def)

theorem alt_tick_refines_witness:
  "\<exists>h. alt_tick (world_call (\<lambda>_ c w. (0, w @ [c]))) clock2 =
             Some (clock2\<lparr>nticks := 1, ck_links := h, ck_world := [8]\<rparr>) \<and> llist_at h 1 [16]"
  using alt_tick_refines [OF clock2_list, of "\<lambda>_ c w. (0, w @ [c])"]
  by (simp add: word_le_nat_alt)

text \<open>An alarm started for \<open>n\<close> ticks on an empty list, with no tick lost to overflow, does not
  run its callback during the next \<open>n\<close> ticks and runs it once on tick \<open>n + 1\<close>.\<close>

lemma alt_alarm_fires_on_time:
  assumes "llist_at (ck_links s) (alt_alarm_list s) []" and "x \<noteq> alt_alarm_list s"
    and "unat (nticks s) + unat n + 1 < 2 ^ 64" and "alt_alarm_start x n cb ctx s = (0, s')"
    and "k \<le> unat n + 1"
  shows "\<exists>t. alt_ticks (world_call f) k s' = Some t \<and>
             ck_world t = (if k \<le> unat n then ck_world s else snd (f cb ctx (ck_world s)))"
proof -
  note reg = alt_alarm_start_registers [OF assms(4) _ assms(1), simplified, OF assms(2)]
  have u: "unat (ucast n + nticks s :: u64) = unat n + unat (nticks s)"
    using assms(3) by (subst unat_add_no_overflow) (auto simp: unat_ucast_u64)
  have tm: "unat (al_time s' x) = unat n + unat (nticks s) + 1"
    using assms(3) u by (simp add: reg) (subst unat_add_no_overflow, auto)
  have quiet: "\<exists>h. alt_ticks (world_call f) j s' = Some (s'\<lparr>nticks := nticks s' + of_nat j, ck_links := h\<rparr>) \<and>
      llist_at h (alt_alarm_list s') [x]" if "j \<le> unat n" for j
    using that tm reg by (intro alt_ticks_quiet) auto
  show ?thesis
  proof (cases "k \<le> unat n")
    case True
    with quiet [of k] reg show ?thesis by auto
  next
    case False
    with assms(5) have k: "k = Suc (unat n)" by simp
    obtain h where h: "alt_ticks (world_call f) (unat n) s' = Some (s'\<lparr>nticks := nticks s' + of_nat (unat n), ck_links := h\<rparr>)"
      and l: "llist_at h (alt_alarm_list s') [x]" using quiet [of "unat n"] by auto
    let ?t = "s'\<lparr>nticks := nticks s' + of_nat (unat n), ck_links := h\<rparr>"
    have "al_time ?t x \<le> nticks ?t + 1" by (simp add: reg add_ac)
    moreover obtain m w where "f cb ctx (ck_world s) = (m, w)" by (cases "f cb ctx (ck_world s)")
    ultimately obtain ys t where "tick_alarms (\<lambda>x. f (al_callback ?t x) (al_context ?t x)) (nticks ?t + 1) [x]
        (al_time ?t) (ck_world ?t) = (ys, t, w)"
      by (cases "m = 0") (auto simp: reg)
    from alt_tick_list [OF _ this] l \<open>f cb ctx (ck_world s) = (m, w)\<close> h False k show ?thesis
      by (auto simp: alt_ticks_Suc simp del: alt_ticks.simps)
  qed
qed

text \<open>
  How often an alarm has run in \<open>k\<close> ticks, when it was started for \<open>n\<close> ticks and its callback returns \<open>p\<close>.
\<close>

definition alarm_runs :: "nat \<Rightarrow> nat \<Rightarrow> nat \<Rightarrow> nat" where
  "alarm_runs n p k = (if k \<le> n then 0 else if p = 0 then 1 else (k - 1 - n) div p + 1)"

lemma alarm_runs_Suc:
  assumes "0 < p"
  shows "alarm_runs n p (Suc k) = (if n + alarm_runs n p k * p \<le> k then Suc (alarm_runs n p k) else alarm_runs n p k) \<and>
     k \<le> n + alarm_runs n p k * p"
proof (cases "k \<le> n")
  case True
  with assms show ?thesis by (auto simp: alarm_runs_def)
next
  case False
  define m where "m = k - 1 - n"
  with False have k: "k = Suc (m + n)" by simp
  define q where "q = m div p"
  define e where "e = m mod p"
  have d: "q * p + e = m" and e: "e < p" using assms by (simp_all add: q_def e_def)
  have "Suc m div p = (if Suc e = p then Suc q else q)"
    using e by (auto simp: div_Suc mod_Suc q_def e_def)
  with assms have r: "alarm_runs n p k = Suc q" "alarm_runs n p (Suc k) = Suc (if Suc e = p then Suc q else q)"
    by (simp_all add: alarm_runs_def k q_def)
  have "n + Suc q * p \<le> k \<longleftrightarrow> Suc e = p" "k \<le> n + Suc q * p"
    using d e by (simp_all only: k mult_Suc) linarith+
  then show ?thesis by (simp add: r)
qed

lemma alt_ticks_period:
  assumes "llist_at (ck_links s) (alt_alarm_list s) [x]" "unat (al_time s x) = unat (nticks s) + n + 1"
    and "\<And>w. f (al_callback s x) (al_context s x) w = (p, g w)"
    and "unat (nticks s) + n + 1 + k + unat p < 2 ^ 64"
  shows "\<exists>h t. alt_ticks (world_call f) k s =
      Some (s\<lparr>nticks := nticks s + of_nat k, ck_links := h, al_time := t,
              ck_world := (g ^^ alarm_runs n (unat p) k) (ck_world s)\<rparr>) \<and>
    llist_at h (alt_alarm_list s) (if p = 0 \<and> n < k then [] else [x]) \<and>
    (p = 0 \<and> n < k \<or> unat (t x) = unat (nticks s) + n + 1 + alarm_runs n (unat p) k * unat p)"
  using assms(4)
proof (induction k)
  case 0
  have "alarm_runs n (unat p) 0 = 0" by (simp add: alarm_runs_def)
  with assms(1,2) show ?case by (auto intro!: exI [of _ "ck_links s"] exI [of _ "al_time s"])
next
  case (Suc k)
  let ?c = "alarm_runs n (unat p) k"
  let ?s = "\<lambda>h t. s\<lparr>nticks := nticks s + of_nat k, ck_links := h, al_time := t, ck_world := (g ^^ ?c) (ck_world s)\<rparr>"
  from Suc obtain h t where k: "alt_ticks (world_call f) k s = Some (?s h t)"
    and l: "llist_at h (alt_alarm_list s) (if p = 0 \<and> n < k then [] else [x])"
    and t: "p = 0 \<and> n < k \<or> unat (t x) = unat (nticks s) + n + 1 + ?c * unat p" by auto
  have nt: "unat (nticks s + of_nat k + 1) = unat (nticks s) + k + 1"
  proof -
    have "unat (of_nat (k + 1) :: u64) = k + 1" using Suc.prems by (simp add: unsigned_of_nat take_bit_nat_eq_self del: of_nat_Suc of_nat_add)
    then have "unat (nticks s + of_nat (k + 1)) = unat (nticks s) + (k + 1)"
      using Suc.prems by (subst unat_add_no_overflow) auto
    then show ?thesis by (simp add: add_ac)
  qed
  have end1: "\<exists>h' t'. alt_tick (world_call f) (?s h t) = Some (s\<lparr>nticks := nticks s + of_nat (Suc k), ck_links := h', al_time := t', ck_world := w\<rparr>) \<and>
       llist_at h' (alt_alarm_list s) ys \<and> t' = t1"
    if "tick_alarms (\<lambda>x. f (al_callback s x) (al_context s x)) (nticks s + of_nat k + 1) xs t ((g ^^ ?c) (ck_world s)) = (ys, t1, w)"
      "llist_at h (alt_alarm_list s) xs" for xs ys t1 w
    using alt_tick_list [of "?s h t" xs f ys t1 w] that by (auto simp: add_ac)
  show ?case
  proof (cases "p = 0 \<and> n < k")
    case True
    then have r: "alarm_runs n (unat p) (Suc k) = ?c" by (simp add: alarm_runs_def)
    from end1 [of "[]"] True l obtain h' where
      "alt_tick (world_call f) (?s h t) = Some (s\<lparr>nticks := nticks s + of_nat (Suc k), ck_links := h', al_time := t, ck_world := (g ^^ ?c) (ck_world s)\<rparr>)"
      "llist_at h' (alt_alarm_list s) []" by auto
    moreover have "alt_ticks (world_call f) (Suc k) s = alt_tick (world_call f) (?s h t)"
      by (simp add: alt_ticks_Suc k del: alt_ticks.simps)
    ultimately show ?thesis using True r by (intro exI [of _ h'] exI [of _ t]) simp
  next
    case False
    with l t have l: "llist_at h (alt_alarm_list s) [x]" and t: "unat (t x) = unat (nticks s) + n + 1 + ?c * unat p" by auto
    have due: "t x \<le> nticks s + of_nat k + 1 \<longleftrightarrow> n + ?c * unat p \<le> k" by (auto simp: word_le_nat_alt nt t)
    have runs: "alarm_runs n (unat p) (Suc k) = (if n + ?c * unat p \<le> k then Suc ?c else ?c)"
    proof (cases "p = 0")
      case True
      with False show ?thesis by (auto simp: alarm_runs_def)
    next
      case False
      then have "0 < unat p" by (simp add: unat_gt_0)
      with alarm_runs_Suc show ?thesis by blast
    qed
    let ?d = "n + ?c * unat p \<le> k"
    let ?ys = "if ?d \<and> p = 0 then [] else [x]" and ?t = "if ?d \<and> p \<noteq> 0 then t(x := t x + ucast p) else t"
    have "tick_alarms (\<lambda>x. f (al_callback s x) (al_context s x)) (nticks s + of_nat k + 1) [x] t ((g ^^ ?c) (ck_world s)) =
       (?ys, ?t, (g ^^ alarm_runs n (unat p) (Suc k)) (ck_world s))"
      by (simp add: due runs assms(3))
    from end1 [OF this l] obtain h' where
      h': "alt_tick (world_call f) (?s h t) = Some (s\<lparr>nticks := nticks s + of_nat (Suc k), ck_links := h', al_time := ?t, ck_world := (g ^^ alarm_runs n (unat p) (Suc k)) (ck_world s)\<rparr>)"
      "llist_at h' (alt_alarm_list s) ?ys" by blast
    have ys: "?ys = (if p = 0 \<and> n < Suc k then [] else [x])" using False by (auto simp: alarm_runs_def)
    have "p = 0 \<and> n < Suc k \<or> unat (?t x) = unat (nticks s) + n + 1 + alarm_runs n (unat p) (Suc k) * unat p"
    proof (cases "?d \<and> p \<noteq> 0")
      case True
      have "unat (t x + ucast p) = unat (t x) + unat p"
        using Suc.prems True by (subst unat_add_no_overflow) (auto simp: t unat_ucast_u64)
      with True show ?thesis by (simp add: runs t)
    next
      case False
      then show ?thesis by (cases "p = 0") (auto simp: runs t)
    qed
    moreover have "alt_ticks (world_call f) (Suc k) s = alt_tick (world_call f) (?s h t)"
      by (simp add: alt_ticks_Suc k del: alt_ticks.simps)
    ultimately show ?thesis using h' unfolding ys by (intro exI [of _ h'] exI [of _ ?t]) metis
  qed
qed
text \<open>C11: An alarm started for \<open>n\<close> ticks on an empty list, whose callback always asks for \<open>p\<close> more ticks, runs on
  the ticks \<open>n + 1\<close>, \<open>n + 1 + p\<close>, \<open>n + 1 + 2 * p\<close> and so on and on no others, and stays registered; with \<open>p = 0\<close>
  it runs once and is then out of the list.\<close>

theorem alt_alarm_period:
  assumes "llist_at (ck_links s) (alt_alarm_list s) []" and "x \<noteq> alt_alarm_list s"
    and "alt_alarm_start x n cb ctx s = (0, s')" and "\<forall>w. f cb ctx w = (p, g w)"
    and "unat (nticks s) + unat n + 1 + k + unat p < 2 ^ 64"
  shows "\<exists>t. alt_ticks (world_call f) k s' = Some t \<and>
             ck_world t = (g ^^ alarm_runs (unat n) (unat p) k) (ck_world s) \<and>
             llist_at (ck_links t) (alt_alarm_list s) (if p = 0 \<and> unat n < k then [] else [x])"
proof -
  note reg = alt_alarm_start_registers [OF assms(3) _ assms(1), simplified, OF assms(2)]
  have u: "unat (ucast n + nticks s :: u64) = unat n + unat (nticks s)"
    using assms(5) by (subst unat_add_no_overflow) (auto simp: unat_ucast_u64)
  then have "unat (al_time s' x) = unat (nticks s') + unat n + 1"
    using assms(5) by (simp add: reg) (subst unat_add_no_overflow, auto)
  from alt_ticks_period [of s' x "unat n" f p g k, OF _ this] reg assms(4,5) show ?thesis by auto
qed

theorem alt_alarm_period_witness:
  "\<exists>t. alt_ticks (world_call (\<lambda>_ c w. (2, w @ [c]))) 8 (snd (alt_alarm_start 16 3 0 16 clock0)) = Some t \<and>
       ck_world t = [16, 16, 16]"
proof -
  have "\<exists>t. alt_ticks (world_call (\<lambda>_ c w. (2, w @ [c]))) 8 (snd (alt_alarm_start 16 3 0 16 clock0)) = Some t \<and>
      ck_world t = ((\<lambda>w. w @ [16]) ^^ alarm_runs 3 2 8) (ck_world clock0)"
    using alt_alarm_period [where s = clock0 and x = 16 and n = 3 and cb = 0 and ctx = 16 and k = 8 and p = 2
      and f = "\<lambda>_ c w. (2, w @ [c])" and g = "\<lambda>w. w @ [16]" and s' = "snd (alt_alarm_start 16 3 0 16 clock0)"]
    by (auto simp: clock0_def alt_alarm_start_def alt_ticks_per_second_def alt_nticks_def Let_def
        llist_at_def ALT_LLIST_HEAD_def)
  then show ?thesis by (simp add: alarm_runs_def numeral_3_eq_3 clock0_def)
qed

lemma sint_word_of_int_u64: "- (2 ^ 63) \<le> x \<Longrightarrow> x < 2 ^ 63 \<Longrightarrow> sint (word_of_int x :: u64) = x"
  by transfer (simp add: signed_take_bit_int_eq_self)

lemma sint_word_of_int_u32: "- (2 ^ 31) \<le> x \<Longrightarrow> x < 2 ^ 31 \<Longrightarrow> sint (word_of_int x :: u32) = x"
  by transfer (simp add: signed_take_bit_int_eq_self)

lemma ucast_diff_u32: "ucast (word_of_int x - (m :: u64)) = (word_of_int x - ucast m :: u32)"
  by transfer (simp add: take_bit_eq_mod mod_mod_cancel, intro mod_diff_cong refl, simp add: mod_mod_cancel)

lemma sint_u32_small: 
  assumes "unat (x :: u32) < 2 ^ 31"
  shows "sint x = int (unat x)"
proof -
  have "int (unat x) < int (2 ^ 31)" using assms by (simp only: of_nat_less_iff)
  then show ?thesis
    by (simp add: sint_uint) (rule signed_take_bit_int_eq_self, rule order_trans [OF _ uint_ge_0], simp_all)
qed

lemma sint_u64_small: 
  assumes "unat (x :: u64) < 2 ^ 63"
  shows "sint x = int (unat x)"
proof -
  have "int (unat x) < int (2 ^ 63)" using assms by (simp only: of_nat_less_iff)
  then show ?thesis
    by (simp add: sint_uint) (rule signed_take_bit_int_eq_self, rule order_trans [OF _ uint_ge_0], simp_all)
qed

lemma le_mult_right_nat: "0 < p \<Longrightarrow> n \<le> n * (p :: nat)"
  by (cases p) auto

lemma carry_normal: "0 \<le> usec \<Longrightarrow> usec < ALT_US \<Longrightarrow>
   carry_down sec usec = (sec, usec) \<and> carry_up sec usec = (sec, usec)"
  by (subst carry_down.simps, subst carry_up.simps) simp

lemma ALT_GETTIMEOFDAY_normal:
  assumes "tick_rate s \<noteq> 0"
    and "sint (word_of_int (tv_sec (alt_resettime s)) + nticks s div ucast (tick_rate s)) = sec"
    and "sint (word_of_int (tv_usec (alt_resettime s)) + (ucast (tick_usec (nticks s) (tick_rate s)) :: u32)) = usec"
    and "0 \<le> usec" "usec < ALT_US"
  shows "ALT_GETTIMEOFDAY tv tz s =
           (0, \<lparr>tv_sec = sec, tv_usec = usec\<rparr>, map_option (\<lambda>_. alt_timezone s) tz)"
  using assms carry_normal [of usec sec]
  by (simp add: ALT_GETTIMEOFDAY_def alt_nticks_def alt_ticks_per_second_def Let_def)

text \<open>Reading the clock right after setting it gives back the time and the time zone that were
  set, whatever the tick count and the tick rate: the offsets stored by \<^verbatim>\<open>settimeofday\<close> cancel the
  tick count modulo the widths of the stored fields.\<close>

lemma settimeofday_gettimeofday:
  assumes "tick_rate s \<noteq> 0" and "0 \<le> tv_usec t" "tv_usec t < ALT_US"
    and "- (2 ^ 63) \<le> tv_sec t" "tv_sec t < 2 ^ 63"
  shows "\<exists>s'. ALT_SETTIMEOFDAY t (Some z) s = Inr (0, s') \<and>
              ALT_GETTIMEOFDAY tv (Some z0) s' = (0, t, Some z)"
proof -
  have sec: "sint (word_of_int (tv_sec t) :: u64) = tv_sec t"
    using assms by (intro sint_word_of_int_u64) auto
  have usec: "sint (word_of_int (tv_usec t) :: u32) = tv_usec t"
    using assms by (intro sint_word_of_int_u32) auto
  show ?thesis
    using assms carry_normal [of "tv_usec t" "tv_sec t"]
    by (simp add: ALT_SETTIMEOFDAY_def ALT_GETTIMEOFDAY_def alt_nticks_def alt_ticks_per_second_def
        ucast_diff_u32 sec usec Let_def)
qed

definition clock_at :: "u64 \<Rightarrow> u32 \<Rightarrow> (nat, addr list) clock" where
  "clock_at n rate = clock0\<lparr>nticks := n, tick_rate := rate\<rparr>"

lemma tick_usec_exact:
  assumes "unat rate * p = 1000000" and "unat n * p < 2 ^ 64"
  shows "unat (tick_usec n rate) = unat n * p mod 1000000"
proof -
  have r: "0 < unat rate" using assms(1) by (cases "unat rate") auto
  have "(1000000 :: nat) div unat rate = p" using assms(1) r by (metis nonzero_mult_div_cancel_left less_not_refl)
  then have "unat ((1000000 :: u32) div rate) = p" by (simp add: unat_div_distrib)
  moreover have "unat (ucast ((1000000 :: u32) div rate) :: u64) = unat ((1000000 :: u32) div rate)"
    by (rule unat_ucast_u64)
  ultimately have "unat (n * ucast ((1000000 :: u32) div rate)) = unat n * p"
    using assms(2) by (simp add: unat_word_ariths)
  then show ?thesis by (simp add: tick_usec_def unat_mod_distrib)
qed

text \<open>When the tick period is a whole number \<open>p\<close> of microseconds and the clock was never set, the
  time of day is the tick count times the period, in normal form: it is exact and never goes back.\<close>

lemma gettimeofday_exact:
  assumes "unat (tick_rate s) * p = 1000000" and "unat (nticks s) * p < 2 ^ 63"
    and "alt_resettime s = \<lparr>tv_sec = 0, tv_usec = 0\<rparr>"
    and "ALT_GETTIMEOFDAY tv tz s = (r, t, z)"
  shows "r = 0 \<and> tv_sec t * ALT_US + tv_usec t = int (unat (nticks s) * p) \<and>
         0 \<le> tv_usec t \<and> tv_usec t < ALT_US"
proof -
  let ?n = "unat (nticks s)" and ?r = "unat (tick_rate s)"
  let ?m = "tick_usec (nticks s) (tick_rate s)"
  have p: "0 < p" "0 < ?r" using assms(1) by (auto intro: Nat.gr0I)
  have m: "unat ?m = (?n mod ?r) * p"
  proof -
    have "?n * p mod (?r * p) = (?n mod ?r) * p" by (simp add: mod_mult_mult2)
    with tick_usec_exact [OF assms(1), of "nticks s"] assms(1,2) show ?thesis by simp
  qed
  have "(?n mod ?r) * p < ?r * p" using p by simp
  with m assms(1) have lt: "unat ?m < 1000000" by simp
  then have "unat (ucast ?m :: u32) = unat ?m"
    by (simp add: unsigned_ucast_eq take_bit_nat_eq_self)
  with lt have us: "sint (0 + ucast ?m :: u32) = int ((?n mod ?r) * p)"
    using m by (simp add: sint_u32_small)
  have "?n div ?r \<le> ?n * p" using p by (meson div_le_dividend le_trans le_mult_right_nat)
  with assms(2) have se: "sint (0 + nticks s div ucast (tick_rate s)) = int (?n div ?r)"
    by (simp add: sint_u64_small unat_div_distrib)
  have "(?n div ?r) * 1000000 + (?n mod ?r) * p = ?n * p"
    using assms(1) by (metis add_mult_distrib div_mult_mod_eq mult.assoc)
  moreover have ltz: "int ((?n mod ?r) * p) < ALT_US" using lt m by linarith
  moreover have "ALT_GETTIMEOFDAY tv tz s =
      (0, \<lparr>tv_sec = int (?n div ?r), tv_usec = int ((?n mod ?r) * p)\<rparr>, map_option (\<lambda>_. alt_timezone s) tz)"
    using p lt m us se ltz assms(3) by (intro ALT_GETTIMEOFDAY_normal) auto
  ultimately show ?thesis using assms(4)
    by (auto simp flip: of_nat_mult of_nat_add)
qed

text \<open>The period is truncated to whole microseconds, so with a tick rate that does not divide a
  million the time of day goes backwards: at 3 ticks per second, tick 4 reads earlier than tick 3.\<close>

lemma gettimeofday_goes_back:
  "ALT_GETTIMEOFDAY tv None (clock_at 3 3) = (0, \<lparr>tv_sec = 1, tv_usec = 999999\<rparr>, None) \<and>
   ALT_GETTIMEOFDAY tv None (clock_at 4 3) = (0, \<lparr>tv_sec = 1, tv_usec = 333332\<rparr>, None)"
  by (simp add: ALT_GETTIMEOFDAY_def clock_at_def clock0_def alt_nticks_def alt_ticks_per_second_def
      tick_usec_def Let_def sint_u32_small sint_u64_small carry_normal)

end
