(* ===== verification/AlarmProg.thy ===== *)
theory AlarmProg
  imports AlarmClock
begin

text \<open>
  Programs that use the system clock, and callbacks that start and stop alarms themselves.  The handler of
  the tick reads the successor of an alarm before it runs the callback of the alarm, so a callback must not
  stop that one alarm; under this rule and two obvious ones the list of alarms stays well formed and every
  tick returns.
\<close>

section \<open>Callbacks that act on alarms\<close>

text \<open>
  A callback returns the calls it makes, in order, beside its result and the state it owns.  \<open>acting_call\<close>
  runs them on the clock.
\<close>

datatype 'cb alarm_action = StartAlarm addr u32 'cb addr | StopAlarm addr

fun alarm_act :: "'cb alarm_action \<Rightarrow> ('cb, 'w) clock \<Rightarrow> ('cb, 'w) clock" where
  "alarm_act (StartAlarm x n cb ctx) s = snd (alt_alarm_start x n cb ctx s)"
| "alarm_act (StopAlarm x) s = alt_alarm_stop x s"

type_synonym ('cb, 'w) actor = "'cb \<Rightarrow> addr \<Rightarrow> 'w \<Rightarrow> 'cb alarm_action list \<times> u32 \<times> 'w"

definition acting_call :: "('cb, 'w) actor \<Rightarrow> ('cb, 'w) runner" where
  "acting_call f cb ctx s =
     (let (acts, n, w) = f cb ctx (ck_world s) in (n, fold alarm_act acts (s\<lparr>ck_world := w\<rparr>)))"

section \<open>The rules\<close>

text \<open>
  An alarm is running when it is in the list.  It may be stopped when it is running or points to itself, as
  every alarm does that was taken out of the list.
\<close>

definition running :: "('cb, 'w) clock \<Rightarrow> addr \<Rightarrow> bool" where
  "running s x \<longleftrightarrow> (\<exists>xs. llist_at (ck_links s) (alt_alarm_list s) xs \<and> x \<in> set xs)"

definition stoppable :: "('cb, 'w) clock \<Rightarrow> addr \<Rightarrow> bool" where
  "stoppable s x \<longleftrightarrow> x \<noteq> alt_alarm_list s \<and> (running s x \<or> unlinked (ck_links s) x)"

fun allowed :: "addr \<Rightarrow> 'cb alarm_action \<Rightarrow> ('cb, 'w) clock \<Rightarrow> bool" where
  "allowed next (StartAlarm x n cb ctx) s \<longleftrightarrow> \<not> running s x \<and> x \<noteq> alt_alarm_list s"
| "allowed next (StopAlarm x) s \<longleftrightarrow> stoppable s x \<and> x \<noteq> next"

fun all_allowed :: "addr \<Rightarrow> 'cb alarm_action list \<Rightarrow> ('cb, 'w) clock \<Rightarrow> bool" where
  "all_allowed next [] s \<longleftrightarrow> True"
| "all_allowed next (a # as) s \<longleftrightarrow> allowed next a s \<and> all_allowed next as (alarm_act a s)"

text \<open>A callback that runs in the loop from \<open>x\<close> on does something that is not allowed.\<close>

inductive breaks_rules :: "('cb, 'w) actor \<Rightarrow> addr \<Rightarrow> ('cb, 'w) clock \<Rightarrow> bool" for f where
  now: "x \<noteq> alt_alarm_list s \<Longrightarrow> al_time s x \<le> nticks s \<Longrightarrow>
    f (al_callback s x) (al_context s x) (ck_world s) = (acts, n, w) \<Longrightarrow>
    \<not> all_allowed (ll_next (ck_links s) x) acts (s\<lparr>ck_world := w\<rparr>) \<Longrightarrow> breaks_rules f x s"
| later: "x \<noteq> alt_alarm_list s \<Longrightarrow>
    breaks_rules f (ll_next (ck_links s) x) (alt_tick_alarm (acting_call f) x s) \<Longrightarrow> breaks_rules f x s"

definition tick_breaks_rules :: "('cb, 'w) actor \<Rightarrow> ('cb, 'w) clock \<Rightarrow> bool" where
  "tick_breaks_rules f s = breaks_rules f (ll_next (ck_links s) (alt_alarm_list s)) (s\<lparr>nticks := nticks s + 1\<rparr>)"

section \<open>Operations keep the list\<close>

lemma running_iff: "llist_at (ck_links s) (alt_alarm_list s) xs \<Longrightarrow> running s x \<longleftrightarrow> x \<in> set xs"
  unfolding running_def using llist_at_unique by blast

text \<open>
  \<open>evolves s s'\<close>: the list is still a list, and what could be stopped still can.  \<open>cursor_at next m s\<close>: the
  list has at most \<open>m\<close> alarms from \<open>next\<close> on.
\<close>

definition evolves :: "('cb, 'w) clock \<Rightarrow> ('cb, 'w) clock \<Rightarrow> bool" where
  "evolves s s' \<longleftrightarrow> alt_alarm_list s' = alt_alarm_list s \<and>
     (\<exists>xs. llist_at (ck_links s') (alt_alarm_list s') xs) \<and> (\<forall>x. stoppable s x \<longrightarrow> stoppable s' x)"

definition cursor_at :: "addr \<Rightarrow> nat \<Rightarrow> ('cb, 'w) clock \<Rightarrow> bool" where
  "cursor_at next m s \<longleftrightarrow> (\<exists>p q. llist_at (ck_links s) (alt_alarm_list s) (p @ q) \<and>
     hd (q @ [alt_alarm_list s]) = next \<and> length q \<le> m)"

lemma evolves_refl: "llist_at (ck_links s) (alt_alarm_list s) xs \<Longrightarrow> evolves s s"
  by (auto simp: evolves_def)

lemma evolves_trans: "evolves s t \<Longrightarrow> evolves t u \<Longrightarrow> evolves s u"
  by (auto simp: evolves_def)

lemma evolves_same:
  assumes "llist_at (ck_links s) (alt_alarm_list s) xs" "ck_links s' = ck_links s" "alt_alarm_list s' = alt_alarm_list s"
  shows "evolves s s'"
  using assms by (auto simp: evolves_def stoppable_def running_def)

lemma start_keeps:
  assumes "llist_at (ck_links s) (alt_alarm_list s) xs" "x \<notin> set xs" "x \<noteq> alt_alarm_list s"
    and "alt_alarm_start x n cb ctx s = (r, s')"
  shows "evolves s s' \<and> llist_at (ck_links s') (alt_alarm_list s') (if r = 0 then x # xs else xs)"
proof (cases "r = 0")
  case False
  with assms(1,4) evolves_refl [OF assms(1)] show ?thesis
    by (auto simp: alt_alarm_start_def Let_def split: if_splits)
next
  case True
  with assms(4) have l: "ck_links s' = alt_llist_insert (alt_alarm_list s) x (ck_links s)"
    "alt_alarm_list s' = alt_alarm_list s"
    by (auto simp: alt_alarm_start_def Let_def split: if_splits)
  have at: "llist_at (ck_links s') (alt_alarm_list s') (x # xs)"
    using hal_list.rep_ins [OF assms(1,3,2)] l by simp
  have "stoppable s' y" if "stoppable s y" for y
  proof (cases "y \<in> set (x # xs)")
    case False
    with that have "unlinked (ck_links s) y" "y \<noteq> alt_alarm_list s"
      by (auto simp: stoppable_def running_iff [OF assms(1)])
    with False hal_list.free_ins [OF assms(1), of y x] l show ?thesis by (auto simp: stoppable_def)
  qed (use that in \<open>auto simp: stoppable_def running_iff [OF at] l\<close>)
  with at l(2) True show ?thesis by (auto simp: evolves_def)
qed

lemma stop_keeps:
  assumes "llist_at (ck_links s) (alt_alarm_list s) xs" "stoppable s x"
  shows "evolves s (alt_alarm_stop x s) \<and>
         llist_at (ck_links (alt_alarm_stop x s)) (alt_alarm_list (alt_alarm_stop x s)) (remove1 x xs)"
proof (cases "x \<in> set xs")
  case False
  with assms have "unlinked (ck_links s) x" by (auto simp: stoppable_def running_iff [OF assms(1)])
  then have "alt_alarm_stop x s = s" using hal_list.rem_free [of "ck_links s" x] by (simp add: alt_alarm_stop_def)
  with evolves_refl [OF assms(1)] assms(1) False show ?thesis by (simp add: remove1_idem)
next
  case True
  let ?s = "alt_alarm_stop x s"
  have at: "llist_at (ck_links ?s) (alt_alarm_list ?s) (remove1 x xs)"
    using hal_list.rep_rem_member [OF assms(1) True] by (simp add: alt_alarm_stop_def)
  have "stoppable ?s y" if "stoppable s y" for y
  proof (cases "y \<in> set xs \<and> y \<noteq> x")
    case True
    then have "running ?s y" using running_iff [OF at] by simp
    with that show ?thesis by (simp add: stoppable_def alt_alarm_stop_def)
  next
    case False
    with that True hal_list.free_rem [of x "ck_links s"] hal_list.free_rem_other [OF assms(1) True, of y]
    show ?thesis by (cases "y = x") (auto simp: stoppable_def running_iff [OF assms(1)] alt_alarm_stop_def)
  qed
  with at show ?thesis by (auto simp: evolves_def alt_alarm_stop_def)
qed

lemma act_keeps:
  assumes "allowed next a s" "cursor_at next m s"
  shows "evolves s (alarm_act a s) \<and> cursor_at next m (alarm_act a s)"
proof -
  from assms(2) obtain p q where l: "llist_at (ck_links s) (alt_alarm_list s) (p @ q)"
    and q: "hd (q @ [alt_alarm_list s]) = next" "length q \<le> m" by (auto simp: cursor_at_def)
  show ?thesis
  proof (cases a)
    case (StartAlarm x n cb ctx)
    obtain r s' where r: "alt_alarm_start x n cb ctx s = (r, s')" by fastforce
    with assms(1) StartAlarm have "x \<notin> set (p @ q)" "x \<noteq> alt_alarm_list s" by (auto simp: running_iff [OF l])
    from start_keeps [OF l this r] have k: "evolves s s'"
      "llist_at (ck_links s') (alt_alarm_list s') ((if r = 0 then x # p else p) @ q)" by (auto split: if_splits)
    moreover have "alt_alarm_list s' = alt_alarm_list s" using k(1) by (simp add: evolves_def)
    ultimately have "cursor_at next m s'" using q unfolding cursor_at_def by metis
    with k(1) r StartAlarm show ?thesis by simp
  next
    case (StopAlarm x)
    with assms(1) have x: "stoppable s x" "x \<noteq> next" by auto
    let ?q = "if x \<in> set p then q else remove1 x q"
    have "remove1 x (p @ q) = (if x \<in> set p then remove1 x p else p) @ ?q" by (simp add: remove1_append)
    moreover have "hd (?q @ [alt_alarm_list s]) = next" using q(1) x(2) by (cases q) auto
    moreover have "length ?q \<le> m" using q(2) by (simp add: length_remove1 le_diff_conv)
    moreover have "alt_alarm_list (alt_alarm_stop x s) = alt_alarm_list s" by (simp add: alt_alarm_stop_def)
    ultimately have "cursor_at next m (alt_alarm_stop x s)"
      using stop_keeps [OF l x(1)] unfolding cursor_at_def by metis
    with stop_keeps [OF l x(1)] StopAlarm show ?thesis by simp
  qed
qed

lemma acts_keep:
  "all_allowed next acts s \<Longrightarrow> cursor_at next m s \<Longrightarrow>
   evolves s (fold alarm_act acts s) \<and> cursor_at next m (fold alarm_act acts s)"
proof (induction acts arbitrary: s)
  case Nil
  then show ?case by (auto simp: cursor_at_def intro: evolves_refl)
next
  case (Cons a acts)
  with act_keeps [of "next" a s m] evolves_trans show ?case by fastforce
qed

section \<open>The tick returns\<close>

lemma act_frame:
  "alt_alarm_list (alarm_act a s) = alt_alarm_list s"
  by (cases a) (auto simp: alt_alarm_start_def alt_alarm_stop_def Let_def)

text \<open>One alarm of the loop: what was behind it is still behind it, and no more than that.\<close>

lemma visit_keeps:
  assumes "llist_at (ck_links s) (alt_alarm_list s) (pre @ x # xs)" "next = hd (xs @ [alt_alarm_list s])"
    and "al_time s x \<le> nticks s \<Longrightarrow> f (al_callback s x) (al_context s x) (ck_world s) = (acts, n, w) \<Longrightarrow>
         all_allowed next acts (s\<lparr>ck_world := w\<rparr>)"
    and "f (al_callback s x) (al_context s x) (ck_world s) = (acts, n, w)"
  shows "evolves s (alt_tick_alarm (acting_call f) x s) \<and>
         cursor_at next (length xs) (alt_tick_alarm (acting_call f) x s)"
proof (cases "al_time s x \<le> nticks s")
  case False
  moreover have "cursor_at next (length xs) s"
    using assms(1,2) unfolding cursor_at_def by (intro exI [of _ "pre @ [x]"] exI [of _ xs]) simp
  ultimately show ?thesis using evolves_refl [OF assms(1)] by (simp add: alt_tick_alarm_def)
next
  case True
  let ?s1 = "s\<lparr>ck_world := w\<rparr>" and ?s2 = "fold alarm_act acts (s\<lparr>ck_world := w\<rparr>)"
  have e1: "evolves s ?s1" by (rule evolves_same [OF assms(1)]) simp_all
  have c1: "cursor_at next (length xs) ?s1"
    using assms(1,2) unfolding cursor_at_def by (intro exI [of _ "pre @ [x]"] exI [of _ xs]) simp
  from acts_keep [OF assms(3) [OF True assms(4)] c1]
  have e2: "evolves s ?s2" and c2: "cursor_at next (length xs) ?s2" using evolves_trans [OF e1] by auto
  have x: "stoppable s x" "x \<noteq> next"
    using assms(1,2) running_iff [OF assms(1), of x] hal_list.rep_distinct [OF assms(1)]
    by (auto simp: stoppable_def) (cases xs; auto)+
  then have "allowed next (StopAlarm x) ?s2" using e2 by (simp add: evolves_def)
  from act_keeps [OF this c2] e2 have "evolves s (alt_alarm_stop x ?s2)" "cursor_at next (length xs) (alt_alarm_stop x ?s2)"
    using evolves_trans by auto
  moreover have "evolves s (?s2\<lparr>al_time := t\<rparr>)" "cursor_at next (length xs) (?s2\<lparr>al_time := t\<rparr>)" for t
    using e2 c2 evolves_trans [OF e2] evolves_same [of ?s2 _ "?s2\<lparr>al_time := t\<rparr>"]
    by (auto simp: cursor_at_def)
  ultimately show ?thesis using True assms(4) by (simp add: alt_tick_alarm_def acting_call_def)
qed

lemma tick_loop_returns:
  "llist_at (ck_links s) (alt_alarm_list s) (pre @ xs) \<Longrightarrow> \<not> breaks_rules f (hd (xs @ [alt_alarm_list s])) s \<Longrightarrow>
   \<exists>s'. alt_tick_loop (acting_call f) (hd (xs @ [alt_alarm_list s])) s = Some s' \<and> evolves s s'"
proof (induction "length xs" arbitrary: s pre xs rule: less_induct)
  case (less xs s pre)
  show ?case
  proof (cases xs)
    case Nil
    with less.prems(1) show ?thesis by (subst alt_tick_loop.simps) (auto intro: evolves_refl)
  next
    case (Cons x ys)
    let ?s1 = "alt_tick_alarm (acting_call f) x s" and ?next = "hd (ys @ [alt_alarm_list s])"
    have x: "x \<noteq> alt_alarm_list s" and d: "dll (ck_links s) x ys (alt_alarm_list s)"
      using less.prems(1) Cons by (auto simp: llist_at_def dll_split)
    note nx = dll_next_first [OF d]
    obtain acts n w where f: "f (al_callback s x) (al_context s x) (ck_world s) = (acts, n, w)" by (rule prod_cases3)
    have br: "\<not> breaks_rules f x s" using less.prems(2) Cons by simp
    have "all_allowed ?next acts (s\<lparr>ck_world := w\<rparr>)" if "al_time s x \<le> nticks s"
      using breaks_rules.now [where f = f, OF x that f] br nx by auto
    with visit_keeps [of s pre x ys ?next f acts n w] less.prems(1) Cons f
    have k: "evolves s ?s1" "cursor_at ?next (length ys) ?s1" by auto
    then obtain p q where q: "llist_at (ck_links ?s1) (alt_alarm_list ?s1) (p @ q)"
      "hd (q @ [alt_alarm_list ?s1]) = ?next" "length q \<le> length ys" by (auto simp: cursor_at_def)
    have "\<not> breaks_rules f (hd (q @ [alt_alarm_list ?s1])) ?s1" using breaks_rules.later [OF x] br nx q(2) by metis
    from less.hyps [OF _ q(1) this] q(3) Cons obtain s' where
      "alt_tick_loop (acting_call f) ?next ?s1 = Some s'" "evolves ?s1 s'" by (auto simp: q(2))
    with x nx Cons k(1) show ?thesis
      by (subst alt_tick_loop.simps) (auto intro: evolves_trans)
  qed
qed

lemma tick_returns:
  assumes "llist_at (ck_links s) (alt_alarm_list s) xs" "\<not> tick_breaks_rules f s"
  shows "\<exists>s'. alt_tick (acting_call f) s = Some s' \<and> evolves s s'"
proof -
  let ?s = "s\<lparr>nticks := nticks s + 1\<rparr>"
  have h: "ll_next (ck_links s) (alt_alarm_list s) = hd (xs @ [alt_alarm_list s])"
    using assms(1) by (cases xs) (auto simp: llist_at_def)
  from tick_loop_returns [of ?s "[]" xs f] assms obtain s' where
    "alt_tick_loop (acting_call f) (hd (xs @ [alt_alarm_list s])) ?s = Some s'" "evolves ?s s'"
    by (auto simp: tick_breaks_rules_def h)
  moreover have "evolves s ?s" by (rule evolves_same [OF assms(1)]) simp_all
  ultimately show ?thesis using evolves_trans by (auto simp: alt_tick_def Let_def h)
qed

section \<open>Programs that use the clock\<close>

text \<open>
  What a program and the timer do to the clock.  An alarm that is running must not be started again, and the
  head of the list is not an alarm; in particular an alarm may be stopped that has been stopped before or
  was taken out of the list by a tick.
\<close>

inductive clock_step :: "('cb, 'w) actor \<Rightarrow> ('cb, 'w) clock \<Rightarrow> ('cb, 'w) clock \<Rightarrow> bool" for f where
  start: "\<not> running s x \<Longrightarrow> x \<noteq> alt_alarm_list s \<Longrightarrow> alt_alarm_start x n cb ctx s = (r, s') \<Longrightarrow> clock_step f s s'"
| stop: "stoppable s x \<Longrightarrow> clock_step f s (alt_alarm_stop x s)"
| tick: "\<not> tick_breaks_rules f s \<Longrightarrow> alt_tick (acting_call f) s = Some s' \<Longrightarrow> clock_step f s s'"
| set_rate: "alt_sysclk_init n s = (r, s') \<Longrightarrow> clock_step f s s'"
| set_time: "ALT_SETTIMEOFDAY t tz s = Inr (r, s') \<Longrightarrow> clock_step f s s'"
| times: "ALT_TIMES buf s = (r, buf', s') \<Longrightarrow> clock_step f s s'"

lemma clock_step_evolves:
  assumes "clock_step f s s'" "llist_at (ck_links s) (alt_alarm_list s) xs"
  shows "evolves s s'"
  using assms(1)
proof (cases rule: clock_step.cases)
  case start
  with start_keeps [OF assms(2)] show ?thesis by (simp add: running_iff [OF assms(2)])
next
  case stop
  with stop_keeps [OF assms(2)] show ?thesis by simp
next
  case tick
  with tick_returns [OF assms(2)] show ?thesis by fastforce
next
  case set_rate
  with evolves_same [OF assms(2), of s'] show ?thesis by (auto simp: alt_sysclk_init_def split: if_splits)
next
  case set_time
  with evolves_same [OF assms(2), of s'] show ?thesis
    by (auto simp: ALT_SETTIMEOFDAY_def Let_def split: if_splits option.splits)
next
  case times
  with evolves_same [OF assms(2), of s'] show ?thesis by (auto simp: ALT_TIMES_def Let_def split: if_splits)
qed

lemma clock_steps_evolve:
  "(clock_step f)\<^sup>*\<^sup>* s s' \<Longrightarrow> llist_at (ck_links s) (alt_alarm_list s) xs \<Longrightarrow> evolves s s'"
proof (induction rule: rtranclp_induct)
  case base
  then show ?case by (rule evolves_refl)
next
  case (step t u)
  then have e: "evolves s t" by simp
  then obtain ys where "llist_at (ck_links t) (alt_alarm_list t) ys" by (auto simp: evolves_def)
  from evolves_trans [OF e clock_step_evolves [OF step.hyps(2) this]] show ?case .
qed

section \<open>Properties\<close>

text \<open>C10: Whatever a program and the callbacks do with the clock under the rules, the list of alarms stays a
  circular list without repetition; an alarm that could be stopped once can be stopped at any later time, which
  takes out exactly this alarm; and the next tick returns unless a callback in it breaks the rules.\<close>

theorem alarm_list_well_formed:
  assumes "llist_at (ck_links s0) (alt_alarm_list s0) xs0" and "(clock_step f)\<^sup>*\<^sup>* s0 s"
  shows "\<exists>xs. llist_at (ck_links s) (alt_alarm_list s) xs \<and> distinct xs \<and>
           (\<forall>x. stoppable s0 x \<longrightarrow> stoppable s x \<and>
                llist_at (ck_links (alt_alarm_stop x s)) (alt_alarm_list s) (remove1 x xs)) \<and>
           (tick_breaks_rules f s \<or> alt_tick (acting_call f) s \<noteq> None)"
proof -
  from clock_steps_evolve [OF assms(2,1)] obtain xs where xs: "llist_at (ck_links s) (alt_alarm_list s) xs"
    and st: "\<And>x. stoppable s0 x \<Longrightarrow> stoppable s x" by (auto simp: evolves_def)
  have "llist_at (ck_links (alt_alarm_stop x s)) (alt_alarm_list s) (remove1 x xs)" if "stoppable s0 x" for x
    using stop_keeps [OF xs st [OF that]] by (simp add: alt_alarm_stop_def)
  moreover have "tick_breaks_rules f s \<or> alt_tick (acting_call f) s \<noteq> None" using tick_returns [OF xs, of f] by blast
  moreover have "distinct xs" using hal_list.rep_distinct [OF xs] by simp
  ultimately show ?thesis using xs st by blast
qed

text \<open>An alarm whose callback starts another one, and which is stopped after the tick took it out.\<close>

definition clock1 :: "(nat, addr list) clock" where
  "clock1 = snd (alt_alarm_start 8 0 0 8 clock0)"

definition starter :: "(nat, addr list) actor" where
  "starter cb ctx w = (if ctx = 8 then [StartAlarm 24 5 0 24] else [], 0, w @ [ctx])"

lemma clock1_list: "llist_at (ck_links clock1) (alt_alarm_list clock1) [8]"
  by (simp add: clock1_def clock0_def alt_alarm_start_def alt_ticks_per_second_def llist_at_def
      ALT_LLIST_HEAD_def alt_llist_insert_def Let_def)

lemma clock1_fields [simp]:
  "alt_alarm_list clock1 = 1" "nticks clock1 = 0" "ck_world clock1 = []" "al_time clock1 8 = 1" "al_context clock1 8 = 8"
  by (simp_all add: clock1_def clock0_def alt_alarm_start_def alt_ticks_per_second_def alt_nticks_def Let_def)

lemma clock1_next: "ll_next (ck_links clock1) 1 = 8" "ll_next (ck_links clock1) 8 = 1"
  using clock1_list by (simp_all add: llist_at_def)

lemma clock1_rules: "\<not> tick_breaks_rules starter clock1"
proof -
  let ?s = "clock1\<lparr>nticks := 1\<rparr>"
  have r: "running (?s\<lparr>ck_world := w\<rparr>) x \<longleftrightarrow> x = 8" for x w
    using running_iff [of "?s\<lparr>ck_world := w\<rparr>" "[8]"] clock1_list by simp
  have head: "alt_alarm_list (alt_tick_alarm (acting_call starter) 8 ?s) = 1"
    by (simp add: alt_tick_alarm_def acting_call_def starter_def alt_alarm_stop_def Let_def alt_alarm_start_def)
  have "\<not> breaks_rules starter 1 (alt_tick_alarm (acting_call starter) 8 ?s)"
    by (subst breaks_rules.simps) (simp add: head)
  then have "\<not> breaks_rules starter 8 ?s"
    by (subst breaks_rules.simps) (simp add: clock1_next starter_def r)
  then show ?thesis using clock1_next(1) by (simp add: tick_breaks_rules_def)
qed

theorem alarm_list_well_formed_witness:
  "\<exists>s xs. alt_tick (acting_call starter) clock1 = Some s \<and> llist_at (ck_links (alt_alarm_stop 8 s)) (alt_alarm_list s) xs"
proof -
  obtain s where t: "alt_tick (acting_call starter) clock1 = Some s" using tick_returns [OF clock1_list clock1_rules] by blast
  have "(clock_step starter)\<^sup>*\<^sup>* clock1 s" using clock_step.tick [OF clock1_rules t] by blast
  moreover have "stoppable clock1 8" by (simp add: stoppable_def running_iff [OF clock1_list])
  ultimately show ?thesis using alarm_list_well_formed [OF clock1_list] t by blast
qed

text \<open>
  A callback that stops the alarm behind its own: the handler goes on with that alarm, which points to itself,
  and never comes back to the head of the list.
\<close>

lemma tick_loop_self:
  assumes "alt_tick_loop call y s = Some r" "ll_next (ck_links s) y = y" "y \<noteq> alt_alarm_list s"
    "\<not> al_time s y \<le> nticks s"
  shows False
  using assms
proof (induction rule: alt_tick_loop.raw_induct [rotated, consumes 1, case_names step])
  case (step loop call alarm s r)
  then show ?case by (auto simp: alt_tick_alarm_def)
qed

definition stopper :: "(nat, addr list) actor" where
  "stopper cb ctx w = (if ctx = 8 then [StopAlarm 16] else [], 0, w @ [ctx])"

lemma tick_stop_next_spins: "alt_tick (acting_call stopper) clock2 = None"
proof (cases "alt_tick (acting_call stopper) clock2")
  case (Some r)
  let ?s = "alt_tick_alarm (acting_call stopper) 8 (clock2\<lparr>nticks := 1\<rparr>)"
  have n: "ll_next (ck_links clock2) 1 = 8" "ll_next (ck_links clock2) 8 = 16" "ll_next (ck_links clock2) 16 = 1"
    "ll_prev (ck_links clock2) 16 = 8" "ll_prev (ck_links clock2) 8 = 1" "ll_prev (ck_links clock2) 1 = 16"
    using clock2_list by (auto simp: llist_at_def)
  have s: "ll_next (ck_links ?s) 16 = 16" "alt_alarm_list ?s = 1" "al_time ?s 16 = 4" "nticks ?s = 1"
    by (simp_all add: alt_tick_alarm_def acting_call_def stopper_def alt_alarm_stop_def llist_op_links n Let_def)
  have "alt_tick_loop (acting_call stopper) 16 ?s = Some r"
    using Some n by (simp add: alt_tick_def) (subst (asm) alt_tick_loop.simps, simp)
  from tick_loop_self [OF this s(1)] show ?thesis by (simp add: s word_le_nat_alt)
qed

end
