(* ===== verification/Irq.thy ===== *)
theory Irq
  imports HalPrelude
begin

text \<open>
  Interrupts of a Nios V processor: the control and status registers (\<^verbatim>\<open>intel_niosv.h\<close>), the global
  and the individual interrupt enables (\<^verbatim>\<open>sys/alt_irq.h\<close>, \<^verbatim>\<open>sys/msw_interrupt.h\<close>,
  \<^verbatim>\<open>intel_niosv_irq.c\<close>), registration (\<^verbatim>\<open>alt_iic.c\<close>) and the service routines of the vectored mode
  (\<^verbatim>\<open>alt_vic_isr_wrapper.c\<close>).  The properties are about critical sections and about the set of
  interrupts that are enabled.
\<close>

section \<open>Control and status registers\<close>

text \<open>
  The registers are a map from numbers to words.  The processor need not implement every bit of a
  register: \<open>wr\<close> gives the bits that can be written.
\<close>

type_synonym csrs = "u32 \<Rightarrow> u32"

abbreviation (input) NIOSV_MSTATUS_CSR :: u32 where "NIOSV_MSTATUS_CSR \<equiv> 0x300"
abbreviation (input) NIOSV_MIE_CSR :: u32 where "NIOSV_MIE_CSR \<equiv> 0x304"
abbreviation (input) NIOSV_MTVEC_CSR :: u32 where "NIOSV_MTVEC_CSR \<equiv> 0x305"
abbreviation (input) NIOSV_MEPC_CSR :: u32 where "NIOSV_MEPC_CSR \<equiv> 0x341"
abbreviation (input) NIOSV_MCAUSE_CSR :: u32 where "NIOSV_MCAUSE_CSR \<equiv> 0x342"
abbreviation (input) NIOSV_MIP_CSR :: u32 where "NIOSV_MIP_CSR \<equiv> 0x344"
abbreviation (input) NIOSV_ECC_INJECT_CSR :: u32 where "NIOSV_ECC_INJECT_CSR \<equiv> 0x7C0"
abbreviation (input) NIOSV_MHARTID_CSR :: u32 where "NIOSV_MHARTID_CSR \<equiv> 0xF14"
abbreviation (input) NIOSV_MSTATUS_MIE_MASK :: u32 where "NIOSV_MSTATUS_MIE_MASK \<equiv> 0x8"
abbreviation (input) NIOSV_MIE_MASK :: u32 where "NIOSV_MIE_MASK \<equiv> 0xFFFFFFFF"
abbreviation (input) NIOSV_NIRQ :: u32 where "NIOSV_NIRQ \<equiv> 16"
abbreviation (input) NIOSV_SOFTWARE_IRQ :: nat where "NIOSV_SOFTWARE_IRQ \<equiv> 3"
abbreviation (input) NIOSV_TIMER_IRQ :: nat where "NIOSV_TIMER_IRQ \<equiv> 7"

definition NIOSV_READ_CSR :: "u32 \<Rightarrow> csrs \<Rightarrow> u32" where
  "NIOSV_READ_CSR reg c = c reg"

definition NIOSV_WRITE_CSR :: "csrs \<Rightarrow> u32 \<Rightarrow> u32 \<Rightarrow> csrs \<Rightarrow> csrs" where
  "NIOSV_WRITE_CSR wr reg v c = c(reg := (c reg AND NOT (wr reg)) OR (v AND wr reg))"

definition NIOSV_SET_CSR :: "csrs \<Rightarrow> u32 \<Rightarrow> u32 \<Rightarrow> csrs \<Rightarrow> csrs" where
  "NIOSV_SET_CSR wr reg bitmask c = c(reg := c reg OR (bitmask AND wr reg))"

definition NIOSV_CLR_CSR :: "csrs \<Rightarrow> u32 \<Rightarrow> u32 \<Rightarrow> csrs \<Rightarrow> csrs" where
  "NIOSV_CLR_CSR wr reg bitmask c = c(reg := c reg AND NOT (bitmask AND wr reg))"

definition NIOSV_SWAP_CSR :: "csrs \<Rightarrow> u32 \<Rightarrow> u32 \<Rightarrow> csrs \<Rightarrow> u32 \<times> csrs" where
  "NIOSV_SWAP_CSR wr reg v c = (c reg, NIOSV_WRITE_CSR wr reg v c)"

definition NIOSV_READ_AND_SET_CSR :: "csrs \<Rightarrow> u32 \<Rightarrow> u32 \<Rightarrow> csrs \<Rightarrow> u32 \<times> csrs" where
  "NIOSV_READ_AND_SET_CSR wr reg bitmask c = (c reg, NIOSV_SET_CSR wr reg bitmask c)"

definition NIOSV_READ_AND_CLR_CSR :: "csrs \<Rightarrow> u32 \<Rightarrow> u32 \<Rightarrow> csrs \<Rightarrow> u32 \<times> csrs" where
  "NIOSV_READ_AND_CLR_CSR wr reg bitmask c = (c reg, NIOSV_CLR_CSR wr reg bitmask c)"

lemmas csr_defs = NIOSV_READ_CSR_def NIOSV_WRITE_CSR_def NIOSV_SET_CSR_def NIOSV_CLR_CSR_def
  NIOSV_SWAP_CSR_def NIOSV_READ_AND_SET_CSR_def NIOSV_READ_AND_CLR_CSR_def

section \<open>The global enable\<close>

text \<open>
  Every routine is compiled for a core with interrupts or for one without them; \<open>irqs\<close> is
  \<^verbatim>\<open>ALT_HAS_IRQ_SUPPORT\<close>, which is 0 for the core of this system.
\<close>

definition alt_irq_enabled :: "bool \<Rightarrow> csrs \<Rightarrow> u32" where
  "alt_irq_enabled irqs c =
     (if irqs then NIOSV_READ_CSR NIOSV_MSTATUS_CSR c AND NIOSV_MSTATUS_MIE_MASK else 0)"

definition alt_irq_disable_all :: "csrs \<Rightarrow> bool \<Rightarrow> csrs \<Rightarrow> u32 \<times> csrs" where
  "alt_irq_disable_all wr irqs c =
     (if irqs then NIOSV_READ_AND_CLR_CSR wr NIOSV_MSTATUS_CSR NIOSV_MSTATUS_MIE_MASK c else (0, c))"

definition alt_irq_enable_all :: "csrs \<Rightarrow> bool \<Rightarrow> u32 \<Rightarrow> csrs \<Rightarrow> csrs" where
  "alt_irq_enable_all wr irqs ctx c =
     (if irqs then NIOSV_SET_CSR wr NIOSV_MSTATUS_CSR (ctx AND NIOSV_MSTATUS_MIE_MASK) c else c)"

definition alt_irq_cpu_enable_interrupts :: "csrs \<Rightarrow> bool \<Rightarrow> csrs \<Rightarrow> csrs" where
  "alt_irq_cpu_enable_interrupts wr irqs c =
     (if irqs then NIOSV_SET_CSR wr NIOSV_MSTATUS_CSR NIOSV_MSTATUS_MIE_MASK c else c)"

section \<open>Individual interrupts\<close>

definition ALT_REMAP_IRQ_NUM :: "u32 \<Rightarrow> int" where
  "ALT_REMAP_IRQ_NUM irq = (if NIOSV_NIRQ - 1 < irq then -1 else uint (irq + 16))"

definition alt_ic_irq_enable :: "csrs \<Rightarrow> bool \<Rightarrow> u32 \<Rightarrow> u32 \<Rightarrow> csrs \<Rightarrow> int \<times> csrs" where
  "alt_ic_irq_enable wr irqs ic_id irq c =
     (if irqs then
        let rc = ALT_REMAP_IRQ_NUM irq
        in if rc < 0 then (rc, c) else (0, NIOSV_SET_CSR wr NIOSV_MIE_CSR (push_bit (nat rc) 1) c)
      else (0, c))"

definition alt_ic_irq_disable :: "csrs \<Rightarrow> bool \<Rightarrow> u32 \<Rightarrow> u32 \<Rightarrow> csrs \<Rightarrow> int \<times> csrs" where
  "alt_ic_irq_disable wr irqs ic_id irq c =
     (if irqs then
        let rc = ALT_REMAP_IRQ_NUM irq
        in if rc < 0 then (rc, c) else (0, NIOSV_CLR_CSR wr NIOSV_MIE_CSR (push_bit (nat rc) 1) c)
      else (0, c))"

definition alt_ic_irq_enabled :: "bool \<Rightarrow> u32 \<Rightarrow> u32 \<Rightarrow> csrs \<Rightarrow> u32" where
  "alt_ic_irq_enabled irqs ic_id irq c =
     (if irqs then
        let rc = ALT_REMAP_IRQ_NUM irq
        in if rc < 0 then 0 else NIOSV_READ_CSR NIOSV_MIE_CSR c AND push_bit (nat rc) 1
      else 0)"

definition alt_irq_pending :: "bool \<Rightarrow> csrs \<Rightarrow> u32" where
  "alt_irq_pending irqs c =
     (if irqs then drop_bit 16 (NIOSV_READ_CSR NIOSV_MIP_CSR c AND NIOSV_READ_CSR NIOSV_MIE_CSR c) else 0)"

text \<open>At start-up all interrupts are disabled; in the vectored mode the table of vectors is set.\<close>

definition intel_niosv_irq_init :: "csrs \<Rightarrow> bool \<Rightarrow> u32 option \<Rightarrow> csrs \<Rightarrow> csrs" where
  "intel_niosv_irq_init wr irqs vector_table c =
     (if irqs then
        let c1 = NIOSV_CLR_CSR wr NIOSV_MIE_CSR NIOSV_MIE_MASK c
        in case vector_table of
             None \<Rightarrow> c1
           | Some t \<Rightarrow> NIOSV_WRITE_CSR wr NIOSV_MTVEC_CSR (t OR 1) c1
      else c)"

text \<open>The enables of the timer and of the software interrupt are the low bits of the same register.\<close>

definition alt_niosv_enable_timer_interrupt :: "csrs \<Rightarrow> csrs \<Rightarrow> csrs" where
  "alt_niosv_enable_timer_interrupt wr c = NIOSV_SET_CSR wr NIOSV_MIE_CSR (push_bit NIOSV_TIMER_IRQ 1) c"

definition alt_niosv_disable_timer_interrupt :: "csrs \<Rightarrow> csrs \<Rightarrow> csrs" where
  "alt_niosv_disable_timer_interrupt wr c = NIOSV_CLR_CSR wr NIOSV_MIE_CSR (push_bit NIOSV_TIMER_IRQ 1) c"

definition alt_niosv_is_timer_interrupt_enabled :: "csrs \<Rightarrow> u32" where
  "alt_niosv_is_timer_interrupt_enabled c = NIOSV_READ_CSR NIOSV_MIE_CSR c AND push_bit NIOSV_TIMER_IRQ 1"

definition alt_niosv_enable_msw_interrupt :: "csrs \<Rightarrow> csrs \<Rightarrow> csrs" where
  "alt_niosv_enable_msw_interrupt wr c = NIOSV_SET_CSR wr NIOSV_MIE_CSR (push_bit NIOSV_SOFTWARE_IRQ 1) c"

definition alt_niosv_disable_msw_interrupt :: "csrs \<Rightarrow> csrs \<Rightarrow> csrs" where
  "alt_niosv_disable_msw_interrupt wr c = NIOSV_CLR_CSR wr NIOSV_MIE_CSR (push_bit NIOSV_SOFTWARE_IRQ 1) c"

definition alt_niosv_is_msw_interrupt_enabled :: "csrs \<Rightarrow> u32" where
  "alt_niosv_is_msw_interrupt_enabled c = NIOSV_READ_CSR NIOSV_MIE_CSR c AND push_bit NIOSV_SOFTWARE_IRQ 1"

definition alt_niosv_read_mhartid :: "csrs \<Rightarrow> u32" where
  "alt_niosv_read_mhartid c = NIOSV_READ_CSR NIOSV_MHARTID_CSR c"

definition alt_ecc_error_inject :: "csrs \<Rightarrow> u32 \<Rightarrow> csrs \<Rightarrow> csrs" where
  "alt_ecc_error_inject wr error_type c = NIOSV_WRITE_CSR wr NIOSV_ECC_INJECT_CSR error_type c"

text \<open>
  The timer's registers are memory mapped: the addresses, with a pointer to words advanced by words, and
  the writes that trigger and clear the software interrupt, as address and value.
\<close>

definition alt_niosv_get_mtimecmp_addr :: "u32 \<Rightarrow> csrs \<Rightarrow> u32" where
  "alt_niosv_get_mtimecmp_addr mtime_offset c = mtime_offset + 0x8 + 8 * alt_niosv_read_mhartid c"

definition alt_niosv_get_msip_addr :: "u32 \<Rightarrow> csrs \<Rightarrow> u32" where
  "alt_niosv_get_msip_addr mtime_offset c =
     alt_niosv_get_mtimecmp_addr mtime_offset c + 4 * 2 + 4 * alt_niosv_read_mhartid c"

definition alt_niosv_trigger_msw_interrupt :: "u32 \<Rightarrow> csrs \<Rightarrow> (u32 \<Rightarrow> u32) \<Rightarrow> (u32 \<Rightarrow> u32)" where
  "alt_niosv_trigger_msw_interrupt mtime_offset c mem = mem(alt_niosv_get_msip_addr mtime_offset c := 0x1)"

definition alt_niosv_clear_msw_interrupt :: "u32 \<Rightarrow> csrs \<Rightarrow> (u32 \<Rightarrow> u32) \<Rightarrow> (u32 \<Rightarrow> u32)" where
  "alt_niosv_clear_msw_interrupt mtime_offset c mem = mem(alt_niosv_get_msip_addr mtime_offset c := 0x0)"

text \<open>The time stamp counts from its start; \<open>mtime\<close> is the value of the timer, read elsewhere.\<close>

definition alt_niosv_timer_timestamp_start :: "u64 \<Rightarrow> int \<times> u64" where
  "alt_niosv_timer_timestamp_start mtime = (0, mtime)"

definition alt_niosv_timer_timestamp :: "u64 \<Rightarrow> u64 \<Rightarrow> u64" where
  "alt_niosv_timer_timestamp timestamp_offset mtime = mtime - timestamp_offset"

section \<open>Registration\<close>

text \<open>
  This core has no interrupts, so registering a handler always fails; a warning stub is a remark of the
  linker.
\<close>

definition alt_iic_isr_register :: "u32 \<Rightarrow> u32 \<Rightarrow> 'h option \<Rightarrow> 'c \<Rightarrow> int" where
  "alt_iic_isr_register ic_id irq isr isr_context = - ENOSYS"

definition alt_ic_isr_register :: "u32 \<Rightarrow> u32 \<Rightarrow> 'h option \<Rightarrow> 'c \<Rightarrow> int" where
  "alt_ic_isr_register ic_id irq isr isr_context = alt_iic_isr_register ic_id irq isr isr_context"

section \<open>Service routines of the vectored mode\<close>

text \<open>
  The handlers are functions on a state \<open>'s\<close> that contains the registers (\<open>get\<close> and \<open>put\<close>).  With a
  debug stub a break hands over to the debugger, which continues with some state; without one the
  program spins.
\<close>

datatype alt_exception_result = NIOSV_EXCEPTION_RETURN_REISSUE_INST | NIOSV_EXCEPTION_RETURN_SKIP_INST

type_synonym 's exception_handler = "u32 \<Rightarrow> u32 \<Rightarrow> u32 \<Rightarrow> 's \<Rightarrow> stuck + (alt_exception_result \<times> 's)"

definition alt_instruction_exception_register ::
    "'s exception_handler option \<Rightarrow> 's exception_handler option \<Rightarrow> 's exception_handler option" where
  "alt_instruction_exception_register exception_handler registered = exception_handler"

fun ALT_VIC_BREAK :: "('s \<Rightarrow> 's) option \<Rightarrow> 's \<Rightarrow> stuck + 's" where
  "ALT_VIC_BREAK None s = Inl Spins"
| "ALT_VIC_BREAK (Some debugger) s = Inr (debugger s)"

text \<open>
  Every cause is handled the same way when no handler is registered; the handler is looked at only when
  the API for it is configured (\<open>api\<close>).
\<close>

definition alt_vic_exception_handler ::
    "csrs \<Rightarrow> ('s \<Rightarrow> csrs) \<Rightarrow> (csrs \<Rightarrow> 's \<Rightarrow> 's) \<Rightarrow> ('s \<Rightarrow> 's) option \<Rightarrow> bool \<Rightarrow> 's exception_handler option \<Rightarrow>
     's \<Rightarrow> stuck + 's" where
  "alt_vic_exception_handler wr get put debugger api handler s =
     (let pc = NIOSV_READ_CSR NIOSV_MEPC_CSR (get s);
          exception = NIOSV_READ_CSR NIOSV_MCAUSE_CSR (get s)
      in case (if api then handler else None) of
           Some h \<Rightarrow> andThen (h exception 0 0 s) (\<lambda>(r, s1).
             Inr (if r \<noteq> NIOSV_EXCEPTION_RETURN_REISSUE_INST
                  then put (NIOSV_WRITE_CSR wr NIOSV_MEPC_CSR (pc + 4) (get s1)) s1 else s1))
         | None \<Rightarrow> ALT_VIC_BREAK debugger s)"

definition alt_vic_mtimer_isr :: "(u32 \<Rightarrow> u32 \<Rightarrow> u32 \<Rightarrow> 's \<Rightarrow> stuck + 's) \<Rightarrow> 's \<Rightarrow> stuck + 's" where
  "alt_vic_mtimer_isr alt_niosv_timer_sc_isr s = alt_niosv_timer_sc_isr 0 0 0 s"

definition alt_vic_msw_isr :: "(u32 \<Rightarrow> u32 \<Rightarrow> u32 \<Rightarrow> 's \<Rightarrow> stuck + 's) option \<Rightarrow> 's \<Rightarrow> stuck + 's" where
  "alt_vic_msw_isr software_interrupt_handler s =
     (case software_interrupt_handler of Some h \<Rightarrow> h 0 0 0 s | None \<Rightarrow> Inr s)"

text \<open>
  The table \<^verbatim>\<open>alt_irq\<close> has a handler and its context for each of the \<^verbatim>\<open>ALT_NIRQ\<close> interrupts; the routine
  for number \<open>i\<close> is the same for every number.
\<close>

definition alt_vic_platform_irq ::
    "('s \<Rightarrow> 's) option \<Rightarrow> nat \<Rightarrow> (('c \<Rightarrow> 's \<Rightarrow> stuck + 's) option \<times> 'c) list \<Rightarrow> 's \<Rightarrow> stuck + 's" where
  "alt_vic_platform_irq debugger i alt_irq s =
     (if i < length alt_irq then
        case alt_irq ! i of
          (Some handler, ctx) \<Rightarrow> handler ctx s
        | (None, ctx) \<Rightarrow> ALT_VIC_BREAK debugger s
      else Inl OutOfBounds)"

section \<open>Critical sections\<close>

text \<open>
  The code of the HAL guards its shared data by pairs of \<^verbatim>\<open>alt_irq_disable_all\<close> and
  \<^verbatim>\<open>alt_irq_enable_all\<close>.  A program is a sequence of actions and of critical sections, which nest.  The
  run gives the registers at the end, and for every action its depth and whether interrupts were enabled
  when it began.
\<close>

datatype block = Action "csrs \<Rightarrow> csrs" | Critical "block list"

fun run_block :: "csrs \<Rightarrow> bool \<Rightarrow> nat \<Rightarrow> block \<Rightarrow> csrs \<Rightarrow> csrs \<times> (nat \<times> u32) list"
and run_blocks :: "csrs \<Rightarrow> bool \<Rightarrow> nat \<Rightarrow> block list \<Rightarrow> csrs \<Rightarrow> csrs \<times> (nat \<times> u32) list" where
  "run_block wr irqs d (Action f) c = (f c, [(d, alt_irq_enabled irqs c)])"
| "run_block wr irqs d (Critical bs) c =
     (let (ctx, c1) = alt_irq_disable_all wr irqs c;
          (c2, seen) = run_blocks wr irqs (Suc d) bs c1
      in (alt_irq_enable_all wr irqs ctx c2, seen))"
| "run_blocks wr irqs d [] c = (c, [])"
| "run_blocks wr irqs d (b # bs) c =
     (let (c1, seen) = run_block wr irqs d b c;
          (c2, more) = run_blocks wr irqs d bs c1
      in (c2, seen @ more))"

fun keeps_enable :: "block \<Rightarrow> bool" where
  "keeps_enable (Action f) \<longleftrightarrow> (\<forall>c. alt_irq_enabled True (f c) = alt_irq_enabled True c)"
| "keeps_enable (Critical bs) \<longleftrightarrow> (\<forall>b \<in> set bs. keeps_enable b)"

text \<open>The enable bit after the two calls.\<close>

lemma mie_mask_bit: "bit (8 :: int) n \<longleftrightarrow> n = 3"
proof -
  have "(8 :: int) = push_bit 3 1" by simp
  then show ?thesis by (simp only: bit_push_bit_iff bit_1_iff) auto
qed

lemma disable_enabled:
  assumes "bit (wr NIOSV_MSTATUS_CSR) 3"
  shows "alt_irq_enabled True (snd (alt_irq_disable_all wr True c)) = 0"
  using assms unfolding alt_irq_enabled_def alt_irq_disable_all_def csr_defs
  by (auto intro!: bit_word_eqI simp: bit_simps mie_mask_bit)

lemma enable_enabled:
  assumes "bit (wr NIOSV_MSTATUS_CSR) 3" and "alt_irq_enabled True c = 0"
  shows "alt_irq_enabled True (alt_irq_enable_all wr True ctx c) = ctx AND NIOSV_MSTATUS_MIE_MASK"
proof -
  have "c NIOSV_MSTATUS_CSR AND NIOSV_MSTATUS_MIE_MASK = 0"
    using assms(2) by (simp add: alt_irq_enabled_def csr_defs)
  then have "bit (c NIOSV_MSTATUS_CSR AND NIOSV_MSTATUS_MIE_MASK) 3 = bit (0 :: u32) 3" by simp
  then have "\<not> bit (c NIOSV_MSTATUS_CSR) 3" by (simp add: bit_simps mie_mask_bit)
  with assms(1) show ?thesis unfolding alt_irq_enabled_def alt_irq_enable_all_def csr_defs
    by (auto intro!: bit_word_eqI simp: bit_simps mie_mask_bit)
qed

lemma disable_context:
  "fst (alt_irq_disable_all wr True c) AND NIOSV_MSTATUS_MIE_MASK = alt_irq_enabled True c"
  by (simp add: alt_irq_disable_all_def alt_irq_enabled_def csr_defs)

text \<open>Inside a section the bit is clear, so the context of a nested section never sets it.\<close>

lemma run_invariant:
  "irqs \<Longrightarrow> bit (wr NIOSV_MSTATUS_CSR) 3 \<Longrightarrow> keeps_enable b \<Longrightarrow> 0 < d \<longrightarrow> alt_irq_enabled True c = 0 \<Longrightarrow>
     alt_irq_enabled True (fst (run_block wr irqs d b c)) = alt_irq_enabled True c \<and>
     (\<forall>(n, e) \<in> set (snd (run_block wr irqs d b c)). d \<le> n \<and> e = (if n = 0 then alt_irq_enabled True c else 0))"
  "irqs \<Longrightarrow> bit (wr NIOSV_MSTATUS_CSR) 3 \<Longrightarrow> \<forall>b \<in> set bs. keeps_enable b \<Longrightarrow>
     0 < d \<longrightarrow> alt_irq_enabled True c = 0 \<Longrightarrow>
     alt_irq_enabled True (fst (run_blocks wr irqs d bs c)) = alt_irq_enabled True c \<and>
     (\<forall>(n, e) \<in> set (snd (run_blocks wr irqs d bs c)). d \<le> n \<and> e = (if n = 0 then alt_irq_enabled True c else 0))"
proof (induction wr irqs d b c and wr irqs d bs c rule: run_block_run_blocks.induct)
  case (2 wr irqs d bs c)
  obtain ctx c1 where 1: "alt_irq_disable_all wr irqs c = (ctx, c1)" by fastforce
  obtain c2 seen where r: "run_blocks wr irqs (Suc d) bs c1 = (c2, seen)" by fastforce
  have off: "alt_irq_enabled True c1 = 0" using disable_enabled [of wr c] 2 1 by simp
  with 2(1) [OF 1 [symmetric] refl] 2(2-) 1 r
  have ih: "alt_irq_enabled True c2 = 0" "\<forall>(n, e) \<in> set seen. Suc d \<le> n \<and> e = 0"
    by auto
  have "alt_irq_enabled True (alt_irq_enable_all wr irqs ctx c2) = alt_irq_enabled True c"
    using enable_enabled [of wr c2 ctx] 2 ih(1) disable_context [of wr c] 1 by simp
  with 1 r ih(2) show ?case by fastforce
next
  case (4 wr irqs d b bs c)
  then show ?case by (fastforce split: prod.splits)
qed auto

text \<open>C15: Critical sections nest: whatever the nesting, when it ends interrupts are enabled exactly when
  they were before, every action inside a section runs with interrupts disabled, and every action outside
  of all sections runs with the enable as it was.\<close>

theorem critical_sections:
  assumes "bit (wr NIOSV_MSTATUS_CSR) 3" and "\<forall>b \<in> set bs. keeps_enable b"
  shows "alt_irq_enabled True (fst (run_blocks wr True 0 bs c)) = alt_irq_enabled True c \<and>
         (\<forall>(n, e) \<in> set (snd (run_blocks wr True 0 bs c)). e = (if n = 0 then alt_irq_enabled True c else 0))"
  using run_invariant(2) [of True wr bs 0 c] assms by fastforce

theorem critical_sections_witness:
  "snd (run_blocks (\<lambda>_. 0xFFFFFFFF) True 0
     [Action (\<lambda>c. c), Critical [Action (\<lambda>c. c), Critical [Action (\<lambda>c. c)], Action (\<lambda>c. c)], Action (\<lambda>c. c)]
     (\<lambda>_. 8)) = [(0, 8), (1, 0), (2, 0), (1, 0), (0, 8)]"
proof -
  let ?wr = "\<lambda>_ :: u32. 0xFFFFFFFF :: u32"
  let ?bs = "[Action (\<lambda>c. c), Critical [Action (\<lambda>c. c), Critical [Action (\<lambda>c. c)], Action (\<lambda>c. c)], Action (\<lambda>c. c)]"
  let ?seen = "snd (run_blocks ?wr True 0 ?bs (\<lambda>_. 8))"
  have "bit (0xFFFFFFFF :: u32) 3" by simp
  then have "\<forall>(n, e) \<in> set ?seen. e = (if n = 0 then alt_irq_enabled True (\<lambda>_. 8) else 0)"
    by (intro conjunct2 [OF critical_sections [of ?wr ?bs "\<lambda>_. 8"]]) simp_all
  moreover have "map fst ?seen = [0, 1, 2, 1, 0]" by (simp split: prod.splits)
  ultimately show ?thesis
    by (auto simp: alt_irq_enabled_def csr_defs map_eq_Cons_conv)
qed

section \<open>The set of enabled interrupts\<close>

text \<open>The platform interrupts whose enable is set, and the calls that change them.\<close>

definition irq_set :: "csrs \<Rightarrow> u32 set" where
  "irq_set c = {irq. alt_ic_irq_enabled True 0 irq c \<noteq> 0}"

datatype irq_call = Enable u32 | Disable u32

fun irq_run :: "csrs \<Rightarrow> irq_call list \<Rightarrow> csrs \<Rightarrow> int list \<times> csrs" where
  "irq_run wr [] c = ([], c)"
| "irq_run wr (call # calls) c =
     (let (r, c1) = (case call of Enable irq \<Rightarrow> alt_ic_irq_enable wr True 0 irq c
                                | Disable irq \<Rightarrow> alt_ic_irq_disable wr True 0 irq c);
          (rs, c2) = irq_run wr calls c1
      in (r # rs, c2))"

text \<open>The specification: a set of numbers below 16.\<close>

fun spec_step :: "irq_call \<Rightarrow> u32 set \<Rightarrow> u32 set" where
  "spec_step (Enable irq) S = (if irq < 16 then insert irq S else S)"
| "spec_step (Disable irq) S = S - {irq}"

fun call_irq :: "irq_call \<Rightarrow> u32" where
  "call_irq (Enable irq) = irq"
| "call_irq (Disable irq) = irq"

lemma remap:
  assumes "irq < 16"
  shows "\<not> ALT_REMAP_IRQ_NUM irq < 0" and "nat (ALT_REMAP_IRQ_NUM irq) = unat irq + 16"
proof -
  have u: "unat irq < 16" using assms by (simp add: word_less_nat_alt)
  then have "uint irq < 16" using of_nat_less_iff [where ?'a = int, of "unat irq" 16] by simp
  then have "uint (irq + 16) = uint irq + 16" by (simp add: uint_word_ariths)
  moreover have "ALT_REMAP_IRQ_NUM irq = uint (irq + 16)"
    using u by (simp only: ALT_REMAP_IRQ_NUM_def word_less_nat_alt) simp
  ultimately have r: "ALT_REMAP_IRQ_NUM irq = uint irq + 16" by simp
  then show "nat (ALT_REMAP_IRQ_NUM irq) = unat irq + 16" by (simp add: nat_add_distrib)
  from r show "\<not> ALT_REMAP_IRQ_NUM irq < 0" using uint_ge_0 [of irq] by linarith
qed

lemma remap_refused: "\<not> irq < 16 \<Longrightarrow> ALT_REMAP_IRQ_NUM irq = - 1"
  by (simp add: ALT_REMAP_IRQ_NUM_def word_less_nat_alt)

lemma in_irq_set: "irq \<in> irq_set c \<longleftrightarrow> irq < 16 \<and> bit (c NIOSV_MIE_CSR) (unat irq + 16)"
  by (cases "irq < 16")
    (simp_all add: irq_set_def alt_ic_irq_enabled_def csr_defs Let_def remap remap_refused and_exp_eq_0_iff_not_bit)

definition platform_bits :: "csrs \<Rightarrow> bool" where
  "platform_bits wr \<longleftrightarrow> (\<forall>n. 16 \<le> n \<and> n < 32 \<longrightarrow> bit (wr NIOSV_MIE_CSR) n)"

text \<open>One call.\<close>

lemma call_set:
  assumes "platform_bits wr"
  shows "irq_set (snd (alt_ic_irq_enable wr True ic irq c)) = spec_step (Enable irq) (irq_set c)"
    and "irq_set (snd (alt_ic_irq_disable wr True ic irq c)) = spec_step (Disable irq) (irq_set c)"
proof -
  have lt: "i < 16 \<Longrightarrow> unat i < 16" for i :: u32
    by (simp add: word_less_nat_alt)
  have wr: "i < 16 \<Longrightarrow> bit (wr NIOSV_MIE_CSR) (unat i + 16)" for i :: u32
    using assms lt [of i] by (simp add: platform_bits_def)
  show "irq_set (snd (alt_ic_irq_enable wr True ic irq c)) = spec_step (Enable irq) (irq_set c)"
  proof (cases "irq < 16")
    case True
    have "bit (snd (alt_ic_irq_enable wr True ic irq c) NIOSV_MIE_CSR) (unat i + 16) \<longleftrightarrow>
          i = irq \<or> bit (c NIOSV_MIE_CSR) (unat i + 16)" if "i < 16" for i
      using lt [OF that] wr [OF that] True
      by (auto simp: alt_ic_irq_enable_def csr_defs Let_def remap bit_simps word_unat_eq_iff)
    with True show ?thesis by (auto simp: in_irq_set)
  qed (simp add: alt_ic_irq_enable_def remap_refused)
  show "irq_set (snd (alt_ic_irq_disable wr True ic irq c)) = spec_step (Disable irq) (irq_set c)"
  proof (cases "irq < 16")
    case True
    have "bit (snd (alt_ic_irq_disable wr True ic irq c) NIOSV_MIE_CSR) (unat i + 16) \<longleftrightarrow>
          i \<noteq> irq \<and> bit (c NIOSV_MIE_CSR) (unat i + 16)" if "i < 16" for i
      using lt [OF that] wr [OF that] True
      by (auto simp: alt_ic_irq_disable_def csr_defs Let_def remap bit_simps word_unat_eq_iff)
    with True show ?thesis by (auto simp: in_irq_set)
  next
    case False
    then have "irq \<notin> irq_set c" by (simp add: in_irq_set)
    with False show ?thesis by (simp add: alt_ic_irq_disable_def remap_refused)
  qed
qed

lemma call_result:
  "fst (alt_ic_irq_enable wr True ic irq c) = (if irq < 16 then 0 else -1)"
  "fst (alt_ic_irq_disable wr True ic irq c) = (if irq < 16 then 0 else -1)"
  by (simp_all add: alt_ic_irq_enable_def alt_ic_irq_disable_def remap remap_refused Let_def)

lemma call_frame:
  "reg \<noteq> NIOSV_MIE_CSR \<Longrightarrow> snd (alt_ic_irq_enable wr True ic irq c) reg = c reg"
  "reg \<noteq> NIOSV_MIE_CSR \<Longrightarrow> snd (alt_ic_irq_disable wr True ic irq c) reg = c reg"
  by (simp_all add: alt_ic_irq_enable_def alt_ic_irq_disable_def csr_defs Let_def)

lemma call_low_bits:
  "take_bit 16 (snd (alt_ic_irq_enable wr True ic irq c) NIOSV_MIE_CSR) = take_bit 16 (c NIOSV_MIE_CSR)"
  "take_bit 16 (snd (alt_ic_irq_disable wr True ic irq c) NIOSV_MIE_CSR) = take_bit 16 (c NIOSV_MIE_CSR)"
  by (cases "irq < 16";
      auto intro!: bit_word_eqI
        simp: alt_ic_irq_enable_def alt_ic_irq_disable_def csr_defs Let_def remap remap_refused bit_simps)+

lemma irq_run_ok:
  "platform_bits wr \<Longrightarrow> irq_run wr calls c = (rs, c') \<Longrightarrow>
     irq_set c' = fold spec_step calls (irq_set c) \<and>
     rs = map (\<lambda>call. if call_irq call < 16 then 0 else -1) calls \<and>
     (\<forall>reg. reg \<noteq> NIOSV_MIE_CSR \<longrightarrow> c' reg = c reg) \<and>
     take_bit 16 (c' NIOSV_MIE_CSR) = take_bit 16 (c NIOSV_MIE_CSR)"
proof (induction calls arbitrary: c rs c')
  case (Cons call calls)
  obtain r c1 where 1: "(case call of Enable irq \<Rightarrow> alt_ic_irq_enable wr True 0 irq c
      | Disable irq \<Rightarrow> alt_ic_irq_disable wr True 0 irq c) = (r, c1)" by fastforce
  obtain rs2 c2 where 2: "irq_run wr calls c1 = (rs2, c2)" by fastforce
  with 1 Cons.prems have e: "rs = r # rs2" "c' = c2" by auto
  have "irq_set c1 = spec_step call (irq_set c) \<and> r = (if call_irq call < 16 then 0 else -1) \<and>
        (\<forall>reg. reg \<noteq> NIOSV_MIE_CSR \<longrightarrow> c1 reg = c reg) \<and>
        take_bit 16 (c1 NIOSV_MIE_CSR) = take_bit 16 (c NIOSV_MIE_CSR)"
  proof (cases call)
    case (Enable irq)
    with 1 have s: "snd (alt_ic_irq_enable wr True 0 irq c) = c1" "fst (alt_ic_irq_enable wr True 0 irq c) = r"
      by simp_all
    show ?thesis unfolding s [symmetric] Enable
      using call_set(1) [OF Cons.prems(1)] call_result(1) call_frame(1) call_low_bits(1) by simp
  next
    case (Disable irq)
    with 1 have s: "snd (alt_ic_irq_disable wr True 0 irq c) = c1" "fst (alt_ic_irq_disable wr True 0 irq c) = r"
      by simp_all
    show ?thesis unfolding s [symmetric] Disable
      using call_set(2) [OF Cons.prems(1)] call_result(2) call_frame(2) call_low_bits(2) by simp
  qed
  with Cons.IH [OF Cons.prems(1) 2] e show ?case by simp
qed simp

lemma pending_bit:
  assumes "n < 16"
  shows "bit (alt_irq_pending True c) n \<longleftrightarrow> of_nat n \<in> irq_set c \<and> bit (c NIOSV_MIP_CSR) (n + 16)"
proof -
  have u: "unat (of_nat n :: u32) = n" using assms by (simp add: unat_of_nat)
  with assms have "(of_nat n :: u32) < 16" by (simp only: word_less_nat_alt) simp
  with u have "of_nat n \<in> irq_set c \<longleftrightarrow> bit (c NIOSV_MIE_CSR) (n + 16)" by (simp only: in_irq_set) simp
  then show ?thesis
    by (auto simp: alt_irq_pending_def csr_defs bit_drop_bit_eq bit_and_iff add.commute)
qed

text \<open>C22: The enable register implements a set of interrupt numbers: after any sequence of enables and
  disables the enabled interrupts are those of the set, a call is refused exactly for a number above 15,
  nothing but the high half of the enable register changes, and the pending interrupts are the enabled
  ones whose line is active.\<close>

theorem irq_mask_refines:
  assumes "platform_bits wr" and "irq_run wr calls c = (rs, c')"
  shows "irq_set c' = fold spec_step calls (irq_set c) \<and>
         rs = map (\<lambda>call. if call_irq call < 16 then 0 else -1) calls \<and>
         (\<forall>reg. reg \<noteq> NIOSV_MIE_CSR \<longrightarrow> c' reg = c reg) \<and>
         take_bit 16 (c' NIOSV_MIE_CSR) = take_bit 16 (c NIOSV_MIE_CSR) \<and>
         (\<forall>n < 16. bit (alt_irq_pending True c') n \<longleftrightarrow> of_nat n \<in> irq_set c' \<and> bit (c' NIOSV_MIP_CSR) (n + 16))"
proof -
  have "\<forall>n < 16. bit (alt_irq_pending True c') n \<longleftrightarrow> of_nat n \<in> irq_set c' \<and> bit (c' NIOSV_MIP_CSR) (n + 16)"
    using pending_bit by blast
  with irq_run_ok [OF assms] show ?thesis by simp
qed

theorem irq_mask_refines_witness:
  "fst (irq_run (\<lambda>_. -1) [Enable 2, Enable 16, Disable 2, Enable 5] (\<lambda>_. 0)) = [0, -1, 0, 0] \<and>
   irq_set (snd (irq_run (\<lambda>_. -1) [Enable 2, Enable 16, Disable 2, Enable 5] (\<lambda>_. 0))) = {5}"
proof -
  let ?calls = "[Enable 2, Enable 16, Disable 2, Enable 5]"
  have "platform_bits (\<lambda>_. -1)" by (simp add: platform_bits_def)
  moreover have "irq_set (\<lambda>_. 0) = {}" by (auto simp: in_irq_set)
  ultimately show ?thesis
    using irq_mask_refines [of "\<lambda>_. -1" ?calls "\<lambda>_. 0" "fst (irq_run (\<lambda>_. -1) ?calls (\<lambda>_. 0))"
        "snd (irq_run (\<lambda>_. -1) ?calls (\<lambda>_. 0))"] by (simp del: irq_run.simps)
qed

section \<open>The service routines\<close>

text \<open>
  A registered exception handler is told the cause, but not the program counter or the address it is
  declared to get; when it asks to skip the instruction the saved program counter moves on by four.
\<close>

lemma vic_exception_registered:
  assumes "h (get s NIOSV_MCAUSE_CSR) 0 0 s = Inr (NIOSV_EXCEPTION_RETURN_SKIP_INST, s1)"
    and "\<And>c t. get (put c t) = c" and "wr NIOSV_MEPC_CSR = -1"
  shows "\<exists>s2. alt_vic_exception_handler wr get put debugger True
                (alt_instruction_exception_register (Some h) old) s = Inr s2 \<and>
              get s2 NIOSV_MEPC_CSR = get s NIOSV_MEPC_CSR + 4"
  using assms by (simp add: alt_vic_exception_handler_def alt_instruction_exception_register_def csr_defs Let_def)

lemma vic_exception_default:
  "alt_vic_exception_handler wr get put None api None s = Inl Spins"
  "alt_vic_exception_handler wr get put None False h s = Inl Spins"
  by (simp_all add: alt_vic_exception_handler_def Let_def)

text \<open>An interrupt without a handler is spurious; a number beyond the table is not guarded against.\<close>

lemma vic_platform_irq:
  "i < length tab \<Longrightarrow> tab ! i = (Some h, ctx) \<Longrightarrow> alt_vic_platform_irq debugger i tab s = h ctx s"
  "i < length tab \<Longrightarrow> tab ! i = (None, ctx) \<Longrightarrow> alt_vic_platform_irq None i tab s = Inl Spins"
  by (simp_all add: alt_vic_platform_irq_def)

text \<open>
  The address of the software interrupt counts the core twice: for core 0 it is the compare register of
  core 1.
\<close>

lemma msip_addr_overlap:
  "c NIOSV_MHARTID_CSR = 0 \<Longrightarrow> d NIOSV_MHARTID_CSR = 1 \<Longrightarrow>
   alt_niosv_get_msip_addr base c = alt_niosv_get_mtimecmp_addr base d"
  by (simp add: alt_niosv_get_msip_addr_def alt_niosv_get_mtimecmp_addr_def alt_niosv_read_mhartid_def csr_defs)

end
