(* ===== verification/HeapMem.thy ===== *)
theory HeapMem
  imports Irq
begin

text \<open>
  Memory set up and handed out by the HAL: the break of the heap (\<^verbatim>\<open>alt_sbrk.c\<close>, with the stack limit of
  \<^verbatim>\<open>sys/alt_stack.h\<close>), the copying of sections at start-up (\<^verbatim>\<open>alt_load.c\<close>, \<^verbatim>\<open>sys/alt_load.h\<close>),
  thread-local storage (\<^verbatim>\<open>alt_tls.c\<close>), the data cache (\<^verbatim>\<open>alt_dcache_flush*.c\<close>) and uncached memory.
\<close>

section \<open>The break of the heap\<close>

text \<open>
  \<^verbatim>\<open>ALT_MAX_HEAP_BYTES\<close>, \<^verbatim>\<open>ALT_STACK_CHECK\<close> and \<^verbatim>\<open>ALT_EXCEPTION_STACK\<close> are options of the build.
\<close>

record heap_config =
  max_heap_bytes :: "u32 option"
  stack_check :: bool
  exception_stack :: bool
  heap_start :: u32
  heap_limit :: u32

record heap =
  heap_end :: u32
  stack_limit_value :: u32
  exception_old_stack_limit :: u32
  heap_csrs :: csrs
  overflow_reports :: nat

definition alt_report_stack_overflow :: "heap \<Rightarrow> heap" where
  "alt_report_stack_overflow s = s\<lparr>overflow_reports := overflow_reports s + 1\<rparr>"

definition alt_stack_limit :: "heap \<Rightarrow> u32" where
  "alt_stack_limit s = stack_limit_value s"

lemma alt_stack_limit_value [simp]: "alt_stack_limit s = stack_limit_value s"
  by (simp add: alt_stack_limit_def)

definition alt_set_stack_limit :: "u32 \<Rightarrow> heap \<Rightarrow> heap" where
  "alt_set_stack_limit limit s = s\<lparr>stack_limit_value := limit\<rparr>"

definition word_align :: "u32 \<Rightarrow> u32" where
  "word_align a = (a + 3) AND NOT 3"

text \<open>The adjustment of the stack limits, after the break has moved from \<open>prev\<close>; \<open>sp\<close> is the stack pointer.\<close>

definition adjust_stack_limits :: "heap_config \<Rightarrow> u32 \<Rightarrow> u32 \<Rightarrow> heap \<Rightarrow> heap" where
  "adjust_stack_limits cfg sp prev s =
     (if stack_check cfg then
        let s1 = (if alt_stack_limit s = prev then
                    let s0 = (if sp \<le> heap_end s then alt_report_stack_overflow s else s)
                    in alt_set_stack_limit (heap_end s0) s0
                  else s)
        in if exception_stack cfg \<and> exception_old_stack_limit s1 = prev then
             let s2 = (if exception_old_stack_limit s1 \<le> heap_end s1 then alt_report_stack_overflow s1 else s1)
             in s2\<lparr>exception_old_stack_limit := heap_end s2\<rparr>
           else s1
      else s)"

text \<open>
  The size is an \<^verbatim>\<open>int\<close>, a word read as signed; pointers wrap round and are compared as unsigned words,
  their difference as a signed one.
\<close>

definition ALT_SBRK :: "csrs \<Rightarrow> bool \<Rightarrow> heap_config \<Rightarrow> u32 \<Rightarrow> u32 \<Rightarrow> heap \<Rightarrow> u32 \<times> heap" where
  "ALT_SBRK wr irqs cfg sp incr s =
     (let (context, c1) = alt_irq_disable_all wr irqs (heap_csrs s);
          s1 = s\<lparr>heap_csrs := c1, heap_end := word_align (heap_end s)\<rparr>;
          over = (case max_heap_bytes cfg of
                    Some m \<Rightarrow> sint m < sint (heap_end s1 + incr - heap_start cfg)
                  | None \<Rightarrow> heap_limit cfg < heap_end s1 + incr)
      in if over then (-1, s1\<lparr>heap_csrs := alt_irq_enable_all wr irqs context (heap_csrs s1)\<rparr>)
         else
           let prev_heap_end = heap_end s1;
               s2 = adjust_stack_limits cfg sp prev_heap_end (s1\<lparr>heap_end := heap_end s1 + incr\<rparr>)
           in (prev_heap_end, s2\<lparr>heap_csrs := alt_irq_enable_all wr irqs context (heap_csrs s2)\<rparr>))"

text \<open>A sequence of calls, with the stack pointer at each.\<close>

fun sbrk_run :: "csrs \<Rightarrow> bool \<Rightarrow> heap_config \<Rightarrow> (u32 \<times> u32) list \<Rightarrow> heap \<Rightarrow> (u32 \<times> u32) list \<times> heap" where
  "sbrk_run wr irqs cfg [] s = ([], s)"
| "sbrk_run wr irqs cfg ((sp, incr) # calls) s =
     (let (r, s1) = ALT_SBRK wr irqs cfg sp incr s;
          (rs, s2) = sbrk_run wr irqs cfg calls s1
      in ((r, incr) # rs, s2))"

section \<open>Copying sections\<close>

text \<open>Memory is a map from the addresses of words; a pointer to words moves in steps of four.\<close>

type_synonym mem = "u32 \<Rightarrow> u32"

partial_function (option) load_loop :: "u32 \<Rightarrow> u32 \<Rightarrow> u32 \<Rightarrow> mem \<Rightarrow> mem option" where
  "load_loop from to end mem =
     (if to \<noteq> end then load_loop (from + 4) (to + 4) end (mem(to := mem from)) else Some mem)"

definition alt_load_section :: "u32 \<Rightarrow> u32 \<Rightarrow> u32 \<Rightarrow> mem \<Rightarrow> stuck + mem" where
  "alt_load_section from to end mem =
     (if to \<noteq> from then returned (map_option Inr (load_loop from to end mem)) else Inr mem)"

text \<open>The addresses the linker defines for a section.\<close>

record load_section =
  flash_start :: u32
  ram_start :: u32
  ram_end :: u32

text \<open>The caches of this system have no lines; \<open>flush\<close> is what the flushing of both does to memory.\<close>

definition alt_load :: "load_section \<Rightarrow> load_section \<Rightarrow> load_section \<Rightarrow> (mem \<Rightarrow> mem) \<Rightarrow> mem \<Rightarrow> stuck + mem" where
  "alt_load rwdata exceptions rodata flush mem =
     andThen (alt_load_section (flash_start rwdata) (ram_start rwdata) (ram_end rwdata) mem) (\<lambda>m1.
     andThen (alt_load_section (flash_start exceptions) (ram_start exceptions) (ram_end exceptions) m1) (\<lambda>m2.
     andThen (alt_load_section (flash_start rodata) (ram_start rodata) (ram_end rodata) m2) (\<lambda>m3.
     Inr (flush m3))))"

section \<open>Thread-local storage\<close>

text \<open>Bytes of memory; the library calls act on a block of \<open>n\<close> bytes.\<close>

definition memset_bytes :: "u32 \<Rightarrow> u8 \<Rightarrow> u32 \<Rightarrow> (u32 \<Rightarrow> u8) \<Rightarrow> (u32 \<Rightarrow> u8)" where
  "memset_bytes p b n mem = (\<lambda>a. if a - p < n then b else mem a)"

definition memcpy_bytes :: "u32 \<Rightarrow> u32 \<Rightarrow> u32 \<Rightarrow> (u32 \<Rightarrow> u8) \<Rightarrow> (u32 \<Rightarrow> u8)" where
  "memcpy_bytes p q n mem = (\<lambda>a. if a - p < n then mem (q + (a - p)) else mem a)"

record tls_layout =
  tbss_size :: u32
  tdata_size :: u32
  tdata_source :: u32
  tdata_start :: u32
  tbss_start :: u32

definition alt_init_tls_block :: "tls_layout \<Rightarrow> u32 \<Rightarrow> (u32 \<Rightarrow> u8) \<Rightarrow> (u32 \<Rightarrow> u8)" where
  "alt_init_tls_block l tls_block_ptr mem =
     (let tbss_ptr = tls_block_ptr + (tbss_start l - tdata_start l)
      in memcpy_bytes tls_block_ptr (tdata_source l) (tdata_size l)
           (memset_bytes tbss_ptr 0 (tbss_size l) mem))"

section \<open>The data cache\<close>

text \<open>
  The addresses that are flushed, in order.  The loop compares pointers as unsigned words and may run
  past the end of the address space, hence the partial function.
\<close>

partial_function (option) flush_loop :: "u32 \<Rightarrow> u32 \<Rightarrow> u32 \<Rightarrow> u32 list \<Rightarrow> (u32 list \<times> u32) option" where
  "flush_loop line_size end i acc =
     (if i < end then flush_loop line_size end (i + line_size) (acc @ [i]) else Some (acc, i))"

definition alt_dcache_flush :: "u32 \<Rightarrow> u32 \<Rightarrow> u32 \<Rightarrow> u32 \<Rightarrow> u32 list option" where
  "alt_dcache_flush cache_size line_size start len =
     (if 0 < cache_size then
        map_option (\<lambda>(l, i). if start AND (line_size - 1) \<noteq> 0 then l @ [i] else l)
          (flush_loop line_size (start + len) start [])
      else Some [])"

text \<open>Invalidation walks the same addresses, and drops what is in the lines.\<close>

definition alt_dcache_flush_no_writeback :: "u32 \<Rightarrow> u32 \<Rightarrow> u32 \<Rightarrow> u32 \<Rightarrow> u32 list option" where
  "alt_dcache_flush_no_writeback cache_size line_size start len =
     (if 0 < cache_size then
        map_option (\<lambda>(l, i). if start AND (line_size - 1) \<noteq> 0 then l @ [i] else l)
          (flush_loop line_size (start + len) start [])
      else Some [])"

definition alt_dcache_flush_all :: "u32 \<Rightarrow> u32 \<Rightarrow> u32 list option" where
  "alt_dcache_flush_all cache_size line_size =
     (if 0 < cache_size then map_option fst (flush_loop line_size cache_size 0 []) else Some [])"

section \<open>Uncached memory\<close>

definition alt_remap_cached :: "u32 \<Rightarrow> u32 \<Rightarrow> u32" where
  "alt_remap_cached ptr len = ptr"

definition alt_remap_uncached :: "u32 \<Rightarrow> u32 \<Rightarrow> stuck + u32" where
  "alt_remap_uncached ptr len = Inl LinkError"

definition alt_uncached_malloc :: "(u32 \<Rightarrow> 's \<Rightarrow> u32 option \<times> 's) \<Rightarrow> u32 \<Rightarrow> 's \<Rightarrow> u32 option \<times> 's" where
  "alt_uncached_malloc malloc n s = malloc n s"

definition alt_uncached_free :: "(u32 option \<Rightarrow> 's \<Rightarrow> 's) \<Rightarrow> u32 option \<Rightarrow> 's \<Rightarrow> 's" where
  "alt_uncached_free free ptr s = free ptr s"

section \<open>The heap hands out disjoint blocks\<close>

lemma AND_NOT_minus: "x AND NOT y = x - (x AND y)" for x y :: "'a::len word"
proof -
  have "(x AND NOT y) + (x AND y) = (x AND NOT y) OR (x AND y)"
    by (rule disjunctive_add) (auto simp: bit_simps)
  also have "\<dots> = x" by (rule bit_word_eqI) (auto simp: bit_simps)
  finally show ?thesis by (simp only: eq_diff_eq)
qed

lemma unat_AND_NOT_3: "unat (x AND NOT 3 :: u32) = unat x div 4 * 4"
proof -
  have "x AND 3 = take_bit 2 x" by (simp add: take_bit_eq_mask mask_eq_exp_minus_1)
  then have m: "unat (x AND 3) = unat x mod 4" by (simp add: take_bit_eq_mod unat_mod)
  have "x AND NOT 3 = x - (x AND 3)" by (rule AND_NOT_minus)
  moreover have "x AND 3 \<le> x" using m by (simp add: word_le_nat_alt)
  ultimately have "unat (x AND NOT 3) = unat x - unat x mod 4" using m by (simp add: unat_sub)
  then show ?thesis by (simp add: minus_mod_eq_div_mult)
qed

lemma unat_word_align:
  assumes "unat a + 3 < 2 ^ 32"
  shows "unat (word_align a) = (unat a + 3) div 4 * 4"
proof -
  have "unat (a + 3) = unat a + 3" using assms by (simp add: unat_word_ariths)
  then show ?thesis by (simp only: word_align_def unat_AND_NOT_3)
qed

text \<open>What a call does to the break when neither pointer wraps round.\<close>

lemma adjust_heap_end [simp]:
  "heap_end (adjust_stack_limits cfg sp prev s) = heap_end s"
  "heap_csrs (adjust_stack_limits cfg sp prev s) = heap_csrs s"
  by (simp_all add: adjust_stack_limits_def alt_report_stack_overflow_def alt_set_stack_limit_def Let_def)

lemma sbrk_result:
  assumes "max_heap_bytes cfg = None" and "unat (heap_end s) \<le> unat (heap_limit cfg) + 3"
    and "unat (heap_limit cfg) < 2 ^ 31" and "unat incr < 2 ^ 31 - 8"
  shows "ALT_SBRK wr irqs cfg sp incr s = (r, s') \<Longrightarrow>
     (if unat (word_align (heap_end s)) + unat incr \<le> unat (heap_limit cfg)
      then r = word_align (heap_end s) \<and> unat (heap_end s') = unat r + unat incr
      else r = -1 \<and> heap_end s' = word_align (heap_end s))"
proof -
  have "unat (word_align (heap_end s)) \<le> unat (heap_end s) + 3"
    using assms(2,3) unat_word_align [of "heap_end s"] by simp
  then have lt: "unat (word_align (heap_end s)) + unat incr < 2 ^ 32" using assms by simp
  have "unat (word_align (heap_end s) + incr) = unat (word_align (heap_end s)) + unat incr"
    by (rule unat_add_no_overflow) (use lt in simp)
  then show "ALT_SBRK wr irqs cfg sp incr s = (r, s') \<Longrightarrow> ?thesis"
    using assms(1) by (auto simp: ALT_SBRK_def Let_def word_less_nat_alt split: prod.splits if_splits)
qed

lemma sbrk_critical:
  assumes "bit (wr NIOSV_MSTATUS_CSR) 3"
  shows "alt_irq_enabled irqs (heap_csrs (snd (ALT_SBRK wr irqs cfg sp incr s))) = alt_irq_enabled irqs (heap_csrs s)"
proof (cases irqs)
  case True
  then show ?thesis
    using disable_context [of wr "heap_csrs s"] disable_enabled [where wr = wr and c = "heap_csrs s"]
      enable_enabled [where wr = wr and c = "snd (alt_irq_disable_all wr True (heap_csrs s))"] assms
    by (auto simp: ALT_SBRK_def Let_def split: prod.splits option.splits)
qed (simp add: alt_irq_enabled_def)

text \<open>The blocks handed out by a run: address and size of every call that did not fail.\<close>

definition handed_out :: "(u32 \<times> u32) list \<Rightarrow> (nat \<times> nat) list" where
  "handed_out rs = [(unat r, unat n). (r, n) \<leftarrow> rs, r \<noteq> -1]"

lemma handed_out_Cons:
  "handed_out ((r, n) # rs) = (if r \<noteq> -1 then [(unat r, unat n)] else []) @ handed_out rs"
  by (simp add: handed_out_def)

lemma word_align_ge:
  assumes "unat a + 3 < 2 ^ 32"
  shows "unat a \<le> unat (word_align a) \<and> unat (word_align a) \<le> unat a + 3 \<and> 4 dvd unat (word_align a)"
  unfolding unat_word_align [OF assms] by presburger

lemma sbrk_run_blocks:
  assumes "max_heap_bytes cfg = None" and "unat (heap_limit cfg) < 2 ^ 31"
  shows "\<forall>(sp, incr) \<in> set calls. unat incr < 2 ^ 31 - 8 \<Longrightarrow>
     unat (heap_end s) \<le> (unat (heap_limit cfg) + 3) div 4 * 4 \<Longrightarrow> sbrk_run wr irqs cfg calls s = (rs, s') \<Longrightarrow>
       sorted_wrt (\<lambda>(a, n) (b, m). a + n \<le> b) (handed_out rs) \<and>
       (\<forall>(a, n) \<in> set (handed_out rs). 4 dvd a \<and> unat (heap_end s) \<le> a \<and> a + n \<le> unat (heap_limit cfg)) \<and>
       map snd rs = map snd calls"
proof (induction calls arbitrary: s rs)
  case Nil
  then show ?case by (simp add: handed_out_def)
next
  case (Cons call calls)
  obtain sp incr where call: "call = (sp, incr)" by fastforce
  obtain r s1 where 1: "ALT_SBRK wr irqs cfg sp incr s = (r, s1)" by fastforce
  obtain rs2 where 2: "sbrk_run wr irqs cfg calls s1 = (rs2, s')" and rs: "rs = (r, incr) # rs2"
    using Cons.prems(3) 1 by (auto simp: call split: prod.splits)
  have le: "unat (heap_end s) \<le> unat (heap_limit cfg) + 3" using Cons.prems(2) by linarith
  have i: "unat incr < 2 ^ 31 - 8" using Cons.prems(1) by (simp add: call)
  let ?a = "word_align (heap_end s)"
  have al: "unat (heap_end s) \<le> unat ?a" "unat ?a \<le> unat (heap_end s) + 3" "4 dvd unat ?a"
    using word_align_ge [of "heap_end s"] le assms(2) by simp_all
  have res: "if unat ?a + unat incr \<le> unat (heap_limit cfg)
      then r = ?a \<and> unat (heap_end s1) = unat r + unat incr else r = -1 \<and> heap_end s1 = ?a"
    by (rule sbrk_result [OF assms(1) le assms(2) i 1])
  have top: "unat ?a \<le> (unat (heap_limit cfg) + 3) div 4 * 4"
    using Cons.prems(2) le assms(2) unat_word_align [of "heap_end s"] by simp
  have h: "unat (heap_end s1) \<le> (unat (heap_limit cfg) + 3) div 4 * 4" "unat (heap_end s) \<le> unat (heap_end s1)"
    using res top al(1) by (auto split: if_splits)
  have ih: "sorted_wrt (\<lambda>(a, n) (b, m). a + n \<le> b) (handed_out rs2)"
    "\<forall>(a, n) \<in> set (handed_out rs2). 4 dvd a \<and> unat (heap_end s1) \<le> a \<and> a + n \<le> unat (heap_limit cfg)"
    "map snd rs2 = map snd calls"
    using Cons.IH [OF _ h(1) 2] Cons.prems(1) by auto
  show ?case
    using ih res h(2) al by (fastforce simp: rs handed_out_Cons call split: if_splits)
qed

lemma sbrk_run_enable:
  "sbrk_run wr irqs cfg calls s = (rs, s') \<Longrightarrow> bit (wr NIOSV_MSTATUS_CSR) 3 \<Longrightarrow>
   alt_irq_enabled irqs (heap_csrs s') = alt_irq_enabled irqs (heap_csrs s)"
proof (induction calls arbitrary: s rs)
  case (Cons call calls)
  obtain sp incr where call: "call = (sp, incr)" by fastforce
  obtain r s1 where 1: "ALT_SBRK wr irqs cfg sp incr s = (r, s1)" by fastforce
  obtain rs2 where 2: "sbrk_run wr irqs cfg calls s1 = (rs2, s')"
    using Cons.prems(1) 1 by (auto simp: call split: prod.splits)
  have "alt_irq_enabled irqs (heap_csrs s1) = alt_irq_enabled irqs (heap_csrs s)"
    using sbrk_critical [where wr = wr and s = s and sp = sp and incr = incr] Cons.prems(2) 1 by (metis snd_conv)
  with Cons.IH [OF 2 Cons.prems(2)] show ?case by simp
qed simp

text \<open>C18: In the build without \<^verbatim>\<open>ALT_MAX_HEAP_BYTES\<close>, any sequence of calls with sizes that are not negative (and
  below half of the address space less eight) hands out blocks
  of memory that are word aligned, lie one behind the other between the old break and the heap limit and
  so never overlap, every call is answered, and interrupts are enabled afterwards as they were.  (A negative size
  moves the break back, so that later blocks overlap earlier ones, see \<open>sbrk_shrinks\<close>.)\<close>

theorem sbrk_blocks:
  assumes "max_heap_bytes cfg = None" and "unat (heap_limit cfg) < 2 ^ 31" and "heap_end s \<le> heap_limit cfg"
    and "\<forall>(sp, incr) \<in> set calls. unat incr < 2 ^ 31 - 8" and "bit (wr NIOSV_MSTATUS_CSR) 3"
    and "sbrk_run wr irqs cfg calls s = (rs, s')"
  shows "sorted_wrt (\<lambda>(a, n) (b, m). a + n \<le> b) (handed_out rs) \<and>
         (\<forall>(a, n) \<in> set (handed_out rs). 4 dvd a \<and> unat (heap_end s) \<le> a \<and> a + n \<le> unat (heap_limit cfg)) \<and>
         map snd rs = map snd calls \<and>
         alt_irq_enabled irqs (heap_csrs s') = alt_irq_enabled irqs (heap_csrs s)"
proof -
  have "unat (heap_end s) \<le> (unat (heap_limit cfg) + 3) div 4 * 4"
    using assms(3) unfolding word_le_nat_alt by linarith
  from sbrk_run_blocks [OF assms(1,2,4) this assms(6)]
  have b: "sorted_wrt (\<lambda>(a, n) (b, m). a + n \<le> b) (handed_out rs) \<and>
     (\<forall>(a, n) \<in> set (handed_out rs). 4 dvd a \<and> unat (heap_end s) \<le> a \<and> a + n \<le> unat (heap_limit cfg)) \<and>
     map snd rs = map snd calls" .
  from sbrk_run_enable [OF assms(6)] assms(5)
  have "alt_irq_enabled irqs (heap_csrs s') = alt_irq_enabled irqs (heap_csrs s)" by simp
  with b show ?thesis by blast
qed

theorem sbrk_blocks_witness:
  "let cfg = \<lparr>max_heap_bytes = None, stack_check = False, exception_stack = False, heap_start = 100, heap_limit = 200\<rparr>;
       s = \<lparr>heap_end = 101, stack_limit_value = 0, exception_old_stack_limit = 0, heap_csrs = (\<lambda>_. 8), overflow_reports = 0\<rparr>
   in handed_out (fst (sbrk_run (\<lambda>_. 8) True cfg [(0, 10), (0, 90), (0, 4)] s)) = [(104, 10), (116, 4)] \<and>
      sorted_wrt (\<lambda>(a, n) (b, m). a + n \<le> b) (handed_out (fst (sbrk_run (\<lambda>_. 8) True cfg [(0, 10), (0, 90), (0, 4)] s)))"
proof -
  let ?cfg = "\<lparr>max_heap_bytes = None, stack_check = False, exception_stack = False, heap_start = 100, heap_limit = 200\<rparr> :: heap_config"
  let ?s = "\<lparr>heap_end = 101, stack_limit_value = 0, exception_old_stack_limit = 0, heap_csrs = (\<lambda>_. 8), overflow_reports = 0\<rparr> :: heap"
  let ?calls = "[(0, 10), (0, 90), (0, 4)] :: (u32 \<times> u32) list"
  have "bit (8 :: u32) 3" using mie_mask_bit [of 3] by simp
  then have "sorted_wrt (\<lambda>(a, n) (b, m). a + n \<le> b) (handed_out (fst (sbrk_run (\<lambda>_. 8) True ?cfg ?calls ?s)))"
    by (intro conjunct1 [OF sbrk_blocks [of ?cfg ?s ?calls "\<lambda>_. 8" True _ "snd (sbrk_run (\<lambda>_. 8) True ?cfg ?calls ?s)"]])
      (simp_all del: sbrk_run.simps)
  moreover have "handed_out (fst (sbrk_run (\<lambda>_. 8) True ?cfg ?calls ?s)) = [(104, 10), (116, 4)]"
    by (simp add: handed_out_def ALT_SBRK_def Let_def word_align_def alt_irq_disable_all_def alt_irq_enable_all_def
        csr_defs adjust_stack_limits_def)
  ultimately show ?thesis by simp
qed

text \<open>
  With a separate exception stack a growth of the heap that it borders on is always reported as an
  overflow: the old limit, not the old stack pointer, is compared with the new break.
\<close>

lemma exception_stack_always_reported:
  assumes "stack_check cfg" and "exception_stack cfg" and "exception_old_stack_limit s = prev" and "prev \<le> heap_end s"
  shows "overflow_reports s < overflow_reports (adjust_stack_limits cfg sp prev s)"
  using assms by (simp add: adjust_stack_limits_def alt_report_stack_overflow_def alt_set_stack_limit_def Let_def)

text \<open>After a negative size the memory of a block is handed out again.\<close>

lemma sbrk_shrinks:
  "let cfg = \<lparr>max_heap_bytes = None, stack_check = False, exception_stack = False, heap_start = 100, heap_limit = 200\<rparr>;
       s = \<lparr>heap_end = 100, stack_limit_value = 0, exception_old_stack_limit = 0, heap_csrs = (\<lambda>_. 0), overflow_reports = 0\<rparr>
   in map fst (fst (sbrk_run wr False cfg [(0, 8), (0, - 8), (0, 4)] s)) = [100, 108, 100]"
  by (simp add: ALT_SBRK_def word_align_def alt_irq_disable_all_def alt_irq_enable_all_def adjust_stack_limits_def Let_def)

text \<open>A negative size is not checked against the start of the heap.\<close>

lemma sbrk_below_start:
  "let cfg = \<lparr>max_heap_bytes = None, stack_check = False, exception_stack = False, heap_start = 100, heap_limit = 200\<rparr>;
       s = \<lparr>heap_end = 100, stack_limit_value = 0, exception_old_stack_limit = 0, heap_csrs = (\<lambda>_. 0), overflow_reports = 0\<rparr>
   in fst (ALT_SBRK wr False cfg sp (- 40) s) = 100 \<and> heap_end (snd (ALT_SBRK wr False cfg sp (- 40) s)) = 60"
  by (simp add: ALT_SBRK_def word_align_def alt_irq_disable_all_def alt_irq_enable_all_def adjust_stack_limits_def)

section \<open>The stack limit\<close>

lemma word_align_id: "4 dvd unat a \<Longrightarrow> word_align a = a"
proof -
  assume d: "4 dvd unat a"
  have "unat a < 2 ^ 32" using unsigned_less [of a] by simp
  with d have "unat a + 3 < 2 ^ 32" by (auto elim!: dvdE)
  from unat_word_align [OF this] d have "unat (word_align a) = unat a" by (auto elim!: dvdE)
  then show "word_align a = a" by (simp only: word_unat_eq_iff)
qed

lemma dvd_unat_add:
  fixes a b :: u32
  assumes "4 dvd unat a" and "4 dvd unat b"
  shows "4 dvd unat (a + b)"
proof -
  have "(4 :: nat) dvd 2 ^ 32" by simp
  with assms show ?thesis by (simp add: unat_word_ariths dvd_mod)
qed

lemma sbrk_stack_step:
  assumes "stack_check cfg" "\<not> exception_stack cfg" and "4 dvd unat (heap_end s)" "4 dvd unat incr"
    and "stack_limit_value s = heap_end s" and "ALT_SBRK wr irqs cfg sp incr s = (r, s')"
  shows "stack_limit_value s' = heap_end s' \<and> 4 dvd unat (heap_end s') \<and>
    overflow_reports s' = overflow_reports s + (if r \<noteq> -1 \<and> sp \<le> r + incr then 1 else 0)"
proof -
  have "heap_end s \<noteq> -1" using assms(3) by (auto simp: unsigned_minus_1_eq_mask mask_eq_exp_minus_1)
  then show ?thesis using assms dvd_unat_add [OF assms(3,4)]
    by (auto simp: ALT_SBRK_def Let_def word_align_id adjust_stack_limits_def alt_set_stack_limit_def
        alt_report_stack_overflow_def split: prod.splits if_splits option.splits)
qed

text \<open>C19: In the build without a separate exception stack, with the stack check on, and all sizes whole words, the stack limit is the break after any sequence of
  calls, and an overflow is reported exactly by the calls that move the break to the stack pointer or above it.\<close>

theorem stack_limit_follows_break:
  assumes "stack_check cfg" "\<not> exception_stack cfg"
    and "4 dvd unat (heap_end s)" "stack_limit_value s = heap_end s" "\<forall>(sp, incr) \<in> set calls. 4 dvd unat incr"
    and "sbrk_run wr irqs cfg calls s = (rs, s')"
  shows "stack_limit_value s' = heap_end s' \<and>
    overflow_reports s' = overflow_reports s +
      length (filter (\<lambda>((sp, incr), r). fst r \<noteq> -1 \<and> sp \<le> fst r + incr) (zip calls rs))"
  using assms(3-6)
proof (induction calls arbitrary: s rs)
  case Nil
  then show ?case by simp
next
  case (Cons call calls)
  obtain sp incr where c: "call = (sp, incr)" by fastforce
  obtain r s1 where 1: "ALT_SBRK wr irqs cfg sp incr s = (r, s1)" by fastforce
  obtain rs1 where 2: "sbrk_run wr irqs cfg calls s1 = (rs1, s')" "rs = (r, incr) # rs1"
    using Cons.prems(4) by (auto simp: c 1 split: prod.splits)
  have "4 dvd unat incr" "\<forall>(sp, incr) \<in> set calls. 4 dvd unat incr" using Cons.prems(3) c by auto
  with sbrk_stack_step [OF assms(1,2) Cons.prems(1) _ Cons.prems(2) 1] Cons.IH [OF _ _ _ 2(1)]
  show ?case by (simp add: c 2(2))
qed

theorem stack_limit_follows_break_witness:
  "let cfg = \<lparr>max_heap_bytes = None, stack_check = True, exception_stack = False, heap_start = 100, heap_limit = 200\<rparr>;
       s = \<lparr>heap_end = 100, stack_limit_value = 100, exception_old_stack_limit = 0, heap_csrs = (\<lambda>_. 8), overflow_reports = 0\<rparr>;
       s' = snd (sbrk_run (\<lambda>_. 8) True cfg [(180, 40), (180, 48), (170, 8)] s)
   in stack_limit_value s' = heap_end s' \<and> overflow_reports s' = 2"
proof -
  let ?cfg = "\<lparr>max_heap_bytes = None, stack_check = True, exception_stack = False, heap_start = 100, heap_limit = 200\<rparr> :: heap_config"
  let ?s = "\<lparr>heap_end = 100, stack_limit_value = 100, exception_old_stack_limit = 0, heap_csrs = (\<lambda>_. 8), overflow_reports = 0\<rparr> :: heap"
  let ?calls = "[(180, 40), (180, 48), (170, 8)] :: (u32 \<times> u32) list"
  let ?r = "sbrk_run (\<lambda>_. 8) True ?cfg ?calls ?s"
  have f: "fst ?r = [(100, 40), (140, 48), (188, 8)]"
    by (simp add: ALT_SBRK_def Let_def word_align_def alt_irq_disable_all_def alt_irq_enable_all_def
        csr_defs adjust_stack_limits_def alt_set_stack_limit_def alt_report_stack_overflow_def)
  have "stack_limit_value (snd ?r) = heap_end (snd ?r) \<and> overflow_reports (snd ?r) = overflow_reports ?s +
      length (filter (\<lambda>((sp, incr), r). fst r \<noteq> -1 \<and> sp \<le> fst r + incr) (zip ?calls (fst ?r)))"
    by (rule stack_limit_follows_break) (simp_all only: prod.collapse, simp_all)
  then show ?thesis unfolding f Let_def by simp
qed

text \<open>
  A size that is not a whole number of words ends this: the next call rounds the break up first and no longer
  finds the stack limit at it.  From then on the limit stays where it is, and no overflow is reported.
\<close>

lemma stack_check_lost:
  assumes "\<not> exception_stack cfg" and "stack_limit_value s < word_align (heap_end s)"
    and "ALT_SBRK wr irqs cfg sp incr s = (r, s')"
  shows "overflow_reports s' = overflow_reports s \<and> stack_limit_value s' = stack_limit_value s"
  using assms by (auto simp: ALT_SBRK_def Let_def adjust_stack_limits_def split: prod.splits if_splits option.splits)

lemma stack_check_lost_unaligned:
  "let cfg = \<lparr>max_heap_bytes = None, stack_check = True, exception_stack = False, heap_start = 100, heap_limit = 200\<rparr>;
       s = \<lparr>heap_end = 100, stack_limit_value = 100, exception_old_stack_limit = 0, heap_csrs = (\<lambda>_. 8), overflow_reports = 0\<rparr>;
       s' = snd (sbrk_run (\<lambda>_. 8) True cfg [(180, 10), (120, 88)] s)
   in heap_end s' = 200 \<and> stack_limit_value s' = 110 \<and> overflow_reports s' = 0"
  by (simp add: ALT_SBRK_def Let_def word_align_def alt_irq_disable_all_def alt_irq_enable_all_def
      csr_defs adjust_stack_limits_def alt_set_stack_limit_def alt_report_stack_overflow_def)

section \<open>Sections are copied\<close>

text \<open>The words of a region.\<close>

definition region :: "u32 \<Rightarrow> nat \<Rightarrow> u32 set" where
  "region p n = {p + 4 * of_nat k |k. k < n}"

lemma region_Suc: "region p (Suc n) = insert p (region (p + 4) n)"
proof -
  have "region p (Suc n) = (\<lambda>k. p + 4 * of_nat k) ` {..<Suc n}" by (auto simp: region_def)
  also have "\<dots> = insert p ((\<lambda>k. p + 4 * of_nat (Suc k)) ` {..<n})"
    by (simp only: lessThan_Suc_eq_insert_0 image_insert image_image) simp
  also have "\<dots> = insert p (region (p + 4) n)" by (auto simp: region_def algebra_simps)
  finally show ?thesis .
qed

lemma step_neq_0:
  assumes "0 < k" "k < 2 ^ 30"
  shows "(4 :: u32) * of_nat k \<noteq> 0"
proof
  assume "(4 :: u32) * of_nat k = 0"
  then have "(of_nat (4 * k) :: u32) = 0" by simp
  then have "2 ^ 32 dvd 4 * k" by (simp add: word_of_nat_eq_0_iff del: of_nat_mult)
  with assms show False by (auto dest: dvd_imp_le)
qed

lemma load_loop_copies:
  "n < 2 ^ 30 \<Longrightarrow> region from n \<inter> region to n = {} \<Longrightarrow>
   \<exists>mem'. load_loop from to (to + 4 * of_nat n) mem = Some mem' \<and>
          (\<forall>k < n. mem' (to + 4 * of_nat k) = mem (from + 4 * of_nat k)) \<and>
          (\<forall>a. a \<notin> region to n \<longrightarrow> mem' a = mem a)"
proof (induction n arbitrary: "from" to mem)
  case 0
  then show ?case by (subst load_loop.simps) simp
next
  case (Suc n)
  let ?mem = "mem(to := mem from)"
  from Suc.prems have "n < 2 ^ 30" "region (from + 4) n \<inter> region (to + 4) n = {}" by (auto simp: region_Suc)
  from Suc.IH [OF this, of ?mem] obtain mem' where l: "load_loop (from + 4) (to + 4) (to + 4 + 4 * of_nat n) ?mem = Some mem'"
    and c: "\<forall>k < n. mem' (to + 4 + 4 * of_nat k) = ?mem (from + 4 + 4 * of_nat k)"
    and o: "\<forall>a. a \<notin> region (to + 4) n \<longrightarrow> mem' a = ?mem a" by blast
  have "to \<noteq> to + 4 * of_nat (Suc n)" using step_neq_0 [of "Suc n"] Suc.prems(1) by simp
  with l have r: "load_loop from to (to + 4 * of_nat (Suc n)) mem = Some mem'"
    by (subst load_loop.simps) (simp add: algebra_simps)
  have nt: "to \<notin> region (to + 4) n"
  proof
    assume "to \<in> region (to + 4) n"
    then obtain k where "k < n" "to = to + 4 + 4 * of_nat k" by (auto simp: region_def)
    then have "(4 :: u32) * of_nat (Suc k) = 0" by (simp add: algebra_simps)
    with step_neq_0 [of "Suc k"] Suc.prems(1) \<open>k < n\<close> show False by simp
  qed
  have "mem' (to + 4 * of_nat k) = mem (from + 4 * of_nat k)" if "k < Suc n" for k
  proof (cases k)
    case 0
    with o nt show ?thesis by simp
  next
    case (Suc j)
    with that have j: "j < n" by simp
    then have "from + 4 + 4 * of_nat j \<in> region from (Suc n)" by (auto simp: region_Suc) (auto simp: region_def)
    then have "from + 4 + 4 * of_nat j \<noteq> to" using Suc.prems(2) by (auto simp: region_Suc)
    with c j have "mem' (to + 4 + 4 * of_nat j) = mem (from + 4 + 4 * of_nat j)" by simp
    with Suc show ?thesis by (simp add: algebra_simps)
  qed
  with r o show ?case by (auto simp: region_Suc)
qed

text \<open>
  A section of \<open>n\<close> words is placed when its end is \<open>n\<close> words on and it is either run where it is stored or
  its copy does not overlap the stored one; two sections are apart when loading one touches nothing of
  the other.
\<close>

definition placed :: "load_section \<Rightarrow> nat \<Rightarrow> bool" where
  "placed s n \<longleftrightarrow> n < 2 ^ 30 \<and> ram_end s = ram_start s + 4 * of_nat n \<and>
     (ram_start s = flash_start s \<or> region (flash_start s) n \<inter> region (ram_start s) n = {})"

definition untouched :: "load_section \<Rightarrow> nat \<Rightarrow> load_section \<Rightarrow> nat \<Rightarrow> bool" where
  "untouched s n t m \<longleftrightarrow>
     region (ram_start s) n \<inter> (region (ram_start t) m \<union> region (flash_start t) m) = {}"

definition loaded :: "load_section \<Rightarrow> nat \<Rightarrow> mem \<Rightarrow> mem \<Rightarrow> bool" where
  "loaded s n mem mem' \<longleftrightarrow> (\<forall>k < n. mem' (ram_start s + 4 * of_nat k) = mem (flash_start s + 4 * of_nat k))"

lemma section_loaded:
  assumes "placed s n"
  shows "\<exists>mem'. alt_load_section (flash_start s) (ram_start s) (ram_end s) mem = Inr mem' \<and> loaded s n mem mem' \<and>
                (\<forall>a. a \<notin> region (ram_start s) n \<longrightarrow> mem' a = mem a)"
proof (cases "ram_start s = flash_start s")
  case False
  with assms load_loop_copies [of n "flash_start s" "ram_start s" mem] show ?thesis
    by (auto simp: placed_def alt_load_section_def loaded_def)
qed (simp add: alt_load_section_def loaded_def)

lemma in_region: "k < n \<Longrightarrow> p + 4 * of_nat k \<in> region p n"
  by (auto simp: region_def)

lemma loaded_before:
  assumes "untouched s n t m" and "\<forall>a. a \<notin> region (ram_start s) n \<longrightarrow> mem1 a = mem a" and "loaded t m mem1 mem2"
  shows "loaded t m mem mem2"
  unfolding loaded_def
proof (intro allI impI)
  fix k assume k: "k < m"
  then have "flash_start t + 4 * of_nat k \<notin> region (ram_start s) n"
    using assms(1) in_region [of k m "flash_start t"] by (auto simp: untouched_def)
  with assms(2,3) k show "mem2 (ram_start t + 4 * of_nat k) = mem (flash_start t + 4 * of_nat k)"
    by (simp add: loaded_def)
qed

lemma loaded_after:
  assumes "untouched s n t m" and "loaded t m mem mem1" and "\<forall>a. a \<notin> region (ram_start s) n \<longrightarrow> mem2 a = mem1 a"
  shows "loaded t m mem mem2"
  unfolding loaded_def
proof (intro allI impI)
  fix k assume k: "k < m"
  then have "ram_start t + 4 * of_nat k \<notin> region (ram_start s) n"
    using assms(1) in_region [of k m "ram_start t"] by (auto simp: untouched_def)
  with assms(2,3) k show "mem2 (ram_start t + 4 * of_nat k) = mem (flash_start t + 4 * of_nat k)"
    by (simp add: loaded_def)
qed

text \<open>C33: When the linker places the three sections word aligned and apart, loading them returns and every
  one is in its place in RAM as it was stored, while the rest of memory is unchanged.\<close>

theorem alt_load_copies:
  assumes "placed rw n" and "placed ex m" and "placed ro l"
    and "untouched rw n ex m" and "untouched rw n ro l" and "untouched ex m rw n"
    and "untouched ex m ro l" and "untouched ro l rw n" and "untouched ro l ex m"
  shows "\<exists>mem'. alt_load rw ex ro flush mem = Inr (flush mem') \<and>
                loaded rw n mem mem' \<and> loaded ex m mem mem' \<and> loaded ro l mem mem' \<and>
                (\<forall>a. a \<notin> region (ram_start rw) n \<union> region (ram_start ex) m \<union> region (ram_start ro) l \<longrightarrow> mem' a = mem a)"
proof -
  from section_loaded [OF assms(1), of mem] obtain m1
    where 1: "alt_load_section (flash_start rw) (ram_start rw) (ram_end rw) mem = Inr m1" "loaded rw n mem m1"
      "\<forall>a. a \<notin> region (ram_start rw) n \<longrightarrow> m1 a = mem a" by blast
  from section_loaded [OF assms(2), of m1] obtain m2
    where 2: "alt_load_section (flash_start ex) (ram_start ex) (ram_end ex) m1 = Inr m2" "loaded ex m m1 m2"
      "\<forall>a. a \<notin> region (ram_start ex) m \<longrightarrow> m2 a = m1 a" by blast
  from section_loaded [OF assms(3), of m2] obtain m3
    where 3: "alt_load_section (flash_start ro) (ram_start ro) (ram_end ro) m2 = Inr m3" "loaded ro l m2 m3"
      "\<forall>a. a \<notin> region (ram_start ro) l \<longrightarrow> m3 a = m2 a" by blast
  have "alt_load rw ex ro flush mem = Inr (flush m3)" by (simp add: alt_load_def 1 2 3)
  moreover have "loaded rw n mem m3"
    by (rule loaded_after [OF assms(8) loaded_after [OF assms(6) 1(2) 2(3)] 3(3)])
  moreover have "loaded ex m mem m3"
    by (rule loaded_after [OF assms(9) loaded_before [OF assms(4) 1(3) 2(2)] 3(3)])
  moreover have "loaded ro l mem m3"
    by (rule loaded_before [OF assms(5) 1(3) loaded_before [OF assms(7) 2(3) 3(2)]])
  moreover have "\<forall>a. a \<notin> region (ram_start rw) n \<union> region (ram_start ex) m \<union> region (ram_start ro) l \<longrightarrow> m3 a = mem a"
    using 1(3) 2(3) 3(3) by simp
  ultimately show ?thesis by blast
qed

theorem alt_load_copies_witness:
  "let s = \<lambda>f r. \<lparr>flash_start = f, ram_start = r, ram_end = r + 4\<rparr>
   in \<exists>mem'. alt_load (s 0 100) (s 4 104) (s 8 8) id (\<lambda>a. a + 1) = Inr mem' \<and> mem' 100 = 1 \<and> mem' 104 = 5 \<and> mem' 8 = 9"
  using alt_load_copies [of "\<lparr>flash_start = 0, ram_start = 100, ram_end = 104\<rparr>" 1
      "\<lparr>flash_start = 4, ram_start = 104, ram_end = 108\<rparr>" 1 "\<lparr>flash_start = 8, ram_start = 8, ram_end = 12\<rparr>" 1
      id "\<lambda>a. a + 1"]
  by (auto simp: placed_def untouched_def region_def loaded_def)

section \<open>The cache lines that are flushed\<close>

lemma flush_loop_lines:
  "unat i + m * unat L < 2 ^ 32 \<Longrightarrow> unat end \<le> unat i + m * unat L \<Longrightarrow>
   0 < m \<longrightarrow> unat i + (m - 1) * unat L < unat end \<Longrightarrow>
   flush_loop L end i acc = Some (acc @ map (\<lambda>j. i + of_nat j * L) [0..<m], i + of_nat m * L)"
proof (induction m arbitrary: i acc)
  case 0
  then have "\<not> i < end" by (simp add: word_less_nat_alt)
  then show ?case by (subst flush_loop.simps) simp
next
  case (Suc m)
  from Suc.prems(3) have lt: "i < end" by (auto simp: word_less_nat_alt)
  have u: "unat (i + L) = unat i + unat L" using Suc.prems(1) by (intro unat_add_no_overflow) simp
  have "0 < m \<longrightarrow> unat (i + L) + (m - 1) * unat L < unat end" using Suc.prems(3) u by (cases m) simp_all
  with Suc.IH [of "i + L" "acc @ [i]"] Suc.prems u lt show ?case
    by (subst flush_loop.simps)
      (simp add: algebra_simps upt_conv_Cons map_Suc_upt [symmetric] del: upt_Suc)
qed

text \<open>The line an address is in.\<close>

definition line_of :: "nat \<Rightarrow> u32 \<Rightarrow> nat" where
  "line_of k a = unat a div 2 ^ k"

lemma line_of_step:
  assumes "k < 32" and "unat a + j * 2 ^ k < 2 ^ 32"
  shows "line_of k (a + of_nat j * 2 ^ k) = line_of k a + j"
proof -
  have "(of_nat j * 2 ^ k :: u32) = of_nat (j * 2 ^ k)" by simp
  moreover have "unat (of_nat (j * 2 ^ k) :: u32) = j * 2 ^ k"
    using assms(2) unfolding unat_of_nat by (intro mod_less) simp
  ultimately have "unat (a + of_nat j * 2 ^ k) = unat a + j * 2 ^ k"
    using assms(2) unat_add_no_overflow [of a "of_nat j * 2 ^ k"] by simp
  then show ?thesis by (simp add: line_of_def)
qed

lemma AND_line_mask: "start AND (2 ^ k - 1) = 0 \<longleftrightarrow> 2 ^ k dvd unat (start :: u32)" if "k < 32"
proof -
  have "start AND (2 ^ k - 1) = take_bit k start" by (simp add: take_bit_eq_mask mask_eq_exp_minus_1)
  moreover have "unat (take_bit k start) = unat start mod 2 ^ k"
    by (simp only: unsigned_take_bit_eq) (simp only: take_bit_eq_mod)
  ultimately show ?thesis by (metis dvd_eq_mod_eq_0 unat_eq_zero)
qed

lemma line_covered:
  fixes L s n i :: nat
  assumes "0 < L" and "i < n"
  shows "(s + i) div L < s div L + (n + L - 1) div L + (if L dvd s then 0 else 1)"
proof (rule less_mult_imp_div_less)
  let ?m = "(n + L - 1) div L"
  have "n + L - 1 = ?m * L + (n + L - 1) mod L" by (rule div_mult_mod_eq [symmetric])
  moreover have "(n + L - 1) mod L < L" using assms(1) by simp
  ultimately have m: "n \<le> ?m * L" using assms(1) by linarith
  have s: "s = s div L * L + s mod L" by (rule div_mult_mod_eq [symmetric])
  have r: "s mod L < L" using assms(1) by simp
  have "s + i < s div L * L + ?m * L + (if s mod L = 0 then 0 else L)"
  proof (cases "s mod L = 0")
    case True
    with s assms(2) m show ?thesis by simp
  next
    case False
    with s r assms(2) m show ?thesis by (simp only: if_False)
  qed
  then show "s + i < (s div L + ?m + (if L dvd s then 0 else 1)) * L"
    unfolding dvd_eq_mod_eq_0 add_mult_distrib by (cases "s mod L = 0") simp_all
qed

text \<open>With lines of a power of two bytes, flushing or invalidating a region away from the end of the
  address space returns, and the lines it touches are the consecutive ones from the line of the first byte,
  as many as the length rounded up to lines, and one more when the start is not aligned; so every line with
  a byte of the region is among them.\<close>

lemma dcache_flush_lines:
  assumes "0 < cache_size" and "k < 31" and "unat start + unat len + 2 * 2 ^ k < 2 ^ 32"
  shows "\<exists>ls. alt_dcache_flush cache_size (2 ^ k) start len = Some ls \<and>
              alt_dcache_flush_no_writeback cache_size (2 ^ k) start len = Some ls \<and>
              line_of k ` set ls = {line_of k start ..< line_of k start + (unat len + 2 ^ k - 1) div 2 ^ k +
                                      (if 2 ^ k dvd unat start then 0 else 1)} \<and>
              (\<forall>i < unat len. line_of k (start + of_nat i) \<in> line_of k ` set ls)"
proof -
  let ?L = "2 ^ k :: nat" let ?m = "(unat len + ?L - 1) div ?L"
  let ?ls = "map (\<lambda>j. start + of_nat j * 2 ^ k) [0..<?m + (if ?L dvd unat start then 0 else 1)] :: u32 list"
  have "?L < 2 ^ 32" using assms(2) by (intro power_strict_increasing) simp_all
  then have "unat (of_nat ?L :: u32) = ?L" unfolding unat_of_nat by (intro mod_less) simp
  then have L: "unat (2 ^ k :: u32) = ?L" by simp
  have "unat len + ?L - 1 = ?m * ?L + (unat len + ?L - 1) mod ?L" by (rule div_mult_mod_eq [symmetric])
  moreover have "(unat len + ?L - 1) mod ?L < ?L" by simp
  moreover have "0 < ?L" by simp
  ultimately have m: "?m * ?L < unat len + ?L" "unat len \<le> ?m * ?L" by linarith+
  have e: "unat (start + len) = unat start + unat len" using assms(3) by (intro unat_add_no_overflow) simp
  have "0 < ?m \<longrightarrow> unat start + (?m - 1) * ?L < unat (start + len)"
    using m(1) e by (cases ?m) auto
  then have f: "flush_loop (2 ^ k) (start + len) start [] =
      Some (map (\<lambda>j. start + of_nat j * 2 ^ k) [0..<?m], start + of_nat ?m * 2 ^ k)"
    using flush_loop_lines [of start ?m "2 ^ k" "start + len" "[]"] m e assms(3) by (simp add: L)
  have "alt_dcache_flush cache_size (2 ^ k) start len = Some ?ls"
    using assms(1,2) AND_line_mask [of k start] by (simp add: alt_dcache_flush_def f)
  moreover have "alt_dcache_flush_no_writeback cache_size (2 ^ k) start len = Some ?ls"
    using assms(1,2) AND_line_mask [of k start] by (simp add: alt_dcache_flush_no_writeback_def f)
  moreover have lines: "line_of k ` set ?ls = {line_of k start ..< line_of k start + ?m + (if ?L dvd unat start then 0 else 1)}"
  proof -
    let ?n = "?m + (if ?L dvd unat start then 0 else 1)"
    have "line_of k (start + of_nat j * 2 ^ k) = line_of k start + j" if "j < ?n" for j
    proof (rule line_of_step)
      have "j \<le> ?m" using that by (auto split: if_splits)
      then have "j * ?L \<le> ?m * ?L" by (rule mult_le_mono1)
      with m(1) assms(3) show "unat start + j * ?L < 2 ^ 32" by linarith
    qed (use assms(2) in simp)
    then have "line_of k ` set ?ls = (\<lambda>j. line_of k start + j) ` {0..<?n}" by (force simp: image_image)
    also have "\<dots> = {line_of k start ..< line_of k start + ?n}" using image_add_atLeastLessThan [of "line_of k start" 0 ?n] by (simp add: add.commute)
    finally show ?thesis by (simp only: add.assoc)
  qed
  moreover have "line_of k (start + of_nat i) \<in> line_of k ` set ?ls" if "i < unat len" for i
    unfolding lines
  proof -
    have "unat (start + of_nat i) = unat start + i"
      using that assms(3) by (simp add: unat_word_ariths unat_of_nat)
    then have l: "line_of k (start + of_nat i) = (unat start + i) div ?L" by (simp add: line_of_def)
    have "unat start div ?L \<le> (unat start + i) div ?L" by (rule div_le_mono) simp
    moreover have "(unat start + i) div ?L < unat start div ?L + ?m + (if ?L dvd unat start then 0 else 1)"
      by (rule line_covered [OF _ that]) simp
    ultimately show "line_of k (start + of_nat i) \<in>
       {line_of k start ..< line_of k start + ?m + (if ?L dvd unat start then 0 else 1)}"
      unfolding l atLeastLessThan_iff by (simp only: line_of_def)
  qed
  ultimately show ?thesis by blast
qed

text \<open>
  For an unaligned region that ends in the line it begins in, the extra line holds nothing of it: an
  invalidation drops what others have written there.
\<close>

lemma invalidate_next_line:
  "alt_dcache_flush_no_writeback 4096 32 1 1 = Some [1, 33] \<and> line_of 5 33 \<noteq> line_of 5 1"
  by (simp add: alt_dcache_flush_no_writeback_def flush_loop.simps line_of_def)

text \<open>An empty region that is not aligned is flushed too.\<close>

lemma invalidate_empty_region: "alt_dcache_flush_no_writeback 4096 32 1 0 = Some [1]"
  by (simp add: alt_dcache_flush_no_writeback_def flush_loop.simps)

text \<open>A region that wraps round is not flushed at all.\<close>

lemma flush_wraps: "start + len \<le> start \<Longrightarrow> start AND (L - 1) = 0 \<Longrightarrow> 0 < c \<Longrightarrow> alt_dcache_flush c L start len = Some []"
  by (subst (asm) not_less [symmetric]) (simp add: alt_dcache_flush_def flush_loop.simps)

section \<open>Blocks of thread-local storage\<close>

text \<open>
  The initialised data of a new block is a copy of the source, whatever the sizes, when the block is apart
  from it; the rest is zero when it lies behind the initialised data.
\<close>

lemma tls_block_data:
  assumes "\<forall>i < tdata_size l. \<not> tdata_source l + i - (p + (tbss_start l - tdata_start l)) < tbss_size l"
    and "i < tdata_size l"
  shows "alt_init_tls_block l p mem (p + i) = mem (tdata_source l + i)"
  using assms by (simp add: alt_init_tls_block_def memcpy_bytes_def memset_bytes_def Let_def)

lemma tls_block_zero:
  assumes "i < tbss_size l" and "\<not> tbss_start l - tdata_start l + i < tdata_size l"
  shows "alt_init_tls_block l p mem (p + (tbss_start l - tdata_start l) + i) = 0"
  using assms by (simp add: alt_init_tls_block_def memcpy_bytes_def memset_bytes_def Let_def algebra_simps)

end
