(* ===== verification/FpgaInf.thy ===== *)
theory FpgaInf
  imports HalPrelude
begin

text \<open>
  The table of FPGA interfaces (\<^verbatim>\<open>intel_fpga_api_cmn_inf.c\<close>, \<^verbatim>\<open>intel_fpga_api_niosv.c\<close>,
  \<^verbatim>\<open>sys/intel_fpga_api_cmn_inf.h\<close>): a vector that grows by \<^verbatim>\<open>realloc\<close>, and the opening and closing of
  an interface for register access and for interrupts.  The exception handler is the default one of
  \<^verbatim>\<open>intel_fpga_api_cmn_msg.c\<close>, which ends the program.
\<close>

section \<open>State\<close>

text \<open>
  The two sizes of a parameter, \<^verbatim>\<open>num_of_parameters\<close> and the number of 64-bit words of \<^verbatim>\<open>data\<close>, are the
  lengths of the lists; \<^verbatim>\<open>data_size\<close> is in bytes.
\<close>

record fpga_param =
  fp_version :: u16
  fp_param_id :: u16
  fp_data_size :: u32
  fp_data :: "u64 list"

record fpga_info =
  fi_guid_l :: u64
  fi_guid_h :: u64
  fi_instance_id :: u16
  fi_group_id :: u16
  fi_parameters :: "fpga_param list"
  fi_dfh_parent :: int
  fi_base_address :: u32
  fi_interrupt :: u16
  fi_mmio_opened :: bool
  fi_interrupt_opened :: bool

text \<open>The contents \<^verbatim>\<open>memset\<close> gives.\<close>

definition zero_param :: fpga_param where
  "zero_param = \<lparr>fp_version = 0, fp_param_id = 0, fp_data_size = 0, fp_data = []\<rparr>"

definition zero_info :: fpga_info where
  "zero_info = \<lparr>fi_guid_l = 0, fi_guid_h = 0, fi_instance_id = 0, fi_group_id = 0, fi_parameters = [],
     fi_dfh_parent = 0, fi_base_address = 0, fi_interrupt = 0, fi_mmio_opened = False,
     fi_interrupt_opened = False\<rparr>"

text \<open>
  \<open>iv_vec\<close> is the allocated array, as long as \<^verbatim>\<open>..._vec_reserved\<close> says (the null pointer when that is
  zero).  Allocations are numbered: \<open>iv_allocs\<close> counts the calls of \<^verbatim>\<open>malloc\<close> and \<^verbatim>\<open>realloc\<close>, and a
  function of the number and the size says which of them succeed.
\<close>

record fpga_vec =
  iv_vec :: "fpga_info list"
  iv_size :: nat
  iv_allocs :: nat

type_synonym allocator = "nat \<Rightarrow> nat \<Rightarrow> bool"

text \<open>\<^verbatim>\<open>fpga_throw_runtime_exception\<close> with the default handler.\<close>

definition fpga_throw :: "stuck + 'a" where
  "fpga_throw = Inl (Exits 1)"

definition allocate :: "allocator \<Rightarrow> nat \<Rightarrow> 'z fpga_vec_scheme \<Rightarrow> stuck + 'z fpga_vec_scheme" where
  "allocate ok bytes s = (if ok (iv_allocs s) bytes then Inr (s\<lparr>iv_allocs := iv_allocs s + 1\<rparr>) else fpga_throw)"

abbreviation (input) INFO_SIZE :: nat where "INFO_SIZE \<equiv> 40"

text \<open>Access through \<^verbatim>\<open>common_fpga_interface_info_vec_at\<close>.\<close>

definition info_at :: "nat \<Rightarrow> 'z fpga_vec_scheme \<Rightarrow> stuck + fpga_info" where
  "info_at i s = (if i < length (iv_vec s) then Inr (iv_vec s ! i) else Inl OutOfBounds)"

definition set_info ::
    "nat \<Rightarrow> (fpga_info \<Rightarrow> fpga_info) \<Rightarrow> 'z fpga_vec_scheme \<Rightarrow> stuck + 'z fpga_vec_scheme" where
  "set_info i f s =
     (if i < length (iv_vec s) then Inr (s\<lparr>iv_vec := (iv_vec s)[i := f (iv_vec s ! i)]\<rparr>) else Inl OutOfBounds)"

section \<open>The vector\<close>

definition vec_reserve :: "allocator \<Rightarrow> nat \<Rightarrow> 'z fpga_vec_scheme \<Rightarrow> stuck + 'z fpga_vec_scheme" where
  "vec_reserve ok n s =
     (if length (iv_vec s) < n then
        andThen (allocate ok (n * INFO_SIZE) s) (\<lambda>s1.
          Inr (s1\<lparr>iv_vec := iv_vec s1 @ replicate (n - length (iv_vec s1)) zero_info\<rparr>))
      else
        let s1 = (if n < iv_size s then
                    s\<lparr>iv_vec := take n (iv_vec s) @ replicate (iv_size s - n) zero_info @ drop (iv_size s) (iv_vec s),
                      iv_size := n\<rparr>
                  else s)
        in Inr (if n = 0 then s1\<lparr>iv_vec := [], iv_size := 0\<rparr> else s1))"

definition vec_resize :: "allocator \<Rightarrow> nat \<Rightarrow> 'z fpga_vec_scheme \<Rightarrow> stuck + 'z fpga_vec_scheme" where
  "vec_resize ok n s = andThen (vec_reserve ok n s) (\<lambda>s1. Inr (s1\<lparr>iv_size := n\<rparr>))"

section \<open>Interfaces\<close>

definition fpga_get_num_of_interfaces :: "'z fpga_vec_scheme \<Rightarrow> nat" where
  "fpga_get_num_of_interfaces s = iv_size s"

text \<open>A null \<open>info\<close> is \<open>None\<close>; the result has what the caller's structure holds afterwards.\<close>

definition fpga_get_interface_at ::
    "nat \<Rightarrow> fpga_info option \<Rightarrow> 'z fpga_vec_scheme \<Rightarrow> stuck + (bool \<times> fpga_info option)" where
  "fpga_get_interface_at index info s =
     (if index < iv_size s \<and> info \<noteq> None then andThen (info_at index s) (\<lambda>i. Inr (True, Some i))
      else Inr (False, info))"

abbreviation (input) MMIO_INVALID :: u32 where "MMIO_INVALID \<equiv> 0xFFFFFFFF"

definition fpga_open :: "nat \<Rightarrow> 'z fpga_vec_scheme \<Rightarrow> stuck + (u32 \<times> 'z fpga_vec_scheme)" where
  "fpga_open index s =
     (if index < iv_size s then
        andThen (info_at index s) (\<lambda>i.
          if fi_mmio_opened i then Inr (MMIO_INVALID, s)
          else andThen (set_info index (\<lambda>i. i\<lparr>fi_mmio_opened := True\<rparr>) s) (\<lambda>s1. Inr (fi_base_address i, s1)))
      else Inr (MMIO_INVALID, s))"

definition fpga_close :: "nat \<Rightarrow> 'z fpga_vec_scheme \<Rightarrow> stuck + 'z fpga_vec_scheme" where
  "fpga_close index s =
     (if index < iv_size s then set_info index (\<lambda>i. i\<lparr>fi_mmio_opened := False\<rparr>) s else Inr s)"

definition fpga_interrupt_open :: "nat \<Rightarrow> 'z fpga_vec_scheme \<Rightarrow> stuck + (int \<times> 'z fpga_vec_scheme)" where
  "fpga_interrupt_open index s =
     (if index < iv_size s then
        andThen (info_at index s) (\<lambda>i.
          if fi_interrupt_opened i then Inr (-1, s)
          else andThen (set_info index (\<lambda>i. i\<lparr>fi_interrupt_opened := True\<rparr>) s) (\<lambda>s1. Inr (int index, s1)))
      else Inr (-1, s))"

definition fpga_interrupt_close :: "nat \<Rightarrow> 'z fpga_vec_scheme \<Rightarrow> stuck + 'z fpga_vec_scheme" where
  "fpga_interrupt_close index s =
     (if index < iv_size s then set_info index (\<lambda>i. i\<lparr>fi_interrupt_opened := False\<rparr>) s else Inr s)"

text \<open>The clean-up of \<^verbatim>\<open>intel_fpga_platform_api_niosv.c\<close>.\<close>

definition fpga_platform_cleanup :: "allocator \<Rightarrow> 'z fpga_vec_scheme \<Rightarrow> stuck + 'z fpga_vec_scheme" where
  "fpga_platform_cleanup ok s = (if 0 < iv_size s then vec_resize ok 0 s else Inr s)"

section \<open>Lemmas\<close>

text \<open>The vector is well formed when its elements are allocated and those past its size are zero.\<close>

definition vec_ok :: "'z fpga_vec_scheme \<Rightarrow> bool" where
  "vec_ok s \<longleftrightarrow> iv_size s \<le> length (iv_vec s) \<and> (\<forall>i. iv_size s \<le> i \<and> i < length (iv_vec s) \<longrightarrow> iv_vec s ! i = zero_info)"

lemma vec_reserve_ok:
  assumes "vec_reserve ok n s = Inr s'" "vec_ok s"
  shows "vec_ok s'" "n \<le> length (iv_vec s')" "iv_size s' = min n (iv_size s)"
    "take n (iv_vec s') = take (min n (iv_size s)) (iv_vec s) @ replicate (n - iv_size s) zero_info"
proof -
  have z: "take n (iv_vec s) = take (min n (iv_size s)) (iv_vec s) @ replicate (n - iv_size s) zero_info"
    if "n \<le> length (iv_vec s)"
    using that assms(2) by (intro nth_equalityI) (auto simp: vec_ok_def nth_append min_def split: if_splits)
  have f: "iv_vec s @ replicate (n - length (iv_vec s)) zero_info =
      take (iv_size s) (iv_vec s) @ replicate (n - iv_size s) zero_info"
    if "length (iv_vec s) < n"
    using that assms(2) by (intro nth_equalityI) (auto simp: vec_ok_def nth_append split: if_splits)
  have "vec_ok s' \<and> n \<le> length (iv_vec s') \<and> iv_size s' = min n (iv_size s) \<and>
      take n (iv_vec s') = take (min n (iv_size s)) (iv_vec s) @ replicate (n - iv_size s) zero_info"
  proof (cases "length (iv_vec s) < n")
    case True
    with assms(1) have s': "iv_vec s' = iv_vec s @ replicate (n - length (iv_vec s)) zero_info" "iv_size s' = iv_size s"
      by (auto simp: vec_reserve_def allocate_def fpga_throw_def split: if_splits)
    with True f assms(2) show ?thesis by (auto simp: vec_ok_def nth_append)
  next
    case False
    show ?thesis
    proof (cases "n < iv_size s")
      case True
      let ?v = "take n (iv_vec s) @ replicate (iv_size s - n) zero_info @ drop (iv_size s) (iv_vec s)"
      from True False assms(1) have s': "iv_vec s' = (if n = 0 then [] else ?v)" "iv_size s' = n"
        by (auto simp: vec_reserve_def Let_def)
      have "?v ! i = zero_info" if "n \<le> i" "i < length (iv_vec s)" for i
        using that assms(2) True by (auto simp: vec_ok_def nth_append)
      with True False assms(2) show ?thesis by (auto simp: vec_ok_def s')
    next
      case n: False
      with False assms(1) have s': "s' = (if n = 0 then s\<lparr>iv_vec := [], iv_size := 0\<rparr> else s)"
        by (auto simp: vec_reserve_def Let_def)
      with z n False assms(2) show ?thesis by (auto simp: vec_ok_def)
    qed
  qed
  then show "vec_ok s'" "n \<le> length (iv_vec s')" "iv_size s' = min n (iv_size s)"
    "take n (iv_vec s') = take (min n (iv_size s)) (iv_vec s) @ replicate (n - iv_size s) zero_info" by simp_all
qed

lemma vec_resize_ok:
  assumes "vec_resize ok n s = Inr s'" "vec_ok s"
  shows "vec_ok s'" "iv_size s' = n"
    "take n (iv_vec s') = take (min n (iv_size s)) (iv_vec s) @ replicate (n - iv_size s) zero_info"
proof -
  from assms(1) obtain s1 where s1: "vec_reserve ok n s = Inr s1" "s' = s1\<lparr>iv_size := n\<rparr>"
    by (auto simp: vec_resize_def andThen_Inr_iff)
  note r = vec_reserve_ok [OF s1(1) assms(2)]
  show "iv_size s' = n" "take n (iv_vec s') = take (min n (iv_size s)) (iv_vec s) @ replicate (n - iv_size s) zero_info"
    using s1 r by simp_all
  show "vec_ok s'" using r s1(2) by (auto simp: vec_ok_def)
qed

lemma vec_resize_returns_ok: "\<exists>s'. vec_resize (\<lambda>_ _. True) n s = Inr s'"
  by (auto simp: vec_resize_def vec_reserve_def allocate_def Let_def)

lemma vec_resize_fails:
  "vec_resize ok n s = Inl e \<longleftrightarrow> e = Exits 1 \<and> length (iv_vec s) < n \<and> \<not> ok (iv_allocs s) (n * INFO_SIZE)"
  by (auto simp: vec_resize_def vec_reserve_def allocate_def fpga_throw_def andThen_Inl_iff Let_def)

section \<open>Properties\<close>

text \<open>Resizing the interface table keeps the entries both sizes have, makes new ones zero whatever
  was there before, and ends the program exactly when it needs memory there is none for.\<close>

lemma vec_resize_vector:
  assumes "vec_ok s"
  shows "case vec_resize ok n s of
           Inr s' \<Rightarrow> vec_ok s' \<and> iv_size s' = n \<and>
             take n (iv_vec s') = take (min n (iv_size s)) (iv_vec s) @ replicate (n - iv_size s) zero_info
         | Inl e \<Rightarrow> e = Exits 1 \<and> length (iv_vec s) < n \<and> \<not> ok (iv_allocs s) (n * INFO_SIZE)"
proof (cases "vec_resize ok n s")
  case (Inl e)
  then show ?thesis using vec_resize_fails [of ok n s e] by simp
next
  case (Inr s')
  with vec_resize_ok [OF Inr assms] show ?thesis by simp
qed

text \<open>C40: Opening an interface gives its base address to the first caller and the invalid handle to
  every other until it is closed; then it can be opened again.  Its interrupt and the other
  interfaces are not affected.\<close>

theorem fpga_open_exclusive:
  assumes "index < iv_size s" and "vec_ok s" and "\<not> fi_mmio_opened (iv_vec s ! index)"
  shows "\<exists>s1 s2. fpga_open index s = Inr (fi_base_address (iv_vec s ! index), s1) \<and>
           fpga_open index s1 = Inr (MMIO_INVALID, s1) \<and>
           fpga_close index s1 = Inr s2 \<and> s2 = s \<and>
           fi_interrupt_opened (iv_vec s1 ! index) = fi_interrupt_opened (iv_vec s ! index) \<and>
           (\<forall>j. j \<noteq> index \<longrightarrow> iv_vec s1 ! j = iv_vec s ! j) \<and> vec_ok s1"
proof -
  have l: "index < length (iv_vec s)" using assms by (simp add: vec_ok_def)
  let ?s1 = "s\<lparr>iv_vec := (iv_vec s)[index := (iv_vec s ! index)\<lparr>fi_mmio_opened := True\<rparr>]\<rparr>"
  have o: "fpga_open index s = Inr (fi_base_address (iv_vec s ! index), ?s1)"
    using assms l by (simp add: fpga_open_def info_at_def set_info_def)
  have "(iv_vec s)[index := (iv_vec s ! index)\<lparr>fi_mmio_opened := False\<rparr>] = iv_vec s"
    using assms(3) by (cases "iv_vec s ! index") (simp add: list_update_same_conv l)
  then have c: "fpga_close index ?s1 = Inr s"
    using assms l by (simp add: fpga_close_def set_info_def)
  show ?thesis
    using assms l o c by (intro exI [of _ ?s1] exI [of _ s])
      (auto simp: fpga_open_def info_at_def vec_ok_def nth_list_update)
qed

definition fpga_vec0 :: fpga_vec where
  "fpga_vec0 = \<lparr>iv_vec = [zero_info\<lparr>fi_base_address := 0x1000\<rparr>, zero_info], iv_size = 1, iv_allocs = 1\<rparr>"

lemma fpga_vec0_ok: "vec_ok fpga_vec0"
  by (auto simp: vec_ok_def fpga_vec0_def nth_Cons split: nat.splits)

theorem fpga_open_exclusive_witness:
  "\<exists>s1. fpga_open 0 fpga_vec0 = Inr (0x1000, s1) \<and> fpga_open 0 s1 = Inr (MMIO_INVALID, s1)"
  using fpga_open_exclusive [of 0 fpga_vec0] fpga_vec0_ok by (auto simp: fpga_vec0_def zero_info_def)

end
