(* ===== verification/FpgaApi.thy ===== *)
theory FpgaApi
  imports Irq FpgaInf
begin

text \<open>
  The programming interface for a component in the FPGA (\<^verbatim>\<open>sys/intel_fpga_api_niosv.h\<close>, \<^verbatim>\<open>io.h\<close>): access to
  its registers in units of 8 to 512 bits, its interrupt, and messages (\<^verbatim>\<open>intel_fpga_api_cmn_msg.c\<close>).
\<close>

section \<open>Accesses on the bus\<close>

text \<open>
  A load or store of a device may do anything to the hardware \<open>'h\<close>, so the accesses are the components of
  a record.  Memory is one such device: little endian, a byte for every address.
\<close>

record 'h bus =
  lbu :: "u32 \<Rightarrow> 'h \<Rightarrow> u8 \<times> 'h"
  lhu :: "u32 \<Rightarrow> 'h \<Rightarrow> u16 \<times> 'h"
  lw :: "u32 \<Rightarrow> 'h \<Rightarrow> u32 \<times> 'h"
  sb :: "u32 \<Rightarrow> u8 \<Rightarrow> 'h \<Rightarrow> 'h"
  sh :: "u32 \<Rightarrow> u16 \<Rightarrow> 'h \<Rightarrow> 'h"
  sw :: "u32 \<Rightarrow> u32 \<Rightarrow> 'h \<Rightarrow> 'h"

definition IORD_8DIRECT :: "'h bus \<Rightarrow> u32 \<Rightarrow> u32 \<Rightarrow> 'h \<Rightarrow> u8 \<times> 'h" where
  "IORD_8DIRECT bus base ofs h = lbu bus (base + ofs) h"

definition IORD_16DIRECT :: "'h bus \<Rightarrow> u32 \<Rightarrow> u32 \<Rightarrow> 'h \<Rightarrow> u16 \<times> 'h" where
  "IORD_16DIRECT bus base ofs h = lhu bus (base + ofs) h"

definition IORD_32DIRECT :: "'h bus \<Rightarrow> u32 \<Rightarrow> u32 \<Rightarrow> 'h \<Rightarrow> u32 \<times> 'h" where
  "IORD_32DIRECT bus base ofs h = lw bus (base + ofs) h"

definition IOWR_8DIRECT :: "'h bus \<Rightarrow> u32 \<Rightarrow> u32 \<Rightarrow> u8 \<Rightarrow> 'h \<Rightarrow> 'h" where
  "IOWR_8DIRECT bus base ofs v h = sb bus (base + ofs) v h"

definition IOWR_16DIRECT :: "'h bus \<Rightarrow> u32 \<Rightarrow> u32 \<Rightarrow> u16 \<Rightarrow> 'h \<Rightarrow> 'h" where
  "IOWR_16DIRECT bus base ofs v h = sh bus (base + ofs) v h"

definition IOWR_32DIRECT :: "'h bus \<Rightarrow> u32 \<Rightarrow> u32 \<Rightarrow> u32 \<Rightarrow> 'h \<Rightarrow> 'h" where
  "IOWR_32DIRECT bus base ofs v h = sw bus (base + ofs) v h"

text \<open>The native accesses count registers of the width of the bus, 32 bits.\<close>

definition IORD :: "'h bus \<Rightarrow> u32 \<Rightarrow> u32 \<Rightarrow> 'h \<Rightarrow> u32 \<times> 'h" where
  "IORD bus base regnum h = lw bus (base + regnum * 4) h"

definition IOWR :: "'h bus \<Rightarrow> u32 \<Rightarrow> u32 \<Rightarrow> u32 \<Rightarrow> 'h \<Rightarrow> 'h" where
  "IOWR bus base regnum v h = sw bus (base + regnum * 4) v h"

section \<open>Registers of an interface\<close>

definition fpga_read_8 :: "'h bus \<Rightarrow> u32 \<Rightarrow> u32 \<Rightarrow> 'h \<Rightarrow> u8 \<times> 'h" where
  "fpga_read_8 bus handle ofs h = IORD_8DIRECT bus handle ofs h"

definition fpga_write_8 :: "'h bus \<Rightarrow> u32 \<Rightarrow> u32 \<Rightarrow> u8 \<Rightarrow> 'h \<Rightarrow> 'h" where
  "fpga_write_8 bus handle ofs v h = IOWR_8DIRECT bus handle ofs v h"

definition fpga_read_16 :: "'h bus \<Rightarrow> u32 \<Rightarrow> u32 \<Rightarrow> 'h \<Rightarrow> u16 \<times> 'h" where
  "fpga_read_16 bus handle ofs h = IORD_16DIRECT bus handle ofs h"

definition fpga_write_16 :: "'h bus \<Rightarrow> u32 \<Rightarrow> u32 \<Rightarrow> u16 \<Rightarrow> 'h \<Rightarrow> 'h" where
  "fpga_write_16 bus handle ofs v h = IOWR_16DIRECT bus handle ofs v h"

definition fpga_read_32 :: "'h bus \<Rightarrow> u32 \<Rightarrow> u32 \<Rightarrow> 'h \<Rightarrow> u32 \<times> 'h" where
  "fpga_read_32 bus handle ofs h = IORD_32DIRECT bus handle ofs h"

definition fpga_write_32 :: "'h bus \<Rightarrow> u32 \<Rightarrow> u32 \<Rightarrow> u32 \<Rightarrow> 'h \<Rightarrow> 'h" where
  "fpga_write_32 bus handle ofs v h = IOWR_32DIRECT bus handle ofs v h"

definition fpga_read_64 :: "'h bus \<Rightarrow> u32 \<Rightarrow> u32 \<Rightarrow> 'h \<Rightarrow> u64 \<times> 'h" where
  "fpga_read_64 bus handle ofs h =
     (let (v0, h1) = IORD_32DIRECT bus handle ofs h;
          (v1, h2) = IORD_32DIRECT bus handle (ofs + 4) h1
      in (ucast v0 OR push_bit 32 (ucast v1), h2))"

definition fpga_write_64 :: "'h bus \<Rightarrow> u32 \<Rightarrow> u32 \<Rightarrow> u64 \<Rightarrow> 'h \<Rightarrow> 'h" where
  "fpga_write_64 bus handle ofs v h =
     IOWR_32DIRECT bus handle (ofs + 4) (ucast (drop_bit 32 v)) (IOWR_32DIRECT bus handle ofs (ucast v) h)"

text \<open>A buffer of bytes is read and written through a pointer to words, which are little endian.\<close>

definition word_bytes :: "u32 \<Rightarrow> u8 list" where
  "word_bytes w = [ucast w, ucast (drop_bit 8 w), ucast (drop_bit 16 w), ucast (drop_bit 24 w)]"

definition bytes_word :: "u8 list \<Rightarrow> u32" where
  "bytes_word bs = ucast (bs ! 0) OR push_bit 8 (ucast (bs ! 1)) OR push_bit 16 (ucast (bs ! 2)) OR push_bit 24 (ucast (bs ! 3))"

fun read_words :: "'h bus \<Rightarrow> nat \<Rightarrow> u32 \<Rightarrow> u32 \<Rightarrow> 'h \<Rightarrow> u8 list \<times> 'h" where
  "read_words bus 0 handle ofs h = ([], h)"
| "read_words bus (Suc n) handle ofs h =
     (let (w, h1) = IORD_32DIRECT bus handle ofs h;
          (bs, h2) = read_words bus n handle (ofs + 4) h1
      in (word_bytes w @ bs, h2))"

fun write_words :: "'h bus \<Rightarrow> nat \<Rightarrow> u32 \<Rightarrow> u32 \<Rightarrow> u8 list \<Rightarrow> 'h \<Rightarrow> 'h" where
  "write_words bus 0 handle ofs ptr h = h"
| "write_words bus (Suc n) handle ofs ptr h =
     write_words bus n handle (ofs + 4) (drop 4 ptr) (IOWR_32DIRECT bus handle ofs (bytes_word (take 4 ptr)) h)"

definition fpga_read_512 :: "'h bus \<Rightarrow> u32 \<Rightarrow> u32 \<Rightarrow> 'h \<Rightarrow> u8 list \<times> 'h" where
  "fpga_read_512 bus handle ofs h = read_words bus (512 div 32) handle ofs h"

definition fpga_write_512 :: "'h bus \<Rightarrow> u32 \<Rightarrow> u32 \<Rightarrow> u8 list \<Rightarrow> 'h \<Rightarrow> stuck + 'h" where
  "fpga_write_512 bus handle ofs ptr h =
     (if length ptr < 64 then Inl OutOfBounds else Inr (write_words bus (512 div 32) handle ofs ptr h))"

section \<open>The interrupt of an interface\<close>

text \<open>
  The handle is the number of the interrupt, an \<^verbatim>\<open>int\<close>; it indexes the table of handlers without a check.
\<close>

definition irq_handler_at :: "int \<Rightarrow> ('f option \<times> 'c) list \<Rightarrow> stuck + 'f option" where
  "irq_handler_at handle tab =
     (if 0 \<le> handle \<and> nat handle < length tab then Inr (fst (tab ! nat handle)) else Inl OutOfBounds)"

definition fpga_enable_interrupt ::
    "csrs \<Rightarrow> bool \<Rightarrow> ('f option \<times> 'c) list \<Rightarrow> int \<Rightarrow> csrs \<Rightarrow> stuck + (int \<times> csrs)" where
  "fpga_enable_interrupt wr irqs tab handle c =
     andThen (irq_handler_at handle tab) (\<lambda>handler.
       Inr (if handler = None then (-1, c)
            else let (ret, c1) = alt_ic_irq_enable wr irqs 0 (of_int handle) c
                 in (if ret < 0 then -2 else ret, c1)))"

definition fpga_disable_interrupt ::
    "csrs \<Rightarrow> bool \<Rightarrow> ('f option \<times> 'c) list \<Rightarrow> int \<Rightarrow> csrs \<Rightarrow> stuck + (int \<times> csrs)" where
  "fpga_disable_interrupt wr irqs tab handle c =
     andThen (irq_handler_at handle tab) (\<lambda>handler.
       Inr (if handler = None then (-1, c)
            else if alt_ic_irq_enabled irqs 0 (of_int handle) c \<noteq> 0 then
              let (ret, c1) = alt_ic_irq_disable wr irqs 0 (of_int handle) c
              in (if ret < 0 then -2 else ret, c1)
            else (-3, c)))"

text \<open>Registration makes every error negative by setting the sign bit.\<close>

definition fpga_register_isr :: "('f option \<times> 'c) list \<Rightarrow> int \<Rightarrow> 'f option \<Rightarrow> 'c \<Rightarrow> stuck + int" where
  "fpga_register_isr tab handle isr isr_context =
     andThen (irq_handler_at handle tab) (\<lambda>handler.
       let ret = (if handler \<noteq> None \<and> isr \<noteq> None then 1 else 0);
           rc = alt_ic_isr_register 0 (of_int handle) isr isr_context
       in Inr (if rc \<noteq> 0 then sint ((of_int rc :: u32) OR push_bit 31 1) else ret))"

definition fpga_malloc :: "(u32 \<Rightarrow> 's \<Rightarrow> u32 option \<times> 's) \<Rightarrow> u32 \<Rightarrow> u32 \<Rightarrow> 's \<Rightarrow> u32 option \<times> 's" where
  "fpga_malloc malloc handle n s = malloc n s"

definition fpga_free :: "(u32 option \<Rightarrow> 's \<Rightarrow> 's) \<Rightarrow> u32 \<Rightarrow> u32 option \<Rightarrow> 's \<Rightarrow> 's" where
  "fpga_free free handle address s = free address s"

definition fpga_get_physical_address :: "u32 \<Rightarrow> u32" where
  "fpga_get_physical_address address = address"

section \<open>Messages\<close>

text \<open>
  The two handlers can be replaced.  Messages are given as formatted; \<open>put\<close> is the C library's output of
  a text, and \<open>show_dbg\<close> is \<^verbatim>\<open>g_common_show_dbg_msg\<close>.  The result is the count of the message itself.
  The default handler of exceptions prints and then ends the program, which the model only says.
\<close>

datatype msg_type = FPGA_MSG_PRINTF_INFO | FPGA_MSG_PRINTF_WARNING | FPGA_MSG_PRINTF_ERROR | FPGA_MSG_PRINTF_DEBUG

record 's msg_handlers =
  msg_printf :: "msg_type \<Rightarrow> string \<Rightarrow> 's \<Rightarrow> stuck + (int \<times> 's)"
  runtime_exception :: "string \<Rightarrow> 's \<Rightarrow> stuck + 's"

definition prefixed :: "(string \<Rightarrow> 's \<Rightarrow> 's) \<Rightarrow> string \<Rightarrow> string \<Rightarrow> 's \<Rightarrow> stuck + (int \<times> 's)" where
  "prefixed put prefix msg s = Inr (int (length msg), put [CHR 0x0A] (put msg (put prefix s)))"

fun default_printf :: "(string \<Rightarrow> 's \<Rightarrow> 's) \<Rightarrow> bool \<Rightarrow> msg_type \<Rightarrow> string \<Rightarrow> 's \<Rightarrow> stuck + (int \<times> 's)" where
  "default_printf put show_dbg FPGA_MSG_PRINTF_INFO msg s = prefixed put ''INFO: '' msg s"
| "default_printf put show_dbg FPGA_MSG_PRINTF_WARNING msg s = prefixed put ''WARNING: '' msg s"
| "default_printf put show_dbg FPGA_MSG_PRINTF_ERROR msg s = prefixed put ''ERROR: '' msg s"
| "default_printf put show_dbg FPGA_MSG_PRINTF_DEBUG msg s =
     (if show_dbg then prefixed put ''DEBUG: '' msg s else Inr (0, s))"

definition default_runtime_exception_handler :: "string \<Rightarrow> 's \<Rightarrow> stuck + 's" where
  "default_runtime_exception_handler msg s = Inl (Exits 1)"

definition default_handlers :: "(string \<Rightarrow> 's \<Rightarrow> 's) \<Rightarrow> bool \<Rightarrow> 's msg_handlers" where
  "default_handlers put show_dbg =
     \<lparr>msg_printf = default_printf put show_dbg, runtime_exception = default_runtime_exception_handler\<rparr>"

definition fpga_msg_printf :: "'s msg_handlers \<Rightarrow> msg_type \<Rightarrow> string \<Rightarrow> 's \<Rightarrow> stuck + (int \<times> 's)" where
  "fpga_msg_printf hs t msg s = msg_printf hs t msg s"

definition fpga_throw_runtime_exception :: "'s msg_handlers \<Rightarrow> string \<Rightarrow> 's \<Rightarrow> stuck + 's" where
  "fpga_throw_runtime_exception hs msg s = runtime_exception hs msg s"

definition fpga_platform_register_printf ::
    "(msg_type \<Rightarrow> string \<Rightarrow> 's \<Rightarrow> stuck + (int \<times> 's)) \<Rightarrow> 's msg_handlers \<Rightarrow> 's msg_handlers" where
  "fpga_platform_register_printf f hs = hs\<lparr>msg_printf := f\<rparr>"

definition fpga_platform_register_runtime_exception_handler ::
    "(string \<Rightarrow> 's \<Rightarrow> stuck + 's) \<Rightarrow> 's msg_handlers \<Rightarrow> 's msg_handlers" where
  "fpga_platform_register_runtime_exception_handler f hs = hs\<lparr>runtime_exception := f\<rparr>"

section \<open>Memory\<close>

text \<open>Memory as a device: stores and loads of consecutive bytes, at addresses that wrap round.\<close>

definition store_bytes :: "u32 \<Rightarrow> u8 list \<Rightarrow> (u32 \<Rightarrow> u8) \<Rightarrow> (u32 \<Rightarrow> u8)" where
  "store_bytes a bs m = (\<lambda>x. if unat (x - a) < length bs then bs ! unat (x - a) else m x)"

definition load_bytes :: "u32 \<Rightarrow> nat \<Rightarrow> (u32 \<Rightarrow> u8) \<Rightarrow> u8 list" where
  "load_bytes a n m = map (\<lambda>i. m (a + of_nat i)) [0..<n]"

definition ram :: "(u32 \<Rightarrow> u8) bus" where
  "ram = \<lparr>lbu = (\<lambda>a m. (m a, m)),
          lhu = (\<lambda>a m. (ucast (m a) OR push_bit 8 (ucast (m (a + 1))), m)),
          lw = (\<lambda>a m. (bytes_word (load_bytes a 4 m), m)),
          sb = (\<lambda>a v. store_bytes a [v]),
          sh = (\<lambda>a v. store_bytes a [ucast v, ucast (drop_bit 8 v)]),
          sw = (\<lambda>a v. store_bytes a (word_bytes v))\<rparr>"

lemma word_bytes_length [simp]: "length (word_bytes w) = 4"
  by (simp add: word_bytes_def)

lemma no_high_bit: "8 \<le> n \<Longrightarrow> \<not> bit (a :: u8) n"
  by (auto dest: bit_imp_le_length)

lemma word_of_bytes [simp]: "word_bytes (bytes_word [a, b, c, d]) = [a, b, c, d]"
  unfolding word_bytes_def bytes_word_def
  by (auto intro!: bit_word_eqI simp: bit_simps no_high_bit)

lemma bytes_of_word [simp]: "bytes_word (word_bytes w) = w"
proof (rule bit_word_eqI)
  fix n assume "n < LENGTH(32)"
  then show "bit (bytes_word (word_bytes w)) n = bit w n"
    by (cases "n < 8"; cases "n < 16"; cases "n < 24") (auto simp: bytes_word_def word_bytes_def bit_simps)
qed

lemma length_4: "length bs = 4 \<Longrightarrow> \<exists>a b c d. bs = [a, b, c, d]"
  by (auto simp: numeral_eq_Suc length_Suc_conv)

lemma load_store:
  assumes "length bs < 2 ^ 32"
  shows "load_bytes a (length bs) (store_bytes a bs m) = bs"
proof (rule nth_equalityI)
  fix i assume "i < length (load_bytes a (length bs) (store_bytes a bs m))"
  then have i: "i < length bs" by (simp add: load_bytes_def)
  with assms have "unat (of_nat i :: u32) = i" unfolding unat_of_nat by (intro mod_less) simp
  with i show "load_bytes a (length bs) (store_bytes a bs m) ! i = bs ! i"
    by (simp add: load_bytes_def store_bytes_def)
qed (simp add: load_bytes_def)

lemma store_append:
  assumes "length xs + length ys < 2 ^ 32"
  shows "store_bytes (a + of_nat (length xs)) ys (store_bytes a xs m) = store_bytes a (xs @ ys) m"
proof
  fix x
  let ?n = "of_nat (length xs) :: u32"
  have n: "unat ?n = length xs" using assms unfolding unat_of_nat by (intro mod_less) simp
  have d: "x - (a + ?n) = (x - a) - ?n" by simp
  show "store_bytes (a + ?n) ys (store_bytes a xs m) x = store_bytes a (xs @ ys) m x"
  proof (cases "unat (x - a) < length xs")
    case True
    then have "unat ((x - a) - ?n) = 2 ^ 32 + unat (x - a) - length xs"
      using n by (simp add: unat_sub_if')
    with assms have "\<not> unat ((x - a) - ?n) < length ys" by simp
    with True show ?thesis unfolding store_bytes_def d by (simp add: nth_append)
  next
    case False
    then have "unat ((x - a) - ?n) = unat (x - a) - length xs" using n by (simp add: unat_sub word_le_nat_alt)
    moreover have "unat (x - a) - length xs < length ys \<longleftrightarrow> unat (x - a) < length xs + length ys" using False by auto
    ultimately show ?thesis using False unfolding store_bytes_def d by (simp add: nth_append)
  qed
qed

lemma load_append: "load_bytes a (n + k) m = load_bytes a n m @ load_bytes (a + of_nat n) k m"
proof -
  have "[0..<n + k] = [0..<n] @ map (\<lambda>i. i + n) [0..<k]"
    unfolding map_add_upt add.commute [of k n] by (rule upt_add_eq_append) simp
  then show ?thesis by (simp add: load_bytes_def ac_simps)
qed

lemma write_words_ram:
  "length ptr = 4 * n \<Longrightarrow> 4 * n < 2 ^ 32 \<Longrightarrow>
   write_words ram n handle ofs ptr m = store_bytes (handle + ofs) ptr m"
proof (induction n arbitrary: ofs ptr m)
  case 0
  then show ?case by (simp add: store_bytes_def)
next
  case (Suc n)
  from Suc.prems(1) length_4 [of "take 4 ptr"] obtain a b c d where t: "take 4 ptr = [a, b, c, d]" by auto
  have "write_words ram (Suc n) handle ofs ptr m =
        store_bytes (handle + ofs + 4) (drop 4 ptr) (store_bytes (handle + ofs) [a, b, c, d] m)"
    using Suc by (simp add: t IOWR_32DIRECT_def ram_def add.assoc)
  also have "\<dots> = store_bytes (handle + ofs) ([a, b, c, d] @ drop 4 ptr) m"
    using store_append [of "[a, b, c, d]" "drop 4 ptr" "handle + ofs" m] Suc.prems by simp
  also have "[a, b, c, d] @ drop 4 ptr = ptr" by (metis append_take_drop_id t)
  finally show ?case .
qed

lemma read_words_ram: "read_words ram n handle ofs m = (load_bytes (handle + ofs) (4 * n) m, m)"
proof (induction n arbitrary: ofs)
  case 0
  then show ?case by (simp add: load_bytes_def)
next
  case (Suc n)
  obtain a b c d where t: "load_bytes (handle + ofs) 4 m = [a, b, c, d]"
    using length_4 [of "load_bytes (handle + ofs) 4 m"] by (auto simp: load_bytes_def)
  have "read_words ram (Suc n) handle ofs m =
        ([a, b, c, d] @ load_bytes (handle + (ofs + 4)) (4 * n) m, m)"
    using Suc by (simp add: t IORD_32DIRECT_def ram_def)
  also have "[a, b, c, d] @ load_bytes (handle + (ofs + 4)) (4 * n) m = load_bytes (handle + ofs) (4 * Suc n) m"
    using load_append [of "handle + ofs" 4 "4 * n" m] by (simp add: t add.assoc)
  finally show ?case .
qed

lemma write_64_ram:
  "fpga_write_64 ram handle ofs v m =
   store_bytes (handle + ofs) (word_bytes (ucast v) @ word_bytes (ucast (drop_bit 32 v))) m"
  using store_append [of "word_bytes (ucast v)" "word_bytes (ucast (drop_bit 32 v))" "handle + ofs" m]
  by (simp add: fpga_write_64_def IOWR_32DIRECT_def ram_def add.assoc)

lemma halves_64: "(ucast (ucast v :: u32) OR push_bit 32 (ucast (ucast (drop_bit 32 v) :: u32)) :: u64) = v"
proof (rule bit_word_eqI)
  fix n assume "n < LENGTH(64)"
  then show "bit (ucast (ucast v :: u32) OR push_bit 32 (ucast (ucast (drop_bit 32 v) :: u32)) :: u64) n = bit v n"
    by (cases "n < 32") (auto simp: bit_simps)
qed

lemma bytes_64:
  assumes "i < 8"
  shows "(word_bytes (ucast (v :: u64)) @ word_bytes (ucast (drop_bit 32 v))) ! i = ucast (drop_bit (8 * i) v)"
proof -
  from assms have "i = 0 \<or> i = 1 \<or> i = 2 \<or> i = 3 \<or> i = 4 \<or> i = 5 \<or> i = 6 \<or> i = 7" by linarith
  then show ?thesis by (elim disjE) (auto intro!: bit_word_eqI simp: word_bytes_def bit_simps)
qed

text \<open>What a read of a byte finds after a store of several.\<close>

lemma read_8_store:
  assumes "length bs < 2 ^ 32" and "i < length bs"
  shows "fpga_read_8 ram handle (ofs + of_nat i) (store_bytes (handle + ofs) bs m) = (bs ! i, store_bytes (handle + ofs) bs m)"
  using arg_cong [OF load_store [OF assms(1), of "handle + ofs" m], of "\<lambda>xs. xs ! i"] assms(2)
  by (simp add: fpga_read_8_def IORD_8DIRECT_def ram_def load_bytes_def add.assoc)

text \<open>C31: On memory a 64-bit and a 512-bit write are read back by the read of the same width.  After either, an
  8-bit read at offset \<open>i\<close> gives byte \<open>i\<close>, of the 64-bit value with the lowest bits first and of the block in its
  order, and no byte outside the 8 or 64 bytes written changes.\<close>

theorem fpga_block_roundtrip:
  assumes "length ptr = 64"
  shows "fpga_read_64 ram handle ofs (fpga_write_64 ram handle ofs v m) = (v, fpga_write_64 ram handle ofs v m) \<and>
         (\<forall>i < 8. fpga_read_8 ram handle (ofs + of_nat i) (fpga_write_64 ram handle ofs v m) =
                    (ucast (drop_bit (8 * i) v), fpga_write_64 ram handle ofs v m)) \<and>
         (\<forall>a. 8 \<le> unat (a - (handle + ofs)) \<longrightarrow> fpga_write_64 ram handle ofs v m a = m a) \<and>
         (\<exists>m'. fpga_write_512 ram handle ofs ptr m = Inr m' \<and> fpga_read_512 ram handle ofs m' = (ptr, m') \<and>
               (\<forall>i < 64. fpga_read_8 ram handle (ofs + of_nat i) m' = (ptr ! i, m')) \<and>
               (\<forall>a. 64 \<le> unat (a - (handle + ofs)) \<longrightarrow> m' a = m a))"
proof -
  let ?m = "fpga_write_64 ram handle ofs v m"
  let ?bs = "word_bytes (ucast v) @ word_bytes (ucast (drop_bit 32 v))"
  have "load_bytes (handle + ofs) 8 ?m = ?bs"
    using load_store [of ?bs "handle + ofs" m] by (simp add: write_64_ram)
  then have "load_bytes (handle + ofs) 4 ?m @ load_bytes (handle + ofs + 4) 4 ?m = ?bs"
    using load_append [of "handle + ofs" 4 4 ?m] by simp
  then have "load_bytes (handle + ofs) 4 ?m = word_bytes (ucast v)"
    "load_bytes (handle + ofs + 4) 4 ?m = word_bytes (ucast (drop_bit 32 v))"
    by (simp_all add: append_eq_append_conv load_bytes_def)
  then have 1: "fpga_read_64 ram handle ofs ?m = (v, ?m)"
    by (simp add: fpga_read_64_def IORD_32DIRECT_def ram_def add.assoc halves_64)
  have 2: "fpga_read_8 ram handle (ofs + of_nat i) ?m = (ucast (drop_bit (8 * i) v), ?m)" if "i < 8" for i
    using read_8_store [of ?bs i handle ofs m] bytes_64 [OF that, of v] that by (simp add: write_64_ram)
  have 3: "?m a = m a" if "8 \<le> unat (a - (handle + ofs))" for a
    using that by (simp add: write_64_ram store_bytes_def)
  let ?m' = "store_bytes (handle + ofs) ptr m"
  have w: "fpga_write_512 ram handle ofs ptr m = Inr ?m'"
    using assms write_words_ram [of ptr 16 handle ofs m] by (simp add: fpga_write_512_def)
  have l: "load_bytes (handle + ofs) 64 ?m' = ptr" using load_store [of ptr "handle + ofs" m] assms by simp
  have r: "fpga_read_512 ram handle ofs ?m' = (ptr, ?m')"
    using read_words_ram [of 16 handle ofs ?m'] l by (simp add: fpga_read_512_def)
  have b: "fpga_read_8 ram handle (ofs + of_nat i) ?m' = (ptr ! i, ?m')" if "i < 64" for i
    using that assms by (intro read_8_store) simp_all
  have o: "?m' a = m a" if "64 \<le> unat (a - (handle + ofs))" for a
    using that assms by (simp add: store_bytes_def)
  from 1 2 3 w r b o show ?thesis by blast
qed

theorem fpga_block_roundtrip_witness:
  "\<exists>m'. fpga_write_512 ram 100 8 (replicate 64 7) (\<lambda>_. 0) = Inr m' \<and>
        fpga_read_512 ram 100 8 m' = (replicate 64 7, m') \<and> m' 100 = 0"
proof -
  have "unat (100 - (100 + 8) :: u32) = 2 ^ 32 - 8" by simp
  with fpga_block_roundtrip [of "replicate 64 7" 100 8 0 "\<lambda>_. 0"] show ?thesis by fastforce
qed

section \<open>Enabling and disabling\<close>

text \<open>C39: Enabling and disabling the interrupt of an interface touch nothing and return -1 when no handler
  is registered; otherwise a number above 15 is refused with -2 when it is enabled, an interrupt that is not
  enabled is refused with -3 when it is disabled, and else the set of enabled interrupts gains or loses
  exactly this one.\<close>

theorem fpga_interrupt_results:
  assumes "platform_bits wr" and "0 \<le> handle" and "nat handle < length tab" and "irq = of_int handle"
  shows "(case fst (tab ! nat handle) of
            None \<Rightarrow> fpga_enable_interrupt wr True tab handle c = Inr (-1, c) \<and>
                     fpga_disable_interrupt wr True tab handle c = Inr (-1, c)
          | Some _ \<Rightarrow>
              (\<exists>c'. fpga_enable_interrupt wr True tab handle c = Inr (if irq < 16 then 0 else -2, c') \<and>
                    irq_set c' = (if irq < 16 then insert irq (irq_set c) else irq_set c)) \<and>
              (\<exists>c'. fpga_disable_interrupt wr True tab handle c = Inr (if irq \<in> irq_set c then 0 else -3, c') \<and>
                    irq_set c' = irq_set c - {irq}))"
proof (cases "fst (tab ! nat handle)")
  case None
  with assms(2,3) show ?thesis
    by (simp add: fpga_enable_interrupt_def fpga_disable_interrupt_def irq_handler_at_def)
next
  case (Some f)
  obtain r c1 where e: "alt_ic_irq_enable wr True 0 irq c = (r, c1)" by fastforce
  obtain q c2 where d: "alt_ic_irq_disable wr True 0 irq c = (q, c2)" by fastforce
  have "fpga_enable_interrupt wr True tab handle c = Inr (if irq < 16 then 0 else -2, c1)"
    using Some assms(2-4) e call_result(1) [of wr 0 irq c]
    by (simp add: fpga_enable_interrupt_def irq_handler_at_def split: if_splits)
  moreover have "irq_set c1 = (if irq < 16 then insert irq (irq_set c) else irq_set c)"
    using call_set(1) [OF assms(1), of 0 irq c] e by simp
  moreover have "fpga_disable_interrupt wr True tab handle c =
                 Inr (if irq \<in> irq_set c then 0 else -3, if irq \<in> irq_set c then c2 else c)"
    using Some assms(2-4) d call_result(2) [of wr 0 irq c]
    by (auto simp: fpga_disable_interrupt_def irq_handler_at_def irq_set_def alt_ic_irq_enabled_def remap_refused
        split: if_splits)
  moreover have "irq_set (if irq \<in> irq_set c then c2 else c) = irq_set c - {irq}"
    using call_set(2) [OF assms(1), of 0 irq c] d by simp
  ultimately show ?thesis using Some by auto
qed

theorem fpga_interrupt_results_witness:
  "\<exists>c'. fpga_enable_interrupt (\<lambda>_. -1) True [(None, ()), (Some (), ())] 1 (\<lambda>_. 0) = Inr (0, c') \<and> irq_set c' = {1}"
proof -
  have "platform_bits (\<lambda>_. -1)" by (simp add: platform_bits_def)
  moreover have "irq_set (\<lambda>_. 0) = {}" by (auto simp: in_irq_set)
  ultimately show ?thesis
    using fpga_interrupt_results [of "\<lambda>_. -1" 1 "[(None, ()), (Some (), ())]" 1 "\<lambda>_. 0"] by auto
qed

text \<open>In this system registration always fails, with the error of the stub, whatever the handler.\<close>

lemma fpga_register_isr_fails:
  "0 \<le> handle \<Longrightarrow> nat handle < length tab \<Longrightarrow> fpga_register_isr tab handle isr ctx = Inr (- ENOSYS)"
proof -
  have "sint ((- 88 :: u32) OR push_bit 31 1) = - 88" by simp
  then show "0 \<le> handle \<Longrightarrow> nat handle < length tab \<Longrightarrow> ?thesis"
    by (simp add: fpga_register_isr_def irq_handler_at_def alt_ic_isr_register_def alt_iic_isr_register_def)
qed

text \<open>An invalid handle, as an interface without interrupt has, is outside of the table.\<close>

lemma fpga_invalid_handle: "fpga_enable_interrupt wr irqs tab (-1) c = Inl OutOfBounds"
  by (simp add: fpga_enable_interrupt_def irq_handler_at_def)

lemma default_exception_ends: "fpga_throw_runtime_exception (default_handlers put d) msg s = Inl (Exits 1)"
  by (simp add: fpga_throw_runtime_exception_def default_handlers_def default_runtime_exception_handler_def)

end
