(* ===== verification/ByteRing.thy ===== *)
theory ByteRing
  imports HalPrelude
begin

text \<open>
  The circular buffers of the interrupt-driven JTAG UART driver: \<^verbatim>\<open>rx_buf\<close>, \<^verbatim>\<open>rx_in\<close>, \<^verbatim>\<open>rx_out\<close> and
  \<^verbatim>\<open>tx_buf\<close>, \<^verbatim>\<open>tx_in\<close>, \<^verbatim>\<open>tx_out\<close> of \<^verbatim>\<open>altera_avalon_jtag_uart_state_s\<close>, each a ring of
  \<^verbatim>\<open>ALTERA_AVALON_JTAG_UART_BUF_LEN\<close> bytes.  The four ring operations are the index computations and
  copies of \<^verbatim>\<open>altera_avalon_jtag_uart_init.c\<close> (one byte at a time, in the interrupt handler),
  \<^verbatim>\<open>..._read.c\<close> and \<^verbatim>\<open>..._write.c\<close> (a contiguous chunk with \<^verbatim>\<open>memcpy\<close>).  The locale \<open>byte_queue\<close> is
  the queue the driver relies on.
\<close>

section \<open>The code\<close>

abbreviation BUF_LEN :: nat where "BUF_LEN \<equiv> 2048"

record ring =
  rb_buf :: "u8 list"
  rb_in :: nat
  rb_out :: nat

definition ring_init :: ring where
  "ring_init = \<lparr>rb_buf = replicate BUF_LEN 0, rb_in = 0, rb_out = 0\<rparr>"

text \<open>\<^verbatim>\<open>next == sp->rx_out\<close>: no room for another byte.\<close>

definition ring_full :: "ring \<Rightarrow> bool" where
  "ring_full r \<longleftrightarrow> (rb_in r + 1) mod BUF_LEN = rb_out r"

definition ring_empty :: "ring \<Rightarrow> bool" where
  "ring_empty r \<longleftrightarrow> rb_out r = rb_in r"

definition ring_push :: "u8 \<Rightarrow> ring \<Rightarrow> ring" where
  "ring_push c r = r\<lparr>rb_buf := (rb_buf r)[rb_in r := c], rb_in := (rb_in r + 1) mod BUF_LEN\<rparr>"

definition ring_pop :: "ring \<Rightarrow> u8 \<times> ring" where
  "ring_pop r = (rb_buf r ! rb_out r, r\<lparr>rb_out := (rb_out r + 1) mod BUF_LEN\<rparr>)"

text \<open>The bytes that can be taken, and the room that can be filled, without wrapping.\<close>

definition ring_avail :: "ring \<Rightarrow> nat" where
  "ring_avail r = (if rb_out r \<le> rb_in r then rb_in r - rb_out r else BUF_LEN - rb_out r)"

definition ring_room :: "ring \<Rightarrow> nat" where
  "ring_room r =
     (if rb_in r < rb_out r then rb_out r - 1 - rb_in r
      else if 0 < rb_out r then BUF_LEN - rb_in r
      else BUF_LEN - 1 - rb_in r)"

text \<open>\<^verbatim>\<open>memcpy\<close> out of the ring and into it, and the index updates that follow.\<close>

definition ring_copy_out :: "nat \<Rightarrow> ring \<Rightarrow> u8 list" where
  "ring_copy_out n r = take n (drop (rb_out r) (rb_buf r))"

definition ring_advance_out :: "nat \<Rightarrow> ring \<Rightarrow> ring" where
  "ring_advance_out n r = r\<lparr>rb_out := (rb_out r + n) mod BUF_LEN\<rparr>"

definition ring_copy_in :: "u8 list \<Rightarrow> ring \<Rightarrow> ring" where
  "ring_copy_in xs r =
     r\<lparr>rb_buf := take (rb_in r) (rb_buf r) @ xs @ drop (rb_in r + length xs) (rb_buf r)\<rparr>"

definition ring_advance_in :: "nat \<Rightarrow> ring \<Rightarrow> ring" where
  "ring_advance_in n r = r\<lparr>rb_in := (rb_in r + n) mod BUF_LEN\<rparr>"

section \<open>The queue a ring holds\<close>

definition ring_ok :: "ring \<Rightarrow> bool" where
  "ring_ok r \<longleftrightarrow> length (rb_buf r) = BUF_LEN \<and> rb_in r < BUF_LEN \<and> rb_out r < BUF_LEN"

definition ring_count :: "ring \<Rightarrow> nat" where
  "ring_count r = (rb_in r + BUF_LEN - rb_out r) mod BUF_LEN"

definition ring_queue :: "ring \<Rightarrow> u8 list" where
  "ring_queue r = map (\<lambda>k. rb_buf r ! ((rb_out r + k) mod BUF_LEN)) [0..<ring_count r]"

lemma ring_queue_length [simp]: "length (ring_queue r) = ring_count r"
  by (simp add: ring_queue_def)

lemma ring_queue_nth: "k < ring_count r \<Longrightarrow> ring_queue r ! k = rb_buf r ! ((rb_out r + k) mod BUF_LEN)"
  by (simp add: ring_queue_def)

lemma mod_len: "(a :: nat) < BUF_LEN \<Longrightarrow> b < BUF_LEN \<Longrightarrow>
    (a + b) mod BUF_LEN = (if a + b < BUF_LEN then a + b else a + b - BUF_LEN)"
  by (auto simp: mod_if)

lemma ring_count_eq:
  "ring_ok r \<Longrightarrow> ring_count r = (if rb_out r \<le> rb_in r then rb_in r - rb_out r else rb_in r + BUF_LEN - rb_out r)"
  by (auto simp: ring_count_def ring_ok_def mod_if)

lemma ring_count_less: "ring_ok r \<Longrightarrow> ring_count r < BUF_LEN"
  by (simp add: ring_count_def)

lemma ring_init_ok: "ring_ok ring_init" "ring_queue ring_init = []"
  by (simp_all add: ring_ok_def ring_init_def ring_queue_def ring_count_def)

lemma ring_empty_iff: "ring_ok r \<Longrightarrow> ring_empty r \<longleftrightarrow> ring_queue r = []"
  by (auto simp: ring_empty_def ring_queue_def ring_count_eq ring_ok_def split: if_splits)

lemma ring_full_iff: "ring_ok r \<Longrightarrow> ring_full r \<longleftrightarrow> ring_count r = BUF_LEN - 1"
  by (auto simp: ring_full_def ring_count_eq ring_ok_def mod_if split: if_splits)

lemma ring_avail_le: "ring_ok r \<Longrightarrow> ring_avail r \<le> ring_count r"
  by (auto simp: ring_avail_def ring_count_eq ring_ok_def)

lemma ring_avail_0: "ring_ok r \<Longrightarrow> ring_avail r = 0 \<longleftrightarrow> ring_queue r = []"
  using ring_empty_iff [of r] by (auto simp: ring_avail_def ring_empty_def ring_ok_def split: if_splits)

lemma ring_room_le: "ring_ok r \<Longrightarrow> ring_room r \<le> BUF_LEN - 1 - ring_count r"
  by (auto simp: ring_room_def ring_count_eq ring_ok_def)

lemma ring_room_0: "ring_ok r \<Longrightarrow> ring_room r = 0 \<longleftrightarrow> ring_full r"
  by (auto simp: ring_room_def ring_full_def ring_ok_def mod_if split: if_splits)

text \<open>Only the number of bytes and the pointer the other side does not move bound a bulk operation.\<close>

lemma ring_avail_min: "ring_ok r \<Longrightarrow> ring_avail r = min (ring_count r) (BUF_LEN - rb_out r)"
  by (auto simp: ring_avail_def ring_count_eq ring_ok_def)

lemma ring_room_min: "ring_ok r \<Longrightarrow> ring_room r = min (BUF_LEN - 1 - ring_count r) (BUF_LEN - rb_in r)"
  by (auto simp: ring_room_def ring_count_eq ring_ok_def)

text \<open>The two bulk operations.\<close>

lemma ring_take_ok:
  assumes "ring_ok r" "n \<le> ring_avail r"
  shows "ring_ok (ring_advance_out n r)" "ring_copy_out n r = take n (ring_queue r)"
    "ring_queue (ring_advance_out n r) = drop n (ring_queue r)"
proof -
  have c: "n \<le> ring_count r" using assms ring_avail_le le_trans by blast
  show ok: "ring_ok (ring_advance_out n r)" using assms(1) by (simp add: ring_ok_def ring_advance_out_def)
  have n: "rb_out r + n \<le> BUF_LEN" using assms by (auto simp: ring_avail_def ring_ok_def split: if_splits)
  have cnt: "ring_count (ring_advance_out n r) = ring_count r - n"
  proof -
    have "rb_in (ring_advance_out n r) = rb_in r" "rb_out (ring_advance_out n r) = (rb_out r + n) mod BUF_LEN"
      by (simp_all add: ring_advance_out_def)
    with ring_count_eq [OF ok] ring_count_eq [OF assms(1)] assms n show ?thesis
      by (auto simp: ring_avail_def ring_ok_def mod_if split: if_splits)
  qed
  show "ring_copy_out n r = take n (ring_queue r)"
  proof (rule nth_equalityI)
    show "length (ring_copy_out n r) = length (take n (ring_queue r))"
      using assms(1) n c by (simp add: ring_copy_out_def ring_ok_def)
    fix k assume "k < length (ring_copy_out n r)"
    then have "k < n" by (simp add: ring_copy_out_def)
    then show "ring_copy_out n r ! k = take n (ring_queue r) ! k"
      using n c assms(1) by (simp add: ring_copy_out_def ring_queue_nth ring_ok_def)
  qed
  show "ring_queue (ring_advance_out n r) = drop n (ring_queue r)"
  proof (rule nth_equalityI)
    show "length (ring_queue (ring_advance_out n r)) = length (drop n (ring_queue r))" by (simp add: cnt)
    fix k assume "k < length (ring_queue (ring_advance_out n r))"
    then have "k + n < ring_count r" by (simp add: cnt)
    moreover have "((rb_out r + n) mod BUF_LEN + k) mod BUF_LEN = (rb_out r + (n + k)) mod BUF_LEN"
      by (simp add: mod_add_left_eq add.assoc)
    ultimately show "ring_queue (ring_advance_out n r) ! k = drop n (ring_queue r) ! k"
      by (simp add: ring_queue_nth cnt) (simp add: ring_advance_out_def ring_queue_nth c add.commute)
  qed
qed

lemma ring_take_split:
  assumes "ring_ok r" "n \<le> ring_avail r"
  shows "ring_queue r = ring_copy_out n r @ ring_queue (ring_advance_out n r)" "length (ring_copy_out n r) = n"
proof -
  show "ring_queue r = ring_copy_out n r @ ring_queue (ring_advance_out n r)"
    unfolding ring_take_ok(2,3) [OF assms] by simp
  show "length (ring_copy_out n r) = n"
    unfolding ring_take_ok(2) [OF assms] using assms(2) ring_avail_le [OF assms(1)] by simp
qed

lemma ring_put_ok:
  assumes "ring_ok r" "length xs \<le> ring_room r"
  shows "ring_ok (ring_copy_in xs r)" "ring_ok (ring_advance_in (length xs) (ring_copy_in xs r))"
    "ring_queue (ring_copy_in xs r) = ring_queue r"
    "ring_queue (ring_advance_in (length xs) (ring_copy_in xs r)) = ring_queue r @ xs"
proof -
  let ?c = "ring_copy_in xs r" and ?a = "ring_advance_in (length xs) (ring_copy_in xs r)"
  have n: "rb_in r + length xs \<le> BUF_LEN" "length (rb_buf r) = BUF_LEN" "rb_in r < BUF_LEN" "rb_out r < BUF_LEN"
    using assms by (auto simp: ring_room_def ring_ok_def split: if_splits)
  show ok: "ring_ok ?c" "ring_ok ?a"
    using n by (simp_all add: ring_ok_def ring_copy_in_def ring_advance_in_def)
  have nth: "rb_buf ?c ! j = (if rb_in r \<le> j \<and> j < rb_in r + length xs then xs ! (j - rb_in r) else rb_buf r ! j)"
    if "j < BUF_LEN" for j
    using n that by (auto simp: ring_copy_in_def nth_append)
  have cc: "ring_count ?c = ring_count r" by (simp add: ring_count_def ring_copy_in_def)
  have ca: "ring_count ?a = ring_count r + length xs"
  proof -
    have "rb_in ?a = (rb_in r + length xs) mod BUF_LEN" "rb_out ?a = rb_out r"
      by (simp_all add: ring_advance_in_def ring_copy_in_def)
    with ring_count_eq [OF ok(2)] ring_count_eq [OF assms(1)] assms n show ?thesis
      by (auto simp: ring_room_def mod_if split: if_splits)
  qed
  have old: "\<not> (rb_in r \<le> (rb_out r + k) mod BUF_LEN \<and> (rb_out r + k) mod BUF_LEN < rb_in r + length xs)"
    if "k < ring_count r" for k
  proof -
    have "k < BUF_LEN" using that ring_count_less [OF assms(1)] by simp
    with that assms n show ?thesis
      by (auto simp: ring_count_eq [OF assms(1)] ring_room_def mod_len split: if_splits)
  qed
  show "ring_queue ?c = ring_queue r"
  proof -
    have "rb_out ?c = rb_out r" by (simp add: ring_copy_in_def)
    with old show ?thesis by (intro nth_equalityI) (auto simp: cc ring_queue_nth nth)
  qed
  have new: "(rb_out r + (ring_count r + k)) mod BUF_LEN = rb_in r + k" if "k < length xs" for k
  proof -
    have "rb_out r + ring_count r = (if rb_out r \<le> rb_in r then rb_in r else rb_in r + BUF_LEN)"
      using n by (simp add: ring_count_eq [OF assms(1)])
    then have "rb_out r + (ring_count r + k) = (if rb_out r \<le> rb_in r then rb_in r + k else (rb_in r + k) + BUF_LEN)"
      by (simp split: if_splits)
    moreover have "rb_in r + k < BUF_LEN" using that n by simp
    ultimately show ?thesis by simp
  qed
  show "ring_queue ?a = ring_queue r @ xs"
  proof (rule nth_equalityI)
    show "length (ring_queue ?a) = length (ring_queue r @ xs)" by (simp add: ca)
    fix k assume "k < length (ring_queue ?a)"
    then have k: "k < ring_count r + length xs" by (simp add: ca)
    have o: "rb_out ?a = rb_out r" "rb_buf ?a = rb_buf ?c" by (simp_all add: ring_advance_in_def ring_copy_in_def)
    show "ring_queue ?a ! k = (ring_queue r @ xs) ! k"
    proof (cases "k < ring_count r")
      case True
      then show ?thesis using k old [OF True] by (auto simp: ring_queue_nth ca o nth nth_append)
    next
      case False
      then have "k = ring_count r + (k - ring_count r)" "k - ring_count r < length xs" using k by auto
      with new [of "k - ring_count r"] have "(rb_out r + k) mod BUF_LEN = rb_in r + (k - ring_count r)" by simp
      moreover have "rb_in r + (k - ring_count r) < BUF_LEN" "k - ring_count r < length xs" using False k n by auto
      ultimately have "rb_buf ?c ! ((rb_out r + k) mod BUF_LEN) = xs ! (k - ring_count r)"
        by (simp only: nth) simp
      with False k show ?thesis by (simp add: ring_queue_nth ca o nth_append)
    qed
  qed
qed

lemma ring_push_copy:
  "ring_ok r \<Longrightarrow> ring_push c r = ring_advance_in 1 (ring_copy_in [c] r)"
  by (simp add: ring_push_def ring_advance_in_def ring_copy_in_def ring_ok_def upd_conv_take_nth_drop)

lemma ring_push_ok:
  assumes "ring_ok r" "\<not> ring_full r"
  shows "ring_ok (ring_push c r)" "ring_queue (ring_push c r) = ring_queue r @ [c]"
proof -
  have "length [c] \<le> ring_room r" using ring_room_0 [OF assms(1)] assms(2) by simp
  from ring_put_ok [OF assms(1) this] show "ring_ok (ring_push c r)" "ring_queue (ring_push c r) = ring_queue r @ [c]"
    by (simp_all add: ring_push_copy assms(1))
qed

lemma ring_push_frame: "rb_out (ring_push c r) = rb_out r"
  by (simp add: ring_push_def)

lemma ring_pop_ok:
  assumes "ring_ok r" "\<not> ring_empty r" "ring_pop r = (c, r')"
  shows "ring_ok r'" "ring_queue r = c # ring_queue r'" "rb_in r' = rb_in r"
proof -
  have a: "1 \<le> ring_avail r" using ring_avail_0 [OF assms(1)] ring_empty_iff [OF assms(1)] assms(2) by simp
  have r': "r' = ring_advance_out 1 r" "c = rb_buf r ! rb_out r"
    using assms(3) by (auto simp: ring_pop_def ring_advance_out_def)
  from ring_take_ok [OF assms(1) a] r' have q: "ring_queue r' = tl (ring_queue r)" "ring_ok r'"
    by (simp_all add: drop_Suc)
  then show "ring_ok r'" by simp
  show "rb_in r' = rb_in r" using r' by (simp add: ring_advance_out_def)
  have ne: "ring_queue r \<noteq> []" using ring_empty_iff [OF assms(1)] assms(2) by simp
  moreover from ne have "0 < ring_count r" by (metis length_greater_0_conv ring_queue_length)
  ultimately have "hd (ring_queue r) = c"
    using assms(1) r'(2) by (simp add: hd_conv_nth ring_queue_nth ring_ok_def)
  with ne q show "ring_queue r = c # ring_queue r'" by (cases "ring_queue r") auto
qed

section \<open>The interface of the queue\<close>

text \<open>
  A bounded queue of bytes with single-byte and bulk operations; \<open>avail\<close> and \<open>room\<close> say how much one
  bulk operation may move, and are zero only when the queue is empty and full.
\<close>

locale byte_queue =
  fixes ok :: "'r \<Rightarrow> bool"
    and queue :: "'r \<Rightarrow> u8 list"
    and full :: "'r \<Rightarrow> bool"
    and push :: "u8 \<Rightarrow> 'r \<Rightarrow> 'r"
    and empty :: "'r \<Rightarrow> bool"
    and pop :: "'r \<Rightarrow> u8 \<times> 'r"
    and avail room :: "'r \<Rightarrow> nat"
    and get :: "nat \<Rightarrow> 'r \<Rightarrow> u8 list \<times> 'r"
    and put :: "u8 list \<Rightarrow> 'r \<Rightarrow> 'r"
    and capacity :: nat
  assumes push_ok: "ok r \<Longrightarrow> \<not> full r \<Longrightarrow> ok (push c r) \<and> queue (push c r) = queue r @ [c]"
    and pop_ok: "ok r \<Longrightarrow> \<not> empty r \<Longrightarrow> pop r = (c, r') \<Longrightarrow> ok r' \<and> queue r = c # queue r'"
    and full_iff: "ok r \<Longrightarrow> full r \<longleftrightarrow> length (queue r) = capacity"
    and empty_iff: "ok r \<Longrightarrow> empty r \<longleftrightarrow> queue r = []"
    and get_ok: "ok r \<Longrightarrow> n \<le> avail r \<Longrightarrow> get n r = (xs, r') \<Longrightarrow> ok r' \<and> queue r = xs @ queue r' \<and> length xs = n"
    and put_ok: "ok r \<Longrightarrow> length xs \<le> room r \<Longrightarrow> ok (put xs r) \<and> queue (put xs r) = queue r @ xs"
    and avail_0: "ok r \<Longrightarrow> avail r = 0 \<longleftrightarrow> queue r = []"
    and room_0: "ok r \<Longrightarrow> room r = 0 \<longleftrightarrow> full r"
begin

text \<open>What goes in comes out, in order.\<close>

fun push_all :: "u8 list \<Rightarrow> 'r \<Rightarrow> 'r" where
  "push_all [] r = r"
| "push_all (c # cs) r = (if full r then r else push_all cs (push c r))"

fun pop_all :: "nat \<Rightarrow> 'r \<Rightarrow> u8 list \<times> 'r" where
  "pop_all 0 r = ([], r)"
| "pop_all (Suc n) r = (if empty r then ([], r) else let (c, r1) = pop r; (cs, r2) = pop_all n r1 in (c # cs, r2))"

lemma push_all_queue:
  "ok r \<Longrightarrow> length (queue r) + length cs \<le> capacity \<Longrightarrow> ok (push_all cs r) \<and> queue (push_all cs r) = queue r @ cs"
proof (induction cs arbitrary: r)
  case Nil
  then show ?case by simp
next
  case (Cons c cs)
  then have "\<not> full r" by (simp add: full_iff)
  with push_ok [OF Cons.prems(1) this, of c] Cons show ?case by simp
qed

lemma pop_all_queue:
  "ok r \<Longrightarrow> pop_all n r = (cs, r') \<Longrightarrow> ok r' \<and> cs = take n (queue r) \<and> queue r' = drop n (queue r)"
proof (induction n arbitrary: r cs r')
  case 0
  then show ?case by auto
next
  case (Suc n)
  show ?case
  proof (cases "empty r")
    case True
    with Suc.prems show ?thesis by (auto simp: empty_iff)
  next
    case False
    obtain c r1 where p: "pop r = (c, r1)" by (cases "pop r")
    obtain cs1 r2 where q: "pop_all n r1 = (cs1, r2)" by (cases "pop_all n r1")
    from pop_ok [OF Suc.prems(1) False p] Suc.IH [OF _ q] Suc.prems(2) False p q show ?thesis by auto
  qed
qed

lemma get_length_le: "ok r \<Longrightarrow> n \<le> avail r \<Longrightarrow> n \<le> length (queue r)"
  using get_ok [of r n] by (cases "get n r") fastforce

end

interpretation uart_ring: byte_queue ring_ok ring_queue ring_full ring_push ring_empty ring_pop ring_avail ring_room
  "\<lambda>n r. (ring_copy_out n r, ring_advance_out n r)" "\<lambda>xs r. ring_advance_in (length xs) (ring_copy_in xs r)" "BUF_LEN - 1"
proof unfold_locales
  fix r c r' n xs
  assume r: "ring_ok r"
  show "\<not> ring_full r \<Longrightarrow> ring_ok (ring_push c r) \<and> ring_queue (ring_push c r) = ring_queue r @ [c]"
    using ring_push_ok [OF r] by blast
  show "\<not> ring_empty r \<Longrightarrow> ring_pop r = (c, r') \<Longrightarrow> ring_ok r' \<and> ring_queue r = c # ring_queue r'"
    using ring_pop_ok [OF r] by blast
  show "ring_full r \<longleftrightarrow> length (ring_queue r) = BUF_LEN - 1" using ring_full_iff [OF r] by simp
  show "ring_empty r \<longleftrightarrow> ring_queue r = []" using ring_empty_iff [OF r] .
  show "n \<le> ring_avail r \<Longrightarrow> (ring_copy_out n r, ring_advance_out n r) = (xs, r') \<Longrightarrow>
      ring_ok r' \<and> ring_queue r = xs @ ring_queue r' \<and> length xs = n"
    using ring_take_ok(1) [OF r] ring_take_split [OF r] by auto
  show "length xs \<le> ring_room r \<Longrightarrow> ring_ok (ring_advance_in (length xs) (ring_copy_in xs r)) \<and>
      ring_queue (ring_advance_in (length xs) (ring_copy_in xs r)) = ring_queue r @ xs"
    using ring_put_ok [OF r] by blast
  show "ring_avail r = 0 \<longleftrightarrow> ring_queue r = []" using ring_avail_0 [OF r] .
  show "ring_room r = 0 \<longleftrightarrow> ring_full r" using ring_room_0 [OF r] .
qed

section \<open>Properties\<close>

text \<open>A chunk of the size the driver computes can be copied into the ring and out of it without
  overwriting or losing a byte: what is copied in is appended to the queue, what is copied out is its
  front, and the computed sizes are zero only when the ring is full and empty.\<close>

lemma ring_chunks_fifo:
  assumes "ring_ok r"
  shows "(n \<le> ring_avail r \<longrightarrow> ring_ok (ring_advance_out n r) \<and>
            ring_queue r = ring_copy_out n r @ ring_queue (ring_advance_out n r) \<and> length (ring_copy_out n r) = n) \<and>
         (length xs \<le> ring_room r \<longrightarrow> ring_ok (ring_advance_in (length xs) (ring_copy_in xs r)) \<and>
            ring_queue (ring_advance_in (length xs) (ring_copy_in xs r)) = ring_queue r @ xs) \<and>
         (ring_avail r = 0 \<longleftrightarrow> ring_queue r = []) \<and>
         (ring_room r = 0 \<longleftrightarrow> length (ring_queue r) = BUF_LEN - 1)"
  using uart_ring.get_ok [OF assms, of n] uart_ring.put_ok [OF assms, of xs] uart_ring.avail_0 [OF assms]
    uart_ring.room_0 [OF assms] uart_ring.full_iff [OF assms] by simp

end
