(* ===== verification/JtagUart.thy ===== *)
theory JtagUart
  imports ByteRing AlarmClock
begin

text \<open>
  The JTAG UART driver (\<^verbatim>\<open>drivers/src/altera_avalon_jtag_uart_*.c\<close>, \<^verbatim>\<open>drivers/inc\<close>): the polled
  (small) and the interrupt-driven (fast) variant.  The device is reached through the four register
  accesses of \<^verbatim>\<open>altera_avalon_jtag_uart_regs.h\<close>, a record of functions on the state of the hardware:
  what holds for every such record holds whatever the device answers.  The fast driver's foreground
  calls run while the interrupt handler and the timer run; these are a list of events, one of which
  may happen at each point where the code reads or writes what it shares with them.
\<close>

section \<open>Registers\<close>

record 'h regs =
  iord_data :: "'h \<Rightarrow> u32 \<times> 'h"
  iowr_data :: "u32 \<Rightarrow> 'h \<Rightarrow> 'h"
  iord_control :: "'h \<Rightarrow> u32 \<times> 'h"
  iowr_control :: "u32 \<Rightarrow> 'h \<Rightarrow> 'h"

abbreviation (input) DATA_DATA_MSK :: u32 where "DATA_DATA_MSK \<equiv> 0x000000FF"
abbreviation (input) DATA_RVALID_MSK :: u32 where "DATA_RVALID_MSK \<equiv> 0x00008000"
abbreviation (input) DATA_RAVAIL_MSK :: u32 where "DATA_RAVAIL_MSK \<equiv> 0xFFFF0000"
abbreviation (input) CONTROL_RE_MSK :: u32 where "CONTROL_RE_MSK \<equiv> 0x00000001"
abbreviation (input) CONTROL_WE_MSK :: u32 where "CONTROL_WE_MSK \<equiv> 0x00000002"
abbreviation (input) CONTROL_RI_MSK :: u32 where "CONTROL_RI_MSK \<equiv> 0x00000100"
abbreviation (input) CONTROL_WI_MSK :: u32 where "CONTROL_WI_MSK \<equiv> 0x00000200"
abbreviation (input) CONTROL_AC_MSK :: u32 where "CONTROL_AC_MSK \<equiv> 0x00000400"
abbreviation (input) CONTROL_WSPACE_MSK :: u32 where "CONTROL_WSPACE_MSK \<equiv> 0xFFFF0000"

text \<open>The byte of a data register value.\<close>

definition data_byte :: "u32 \<Rightarrow> u8" where
  "data_byte data = ucast (data AND DATA_DATA_MSK)"

section \<open>The small driver\<close>

text \<open>
  The bytes read so far are \<open>acc\<close>: what the code stores through \<^verbatim>\<open>ptr\<close> in the caller's buffer, which is not part of the
  state here.  \<^verbatim>\<open>SystemMap\<close> has the loop with the stores, and shows that it stores these bytes.  The loop may
  wait for ever for the first byte.
\<close>

partial_function (option) small_read_loop ::
    "'h regs \<Rightarrow> int \<Rightarrow> u32 \<Rightarrow> u8 list \<Rightarrow> 'h \<Rightarrow> (u8 list \<times> 'h) option" where
  "small_read_loop regs space flags acc h =
     (if int (length acc) < space then
        let (data, h1) = iord_data regs h
        in if data AND DATA_RVALID_MSK \<noteq> 0 then small_read_loop regs space flags (acc @ [data_byte data]) h1
           else if acc \<noteq> [] then Some (acc, h1)
           else if flags AND O_NONBLOCK \<noteq> 0 then Some (acc, h1)
           else small_read_loop regs space flags acc h1
      else Some (acc, h))"

definition uart_small_read ::
    "'h regs \<Rightarrow> int \<Rightarrow> u32 \<Rightarrow> 'h \<Rightarrow> ((int \<times> u8 list) \<times> 'h) option" where
  "uart_small_read regs space flags h =
     map_option (\<lambda>(bytes, h1).
         ((if bytes \<noteq> [] then int (length bytes)
           else if flags AND O_NONBLOCK \<noteq> 0 then - EWOULDBLOCK else - EIO, bytes), h1))
       (small_read_loop regs space flags [] h)"

partial_function (option) small_write_loop :: "'h regs \<Rightarrow> u8 list \<Rightarrow> 'h \<Rightarrow> 'h option" where
  "small_write_loop regs ptr h =
     (case ptr of
        [] \<Rightarrow> Some h
      | c # cs \<Rightarrow>
          let (control, h1) = iord_control regs h
          in if control AND CONTROL_WSPACE_MSK \<noteq> 0 then small_write_loop regs cs (iowr_data regs (ucast c) h1)
             else small_write_loop regs (c # cs) h1)"

definition uart_small_write :: "'h regs \<Rightarrow> u8 list \<Rightarrow> u32 \<Rightarrow> 'h \<Rightarrow> (int \<times> 'h) option" where
  "uart_small_write regs ptr flags h =
     map_option (\<lambda>h1. (int (length ptr), h1)) (small_write_loop regs ptr h)"

section \<open>The state of the fast driver\<close>

text \<open>
  \<^verbatim>\<open>altera_avalon_jtag_uart_state\<close>: \<^verbatim>\<open>rx_in\<close>, \<^verbatim>\<open>rx_out\<close> and \<^verbatim>\<open>rx_buf\<close> are the ring \<open>ju_rx\<close>, the transmit
  fields the ring \<open>ju_tx\<close>.  The semaphores and the event flags are empty in the single-threaded HAL.
\<close>

record 'h uart =
  ju_timeout :: u32
  ju_irq_enable :: u32
  ju_host_inactive :: u32
  ju_rx :: ring
  ju_tx :: ring
  ju_hw :: 'h

abbreviation (input) DEFAULT_TIMEOUT :: u32 where "DEFAULT_TIMEOUT \<equiv> 10"

text \<open>The static instance of the state (\<^verbatim>\<open>ALTERA_AVALON_JTAG_UART_STATE_INSTANCE\<close>).\<close>

definition uart_instance :: "'h \<Rightarrow> 'h uart" where
  "uart_instance h = \<lparr>ju_timeout = DEFAULT_TIMEOUT, ju_irq_enable = 0, ju_host_inactive = 0,
     ju_rx = ring_init, ju_tx = ring_init, ju_hw = h\<rparr>"

definition write_control :: "'h regs \<Rightarrow> u32 \<Rightarrow> 'h uart \<Rightarrow> 'h uart" where
  "write_control regs v s = s\<lparr>ju_hw := iowr_control regs v (ju_hw s)\<rparr>"

definition read_control :: "'h regs \<Rightarrow> 'h uart \<Rightarrow> u32 \<times> 'h uart" where
  "read_control regs s = (let (v, h) = iord_control regs (ju_hw s) in (v, s\<lparr>ju_hw := h\<rparr>))"

text \<open>
  \<^verbatim>\<open>altera_avalon_jtag_uart_init\<close>: \<open>isr_register\<close> is the registration of the handler with the
  interrupt controller, \<open>callback\<close> and \<open>sp\<close> the timeout routine and the address it is registered with.
\<close>

definition uart_init ::
    "'h regs \<Rightarrow> ('i \<Rightarrow> 'i) \<Rightarrow> addr \<Rightarrow> 'cb \<Rightarrow> addr \<Rightarrow> 'h uart \<Rightarrow> 'i \<Rightarrow> ('cb, 'w) clock
     \<Rightarrow> 'h uart \<times> 'i \<times> ('cb, 'w) clock" where
  "uart_init regs isr_register alarm callback sp s ic ck =
     (let s1 = s\<lparr>ju_irq_enable := CONTROL_RE_MSK\<rparr>;
          s2 = write_control regs (ju_irq_enable s1) s1;
          ic1 = isr_register ic;
          s3 = s2\<lparr>ju_host_inactive := 0\<rparr>;
          (r, ck1) = alt_alarm_start alarm (alt_ticks_per_second ck) callback sp ck
      in (if r < 0 then s3\<lparr>ju_timeout := INT_MAX\<rparr> else s3, ic1, ck1))"

section \<open>The interrupt handler\<close>

text \<open>The inner loop of the read interrupt, with the last value of \<^verbatim>\<open>data\<close>.\<close>

partial_function (option) rx_drain :: "'h regs \<Rightarrow> u32 \<Rightarrow> 'h uart \<Rightarrow> (u32 \<times> 'h uart) option" where
  "rx_drain regs data s =
     (if ring_full (ju_rx s) then Some (data, s)
      else
        let (data1, h) = iord_data regs (ju_hw s); s1 = s\<lparr>ju_hw := h\<rparr>
        in if data1 AND DATA_RVALID_MSK = 0 then Some (data1, s1)
           else rx_drain regs data1 (s1\<lparr>ju_rx := ring_push (data_byte data1) (ju_rx s1)\<rparr>))"

definition isr_rx :: "'h regs \<Rightarrow> 'h uart \<Rightarrow> 'h uart option" where
  "isr_rx regs s =
     map_option (\<lambda>(data, s1).
         if data AND DATA_RAVAIL_MSK \<noteq> 0 then
           let s2 = s1\<lparr>ju_irq_enable := ju_irq_enable s1 AND NOT CONTROL_RE_MSK\<rparr>
           in snd (read_control regs (write_control regs (ju_irq_enable s2) s2))
         else s1)
       (rx_drain regs (push_bit 16 1) s)"

text \<open>The loop of the write interrupt; its counter is the argument.\<close>

fun tx_fill :: "'h regs \<Rightarrow> nat \<Rightarrow> 'h uart \<Rightarrow> nat \<times> 'h uart" where
  "tx_fill regs 0 s = (0, s)"
| "tx_fill regs (Suc space) s =
     (if ring_empty (ju_tx s) then (Suc space, s)
      else
        let (c, tx1) = ring_pop (ju_tx s)
        in tx_fill regs space (s\<lparr>ju_hw := iowr_data regs (ucast c) (ju_hw s), ju_tx := tx1\<rparr>))"

definition isr_tx :: "'h regs \<Rightarrow> u32 \<Rightarrow> 'h uart \<Rightarrow> 'h uart" where
  "isr_tx regs control s =
     (let (space, s1) = tx_fill regs (unat (drop_bit 16 (control AND CONTROL_WSPACE_MSK))) s
      in if 0 < space then
           let s2 = s1\<lparr>ju_irq_enable := ju_irq_enable s1 AND NOT CONTROL_WE_MSK\<rparr>
           in snd (read_control regs (write_control regs (ju_irq_enable s2) s2))
         else s1)"

partial_function (option) uart_irq :: "'h regs \<Rightarrow> 'h uart \<Rightarrow> 'h uart option" where
  "uart_irq regs s =
     (let (control, s1) = read_control regs s
      in if control AND (CONTROL_RI_MSK OR CONTROL_WI_MSK) = 0 then Some s1
         else
           Option.bind (if control AND CONTROL_RI_MSK \<noteq> 0 then isr_rx regs s1 else Some s1) (\<lambda>s2.
             uart_irq regs (if control AND CONTROL_WI_MSK \<noteq> 0 then isr_tx regs control s2 else s2)))"

text \<open>The timer callback, run once a second; \<open>ticks\<close> is \<^verbatim>\<open>alt_ticks_per_second()\<close>.\<close>

definition uart_timeout :: "'h regs \<Rightarrow> u32 \<Rightarrow> 'h uart \<Rightarrow> u32 \<times> 'h uart" where
  "uart_timeout regs ticks s =
     (let (control, s1) = read_control regs s;
          s2 = (if control AND CONTROL_AC_MSK \<noteq> 0 then
                  (write_control regs (ju_irq_enable s1 OR CONTROL_AC_MSK) s1)\<lparr>ju_host_inactive := 0\<rparr>
                else if ju_host_inactive s1 < INT_MAX - 2 then
                  s1\<lparr>ju_host_inactive := ju_host_inactive s1 + 1\<rparr>
                else s1)
      in (ticks, s2))"

section \<open>Foreground calls\<close>

text \<open>
  What may happen asynchronously: a list of events, each a change of the state.  \<open>next_event\<close> lets the
  next one happen, if there is one.  A wait that outlives the last event never ends.
\<close>

type_synonym 'h events = "('h uart \<Rightarrow> 'h uart) list"

fun next_event :: "'h events \<Rightarrow> 'h uart \<Rightarrow> 'h events \<times> 'h uart" where
  "next_event [] s = ([], s)"
| "next_event (e # es) s = (es, e s)"

lemma next_event_length: "next_event es s = (es', s') \<Longrightarrow> length es' \<le> length es"
  by (cases es) auto

fun uart_close :: "u32 \<Rightarrow> 'h events \<Rightarrow> 'h uart \<Rightarrow> stuck + (int \<times> 'h events \<times> 'h uart)" where
  "uart_close flags es s =
     (if \<not> ring_empty (ju_tx s) \<and> ju_host_inactive s < ju_timeout s then
        if flags AND O_NONBLOCK \<noteq> 0 then Inr (- EWOULDBLOCK, es, s)
        else case es of [] \<Rightarrow> Inl Spins | e # es1 \<Rightarrow> uart_close flags es1 (e s)
      else Inr (0, es, s))"

abbreviation (input) TIOCSTIMEOUT :: int where "TIOCSTIMEOUT \<equiv> 0x6a01"
abbreviation (input) TIOCGCONNECTED :: int where "TIOCGCONNECTED \<equiv> 0x6a02"

text \<open>\<open>arg\<close> is the \<^verbatim>\<open>int\<close> the argument points to; the result has its value after the call.\<close>

definition uart_ioctl :: "int \<Rightarrow> int \<Rightarrow> 'h uart \<Rightarrow> (int \<times> int) \<times> 'h uart" where
  "uart_ioctl req arg s =
     (if req = TIOCSTIMEOUT then
        if ju_timeout s \<noteq> INT_MAX then
          ((0, arg), s\<lparr>ju_timeout := (if 2 \<le> arg \<and> arg < 0x7FFFFFFF then word_of_int arg else INT_MAX - 1)\<rparr>)
        else ((- ENOTTY, arg), s)
      else if req = TIOCGCONNECTED then
        if ju_timeout s \<noteq> INT_MAX then
          ((0, if ju_host_inactive s < ju_timeout s then 1 else 0), s)
        else ((- ENOTTY, arg), s)
      else ((- ENOTTY, arg), s))"

text \<open>
  One round of the copy loop of read: \<^verbatim>\<open>in\<close> and \<^verbatim>\<open>out\<close> are read, a chunk is copied, and \<^verbatim>\<open>rx_out\<close> is
  written from the \<^verbatim>\<open>out\<close> that was read, with an event possible before and after the copy.  The
  result has the last value of \<^verbatim>\<open>in\<close>, the bytes copied and the space left.
\<close>

function read_chunks :: "nat \<Rightarrow> 'h events \<Rightarrow> 'h uart \<Rightarrow> nat \<times> u8 list \<times> nat \<times> 'h events \<times> 'h uart" where
  "read_chunks space es s =
     (let (es1, s1) = next_event es s;
          rx_in = rb_in (ju_rx s1); rx_out = rb_out (ju_rx s1); n = ring_avail (ju_rx s1)
      in if n = 0 \<or> space = 0 then (rx_in, [], space, es1, s1)
         else
           let n1 = (if space < n then space else n);
               bytes = ring_copy_out n1 (ju_rx s1);
               (es2, s2) = next_event es1 s1;
               s3 = s2\<lparr>ju_rx := (ju_rx s2)\<lparr>rb_out := (rx_out + n1) mod BUF_LEN\<rparr>\<rparr>;
               space1 = space - n1
           in if 0 < space1 then
                let (i, more, space2, es3, s4) = read_chunks space1 es2 s3
                in (i, bytes @ more, space2, es3, s4)
              else (rx_in, bytes, space1, es2, s3))"
  by pat_completeness auto
termination by (relation "measure fst") auto

declare read_chunks.simps [simp del]

text \<open>The wait for data: it ends when \<^verbatim>\<open>rx_in\<close> moves or the host has been inactive for too long.\<close>

fun spin_read :: "nat \<Rightarrow> 'h events \<Rightarrow> 'h uart \<Rightarrow> stuck + ('h events \<times> 'h uart)" where
  "spin_read rx_in es s =
     (if rx_in = rb_in (ju_rx s) \<and> ju_host_inactive s < ju_timeout s then
        case es of [] \<Rightarrow> Inl Spins | e # es1 \<Rightarrow> spin_read rx_in es1 (e s)
      else Inr (es, s))"

text \<open>
  The outer loop.  It goes round again only after an event; a round without one would repeat for ever.
\<close>

function read_loop :: "nat \<Rightarrow> u32 \<Rightarrow> 'h events \<Rightarrow> 'h uart \<Rightarrow> stuck + (u8 list \<times> 'h events \<times> 'h uart)" where
  "read_loop space flags es s =
     (if 0 < space then
        let (rx_in, bytes, space1, es1, s1) = read_chunks space es s
        in if bytes \<noteq> [] then Inr (bytes, es1, s1)
           else if flags AND O_NONBLOCK \<noteq> 0 then Inr ([], es1, s1)
           else case spin_read rx_in es1 s1 of
                  Inl e \<Rightarrow> Inl e
                | Inr (es2, s2) \<Rightarrow>
                    if rx_in = rb_in (ju_rx s2) then Inr ([], es2, s2)
                    else if length es2 < length es then read_loop space1 flags es2 s2
                    else Inl Spins
      else Inr ([], es, s))"
  by pat_completeness auto
termination by (relation "measure (\<lambda>(_, _, es, _). length es)") auto

definition uart_read ::
    "'h regs \<Rightarrow> int \<Rightarrow> u32 \<Rightarrow> 'h events \<Rightarrow> 'h uart \<Rightarrow> stuck + ((int \<times> u8 list) \<times> 'h events \<times> 'h uart)" where
  "uart_read regs space flags es s =
     andThen (read_loop (nat space) flags es s) (\<lambda>(bytes, es1, s1).
       Inr (if bytes \<noteq> [] then
              let s2 = s1\<lparr>ju_irq_enable := ju_irq_enable s1 OR CONTROL_RE_MSK\<rparr>
              in ((int (length bytes), bytes), es1, write_control regs (ju_irq_enable s2) s2)
            else ((if flags AND O_NONBLOCK \<noteq> 0 then - EWOULDBLOCK else - EIO, []), es1, s1)))"

text \<open>
  The copy loop of write, from the value \<^verbatim>\<open>out\<close> had before: the result has its last value and the
  bytes not copied.
\<close>

function write_chunks :: "nat \<Rightarrow> u8 list \<Rightarrow> 'h events \<Rightarrow> 'h uart \<Rightarrow> nat \<times> u8 list \<times> 'h events \<times> 'h uart" where
  "write_chunks prev ptr es s =
     (if ptr \<noteq> [] then
        let (es1, s1) = next_event es s;
            tx_in = rb_in (ju_tx s1); tx_out = rb_out (ju_tx s1); n = ring_room (ju_tx s1)
        in if n = 0 then (tx_out, ptr, es1, s1)
           else
             let n1 = (if length ptr < n then length ptr else n);
                 s2 = s1\<lparr>ju_tx := ring_copy_in (take n1 ptr) (ju_tx s1)\<rparr>;
                 (es2, s3) = next_event es1 s2;
                 s4 = s3\<lparr>ju_tx := (ju_tx s3)\<lparr>rb_in := (tx_in + n1) mod BUF_LEN\<rparr>\<rparr>
             in write_chunks tx_out (drop n1 ptr) es2 s4
      else (prev, [], es, s))"
  by pat_completeness auto
termination by (relation "measure (\<lambda>(_, ptr, _, _). length ptr)") auto

declare write_chunks.simps [simp del]

fun spin_write :: "nat \<Rightarrow> 'h events \<Rightarrow> 'h uart \<Rightarrow> stuck + ('h events \<times> 'h uart)" where
  "spin_write tx_out es s =
     (if tx_out = rb_out (ju_tx s) \<and> ju_host_inactive s < ju_timeout s then
        case es of [] \<Rightarrow> Inl Spins | e # es1 \<Rightarrow> spin_write tx_out es1 (e s)
      else Inr (es, s))"

function write_loop ::
    "'h regs \<Rightarrow> nat \<Rightarrow> u8 list \<Rightarrow> u32 \<Rightarrow> 'h events \<Rightarrow> 'h uart \<Rightarrow> stuck + (u8 list \<times> 'h events \<times> 'h uart)" where
  "write_loop regs prev ptr flags es s =
     (let (tx_out, rest, es1, s1) = write_chunks prev ptr es s;
          s2 = s1\<lparr>ju_irq_enable := ju_irq_enable s1 OR CONTROL_WE_MSK\<rparr>;
          s3 = write_control regs (ju_irq_enable s2) s2
      in if rest \<noteq> [] then
           if flags AND O_NONBLOCK \<noteq> 0 then Inr (rest, es1, s3)
           else case spin_write tx_out es1 s3 of
                  Inl e \<Rightarrow> Inl e
                | Inr (es2, s4) \<Rightarrow>
                    if ju_host_inactive s4 \<noteq> 0 then Inr (rest, es2, s4)
                    else if length es2 < length es then write_loop regs tx_out rest flags es2 s4
                    else Inl Spins
         else Inr ([], es1, s3))"
  by pat_completeness auto
termination by (relation "measure (\<lambda>(_, _, _, _, es, _). length es)") auto

declare read_loop.simps [simp del] write_loop.simps [simp del] uart_close.simps [simp del]
  spin_read.simps [simp del] spin_write.simps [simp del]

definition uart_write ::
    "'h regs \<Rightarrow> u8 list \<Rightarrow> u32 \<Rightarrow> 'h events \<Rightarrow> 'h uart \<Rightarrow> stuck + (int \<times> 'h events \<times> 'h uart)" where
  "uart_write regs ptr flags es s =
     andThen (write_loop regs 0 ptr flags es s) (\<lambda>(rest, es1, s1).
       Inr (if length rest \<noteq> length ptr then int (length ptr) - int (length rest)
            else if flags AND O_NONBLOCK \<noteq> 0 then - EWOULDBLOCK else - EIO, es1, s1))"

section \<open>What the interrupt handler does, for every device\<close>

text \<open>The same registers, with every access recorded.\<close>

datatype uart_access = RdData u32 | WrData u32 | RdControl u32 | WrControl u32

definition logged :: "'h regs \<Rightarrow> ('h \<times> uart_access list) regs" where
  "logged regs = \<lparr>
     iord_data = (\<lambda>(h, l). let (v, h1) = iord_data regs h in (v, h1, l @ [RdData v])),
     iowr_data = (\<lambda>v (h, l). (iowr_data regs v h, l @ [WrData v])),
     iord_control = (\<lambda>(h, l). let (v, h1) = iord_control regs h in (v, h1, l @ [RdControl v])),
     iowr_control = (\<lambda>v (h, l). (iowr_control regs v h, l @ [WrControl v]))\<rparr>"

text \<open>The bytes the device delivered, and the bytes it was given.\<close>

fun received :: "uart_access list \<Rightarrow> u8 list" where
  "received [] = []"
| "received (RdData v # l) = (if v AND DATA_RVALID_MSK \<noteq> 0 then data_byte v # received l else received l)"
| "received (_ # l) = received l"

fun sent :: "uart_access list \<Rightarrow> u8 list" where
  "sent [] = []"
| "sent (WrData v # l) = ucast v # sent l"
| "sent (_ # l) = sent l"

lemma received_append [simp]: "received (l @ m) = received l @ received m"
  by (induction l rule: received.induct) auto

lemma sent_append [simp]: "sent (l @ m) = sent l @ sent m"
  by (induction l rule: sent.induct) auto

text \<open>
  \<open>moved s s' l\<close>: with the accesses \<open>l\<close> the received bytes went to the end of the receive queue and the
  sent bytes came from the front of the transmit queue; the pointers of the foreground calls, the
  timeouts and the bytes of the transmit buffer are untouched.
\<close>

definition rings_ok :: "'h uart \<Rightarrow> bool" where
  "rings_ok s \<longleftrightarrow> ring_ok (ju_rx s) \<and> ring_ok (ju_tx s)"

definition moved :: "('h \<times> uart_access list) uart \<Rightarrow> ('h \<times> uart_access list) uart \<Rightarrow> uart_access list \<Rightarrow> bool" where
  "moved s s' l \<longleftrightarrow>
     rings_ok s' \<and> snd (ju_hw s') = snd (ju_hw s) @ l \<and>
     ring_queue (ju_rx s') = ring_queue (ju_rx s) @ received l \<and>
     ring_queue (ju_tx s) = sent l @ ring_queue (ju_tx s') \<and>
     rb_out (ju_rx s') = rb_out (ju_rx s) \<and> rb_in (ju_tx s') = rb_in (ju_tx s) \<and>
     rb_buf (ju_tx s') = rb_buf (ju_tx s) \<and>
     ju_timeout s' = ju_timeout s \<and> ju_host_inactive s' = ju_host_inactive s"

lemma moved_refl: "rings_ok s \<Longrightarrow> moved s s []"
  by (simp add: moved_def)

lemma moved_trans: "moved s t l \<Longrightarrow> moved t u m \<Longrightarrow> moved s u (l @ m)"
  by (simp add: moved_def)

lemma moved_rings: "moved s s' l \<Longrightarrow> rings_ok s'"
  by (simp add: moved_def)

lemma moved_irq_enable [simp]: "moved s (s'\<lparr>ju_irq_enable := e\<rparr>) l = moved s s' l"
  by (simp add: moved_def rings_ok_def)

lemma moved_write_control:
  "rings_ok s \<Longrightarrow> moved s (write_control (logged regs) v s) [WrControl v]"
  by (simp add: moved_def write_control_def logged_def rings_ok_def split: prod.split)

lemma moved_read_control:
  "rings_ok s \<Longrightarrow> read_control (logged regs) s = (v, s') \<Longrightarrow> moved s s' [RdControl v]"
  by (auto simp: moved_def read_control_def logged_def rings_ok_def Let_def split: prod.splits)

lemma moved_push:
  assumes "rings_ok s" "\<not> ring_full (ju_rx s)" "iord_data (logged regs) (ju_hw s) = (v, h)"
    and "v AND DATA_RVALID_MSK \<noteq> 0"
  shows "moved s (s\<lparr>ju_hw := h, ju_rx := ring_push (data_byte v) (ju_rx s)\<rparr>) [RdData v]"
  using assms uart_ring.push_ok [of "ju_rx s" "data_byte v"]
  by (auto simp: moved_def rings_ok_def logged_def ring_push_frame split: prod.splits)

lemma moved_invalid:
  assumes "rings_ok s" "iord_data (logged regs) (ju_hw s) = (v, h)" "v AND DATA_RVALID_MSK = 0"
  shows "moved s (s\<lparr>ju_hw := h\<rparr>) [RdData v]"
  using assms by (auto simp: moved_def rings_ok_def logged_def split: prod.splits)

lemma rx_drain_moved:
  "rx_drain regs' data s = Some r \<Longrightarrow> regs' = logged regs \<Longrightarrow> rings_ok s \<Longrightarrow> \<exists>l. moved s (snd r) l"
proof (induction rule: rx_drain.raw_induct [rotated, consumes 1, case_names step])
  case (step drain regs' data s r)
  show ?case
  proof (cases "ring_full (ju_rx s)")
    case True
    with step show ?thesis by (auto intro!: exI [of _ "[]"] moved_refl)
  next
    case full: False
    obtain v h where v: "iord_data (logged regs) (ju_hw s) = (v, h)" by (cases "iord_data (logged regs) (ju_hw s)")
    show ?thesis
    proof (cases "v AND DATA_RVALID_MSK = 0")
      case True
      with step full v moved_invalid [OF step.prems(2) v] show ?thesis by auto
    next
      case False
      let ?s = "s\<lparr>ju_hw := h, ju_rx := ring_push (data_byte v) (ju_rx s)\<rparr>"
      have m: "moved s ?s [RdData v]" using moved_push [OF step.prems(2) full v False] .
      have "drain regs' v ?s = Some r" using step.hyps step.prems(1) full v False by simp
      from step.IH [OF this step.prems(1) moved_rings [OF m]] moved_trans [OF m] show ?thesis by blast
    qed
  qed
qed

lemma isr_rx_moved:
  assumes "isr_rx (logged regs) s = Some s'" "rings_ok s"
  shows "\<exists>l. moved s s' l"
proof -
  from assms(1) obtain data s1 where d: "rx_drain (logged regs) (push_bit 16 1) s = Some (data, s1)"
    and s': "s' = (if data AND DATA_RAVAIL_MSK \<noteq> 0 then
        let s2 = s1\<lparr>ju_irq_enable := ju_irq_enable s1 AND NOT CONTROL_RE_MSK\<rparr>
        in snd (read_control (logged regs) (write_control (logged regs) (ju_irq_enable s2) s2))
      else s1)"
    by (auto simp: isr_rx_def)
  from rx_drain_moved [OF d refl assms(2)] obtain l where l: "moved s s1 l" by auto
  show ?thesis
  proof (cases "data AND DATA_RAVAIL_MSK \<noteq> 0")
    case False
    with l s' show ?thesis by auto
  next
    case True
    let ?s2 = "s1\<lparr>ju_irq_enable := ju_irq_enable s1 AND NOT CONTROL_RE_MSK\<rparr>"
    let ?s3 = "write_control (logged regs) (ju_irq_enable ?s2) ?s2"
    obtain v s4 where r: "read_control (logged regs) ?s3 = (v, s4)" by (cases "read_control (logged regs) ?s3")
    have 2: "moved s ?s2 l" using l by simp
    have 3: "moved ?s2 ?s3 [WrControl (ju_irq_enable ?s2)]" using moved_write_control moved_rings [OF 2] by blast
    have 4: "moved ?s3 s4 [RdControl v]" using moved_read_control [OF moved_rings [OF 3] r] .
    have "s' = s4" using s' True r by (simp add: Let_def)
    with moved_trans [OF moved_trans [OF 2 3] 4] show ?thesis by blast
  qed
qed

lemma tx_fill_moved:
  "tx_fill (logged regs) n s = (n', s') \<Longrightarrow> rings_ok s \<Longrightarrow> \<exists>l. moved s s' l"
proof (induction n arbitrary: s)
  case 0
  then show ?case by (auto intro!: exI [of _ "[]"] moved_refl)
next
  case (Suc n)
  show ?case
  proof (cases "ring_empty (ju_tx s)")
    case True
    with Suc.prems show ?thesis by (auto intro!: exI [of _ "[]"] moved_refl)
  next
    case False
    obtain c r where p: "ring_pop (ju_tx s) = (c, r)" by (cases "ring_pop (ju_tx s)")
    let ?s = "s\<lparr>ju_hw := iowr_data (logged regs) (ucast c) (ju_hw s), ju_tx := r\<rparr>"
    have ok: "ring_ok (ju_tx s)" using Suc.prems(2) by (simp add: rings_ok_def)
    have b: "rb_buf r = rb_buf (ju_tx s)" using p by (auto simp: ring_pop_def)
    have c: "ucast (ucast c :: u32) = c"
      by (rule ucast_u8_u32)
    have m: "moved s ?s [WrData (ucast c)]"
      using ring_pop_ok [OF ok False p] Suc.prems(2) b c
      by (auto simp: moved_def rings_ok_def logged_def split: prod.splits)
    have "tx_fill (logged regs) n ?s = (n', s')" using Suc.prems(1) False p by simp
    from Suc.IH [OF this moved_rings [OF m]] moved_trans [OF m] show ?thesis by blast
  qed
qed

lemma isr_tx_moved:
  assumes "rings_ok s"
  shows "\<exists>l. moved s (isr_tx (logged regs) control s) l"
proof -
  obtain n s1 where t: "tx_fill (logged regs) (unat (drop_bit 16 (control AND CONTROL_WSPACE_MSK))) s = (n, s1)"
    by fastforce
  from tx_fill_moved [OF this assms] obtain l where l: "moved s s1 l" by blast
  show ?thesis
  proof (cases "0 < n")
    case False
    with l t show ?thesis by (auto simp: isr_tx_def)
  next
    case True
    let ?s2 = "s1\<lparr>ju_irq_enable := ju_irq_enable s1 AND NOT CONTROL_WE_MSK\<rparr>"
    let ?s3 = "write_control (logged regs) (ju_irq_enable ?s2) ?s2"
    obtain v s4 where r: "read_control (logged regs) ?s3 = (v, s4)" by (cases "read_control (logged regs) ?s3")
    have 2: "moved s ?s2 l" using l by simp
    have 3: "moved ?s2 ?s3 [WrControl (ju_irq_enable ?s2)]" using moved_write_control moved_rings [OF 2] by blast
    have 4: "moved ?s3 s4 [RdControl v]" using moved_read_control [OF moved_rings [OF 3] r] .
    have "isr_tx (logged regs) control s = s4" using t True r by (simp add: isr_tx_def Let_def)
    with moved_trans [OF moved_trans [OF 2 3] 4] show ?thesis by auto
  qed
qed

lemma uart_irq_moved:
  "uart_irq regs' s = Some s' \<Longrightarrow> regs' = logged regs \<Longrightarrow> rings_ok s \<Longrightarrow> \<exists>l. moved s s' l"
proof (induction rule: uart_irq.raw_induct [rotated, consumes 1, case_names step])
  case (step irq regs' s s')
  obtain control s1 where c: "read_control (logged regs) s = (control, s1)" by fastforce
  have m1: "moved s s1 [RdControl control]" using moved_read_control [OF step.prems(2) c] .
  show ?case
  proof (cases "control AND (CONTROL_RI_MSK OR CONTROL_WI_MSK) = 0")
    case True
    with step c m1 show ?thesis by auto
  next
    case False
    with step.hyps step.prems(1) c obtain s2
      where s2: "(if control AND CONTROL_RI_MSK \<noteq> 0 then isr_rx (logged regs) s1 else Some s1) = Some s2"
        and k: "irq regs' (if control AND CONTROL_WI_MSK \<noteq> 0 then isr_tx (logged regs) control s2 else s2) = Some s'"
      by (auto simp: bind_eq_Some_conv)
    have "\<exists>l. moved s1 s2 l"
      using s2 isr_rx_moved [of regs s1 s2] moved_refl moved_rings [OF m1] by (auto split: if_splits)
    then obtain l2 where m2: "moved s1 s2 l2" by blast
    let ?s3 = "if control AND CONTROL_WI_MSK \<noteq> 0 then isr_tx (logged regs) control s2 else s2"
    have "\<exists>l. moved s2 ?s3 l"
      using isr_tx_moved [OF moved_rings [OF m2]] moved_refl [OF moved_rings [OF m2]] by auto
    then obtain l3 where m3: "moved s2 ?s3 l3" by blast
    from step.IH [OF k step.prems(1) moved_rings [OF m3]] obtain l4 where "moved ?s3 s' l4" by blast
    with m1 m2 m3 moved_trans show ?thesis by blast
  qed
qed

section \<open>What the foreground calls do while the handler runs\<close>

text \<open>
  What an asynchronous event may do: add to the end of the receive queue, take from the front of the
  transmit queue, and change the counters and the device; the pointers the foreground calls own, and
  the bytes they have put in the transmit buffer, stay.
\<close>

definition log_trace :: "'h \<times> uart_access list \<Rightarrow> u8 list \<times> u8 list" where
  "log_trace w = (received (snd w), sent (snd w))"

text \<open>
  \<open>flow tr s s' got put\<close>: no byte is lost, doubled or out of order while a call takes \<open>got\<close> from the
  receive queue and puts \<open>put\<close> into the transmit queue.  \<open>tr\<close> tells the bytes the device has delivered so
  far and the bytes it was given.
\<close>

definition flow :: "('h \<Rightarrow> u8 list \<times> u8 list) \<Rightarrow> 'h uart \<Rightarrow> 'h uart \<Rightarrow> u8 list \<Rightarrow> u8 list \<Rightarrow> bool" where
  "flow tr s s' got put \<longleftrightarrow> rings_ok s' \<and>
     (\<exists>xs. fst (tr (ju_hw s')) = fst (tr (ju_hw s)) @ xs \<and> ring_queue (ju_rx s) @ xs = got @ ring_queue (ju_rx s')) \<and>
     (\<exists>ys. snd (tr (ju_hw s')) = snd (tr (ju_hw s)) @ ys \<and> ring_queue (ju_tx s) @ put = ys @ ring_queue (ju_tx s'))"

definition async :: "('h \<Rightarrow> u8 list \<times> u8 list) \<Rightarrow> 'h uart \<Rightarrow> 'h uart \<Rightarrow> bool" where
  "async tr s s' \<longleftrightarrow> flow tr s s' [] [] \<and>
     rb_out (ju_rx s') = rb_out (ju_rx s) \<and> rb_in (ju_tx s') = rb_in (ju_tx s) \<and>
     rb_buf (ju_tx s') = rb_buf (ju_tx s) \<and> ju_timeout s' = ju_timeout s"

definition async_events :: "('h \<Rightarrow> u8 list \<times> u8 list) \<Rightarrow> 'h events \<Rightarrow> bool" where
  "async_events tr es \<longleftrightarrow> (\<forall>e \<in> set es. \<forall>s. rings_ok s \<longrightarrow> async tr s (e s))"

text \<open>The registers through which the foreground calls enable interrupts move no bytes.\<close>

definition control_quiet :: "('h \<Rightarrow> u8 list \<times> u8 list) \<Rightarrow> 'h regs \<Rightarrow> bool" where
  "control_quiet tr regs \<longleftrightarrow> (\<forall>v h. tr (iowr_control regs v h) = tr h)"

lemma logged_quiet: "control_quiet log_trace (logged regs)"
  by (auto simp: control_quiet_def log_trace_def logged_def)

lemma flow_refl: "rings_ok s \<Longrightarrow> flow tr s s [] []"
  by (simp add: flow_def)

lemma flow_trans:
  assumes "flow tr s t b p" "flow tr t u c q"
  shows "flow tr s u (b @ c) (p @ q)"
proof -
  from assms(1) obtain x y where 1: "fst (tr (ju_hw t)) = fst (tr (ju_hw s)) @ x" "ring_queue (ju_rx s) @ x = b @ ring_queue (ju_rx t)"
    "snd (tr (ju_hw t)) = snd (tr (ju_hw s)) @ y" "ring_queue (ju_tx s) @ p = y @ ring_queue (ju_tx t)" by (auto simp: flow_def)
  from assms(2) obtain x' y' where 2: "fst (tr (ju_hw u)) = fst (tr (ju_hw t)) @ x'" "ring_queue (ju_rx t) @ x' = c @ ring_queue (ju_rx u)"
    "snd (tr (ju_hw u)) = snd (tr (ju_hw t)) @ y'" "ring_queue (ju_tx t) @ q = y' @ ring_queue (ju_tx u)" by (auto simp: flow_def)
  have "ring_queue (ju_rx s) @ (x @ x') = (b @ c) @ ring_queue (ju_rx u)" using 1(2) 2(2) by (metis append.assoc)
  moreover have "ring_queue (ju_tx s) @ (p @ q) = (y @ y') @ ring_queue (ju_tx u)" using 1(4) 2(4) by (metis append.assoc)
  ultimately show ?thesis using 1(1,3) 2(1,3) assms(2) unfolding flow_def
    by (intro conjI exI [of _ "x @ x'"] exI [of _ "y @ y'"]) simp_all
qed

lemma flow_rings: "flow tr s s' b p \<Longrightarrow> rings_ok s'"
  by (simp add: flow_def)

lemma flow_control:
  "control_quiet tr regs \<Longrightarrow> flow tr s (write_control regs v (s'\<lparr>ju_irq_enable := e\<rparr>)) b p = flow tr s s' b p"
  by (simp add: flow_def write_control_def rings_ok_def control_quiet_def)

text \<open>
  The interrupt handler and the timer as events, over recorded registers.  A run of the handler is an event only
  where it returns: otherwise the call it interrupts never goes on, and \<open>isr_event\<close> says nothing.  On a device that
  keeps to its documentation it always returns (\<^verbatim>\<open>JtagIrq\<close>), and what is said of handler events is said of such a device.
\<close>

definition isr_event :: "'h regs \<Rightarrow> ('h \<times> uart_access list) uart \<Rightarrow> ('h \<times> uart_access list) uart" where
  "isr_event regs s = the (uart_irq (logged regs) s)"

definition timeout_event :: "'h regs \<Rightarrow> ('h \<times> uart_access list) uart \<Rightarrow> ('h \<times> uart_access list) uart" where
  "timeout_event regs s = snd (uart_timeout (logged regs) 0 s)"

lemma async_refl: "rings_ok s \<Longrightarrow> async tr s s"
  by (simp add: async_def flow_refl)

lemma async_flow: "async tr s s' \<Longrightarrow> flow tr s s' [] []"
  by (simp add: async_def)

lemma async_rings: "async tr s s' \<Longrightarrow> rings_ok s'"
  by (simp add: async_def flow_def)

lemma moved_async: "moved s s' l \<Longrightarrow> async log_trace s s'"
  by (auto simp: moved_def async_def flow_def log_trace_def)

lemma isr_event_async: "rings_ok s \<Longrightarrow> uart_irq (logged regs) s \<noteq> None \<Longrightarrow> async log_trace s (isr_event regs s)"
  using uart_irq_moved [OF _ refl, of regs s] moved_async by (auto simp: isr_event_def)

lemma timeout_event_async:
  assumes "rings_ok s"
  shows "async log_trace s (timeout_event regs s)"
proof -
  obtain c s1 where c: "read_control (logged regs) s = (c, s1)" by fastforce
  have m: "async log_trace s s1" using moved_async [OF moved_read_control [OF assms c]] .
  moreover have "async log_trace s (write_control (logged regs) v s1)" for v
    using m flow_control [OF logged_quiet, where s = s and s' = s1 and e = "ju_irq_enable s1"] by (simp add: async_def write_control_def)
  ultimately show ?thesis using c
    by (auto simp: timeout_event_def uart_timeout_def async_def flow_def rings_ok_def Let_def)
qed

lemma next_event_async:
  assumes "next_event es s = (es', s')" "async_events tr es" "rings_ok s"
  shows "async tr s s'" "async_events tr es'" "rings_ok s'"
  using assms by (cases es; auto simp: async_events_def async_refl async_rings)+

text \<open>One round of the read loop: the event between the copy and the update cannot spoil it.\<close>

lemma took_chunk:
  assumes "rings_ok s" "n \<le> ring_avail (ju_rx s)" "async tr s t"
  shows "flow tr s (t\<lparr>ju_rx := (ju_rx t)\<lparr>rb_out := (rb_out (ju_rx s) + n) mod BUF_LEN\<rparr>\<rparr>) (ring_copy_out n (ju_rx s)) []"
proof -
  have s: "ring_ok (ju_rx s)" and t: "ring_ok (ju_rx t)" "ring_ok (ju_tx t)" and o: "rb_out (ju_rx t) = rb_out (ju_rx s)"
    using assms by (auto simp: rings_ok_def async_def flow_def)
  obtain xs where x: "fst (tr (ju_hw t)) = fst (tr (ju_hw s)) @ xs" "ring_queue (ju_rx t) = ring_queue (ju_rx s) @ xs"
    using assms(3) by (auto simp: async_def flow_def)
  have "ring_count (ju_rx s) \<le> ring_count (ju_rx t)" using arg_cong [OF x(2), of length] by simp
  then have n: "n \<le> ring_avail (ju_rx t)" using assms(2) by (simp add: ring_avail_min [OF s] ring_avail_min [OF t(1)] o)
  have adv: "(ju_rx t)\<lparr>rb_out := (rb_out (ju_rx s) + n) mod BUF_LEN\<rparr> = ring_advance_out n (ju_rx t)"
    by (simp add: ring_advance_out_def o)
  have len: "n \<le> length (ring_queue (ju_rx s))" using uart_ring.get_length_le [OF s assms(2)] .
  from ring_take_ok [OF t(1) n] ring_take_ok(2) [OF s assms(2)] x(2) len
  have "ring_queue (ju_rx s) @ xs = ring_copy_out n (ju_rx s) @ ring_queue (ring_advance_out n (ju_rx t))"
    by simp
  with ring_take_ok(1) [OF t(1) n] t(2) x(1) assms(3) show ?thesis
    unfolding flow_def adv by (auto simp: rings_ok_def async_def flow_def)
qed

text \<open>One round of the write loop.\<close>

lemma gave_chunk:
  assumes "rings_ok s" "length xs \<le> ring_room (ju_tx s)" "async tr (s\<lparr>ju_tx := ring_copy_in xs (ju_tx s)\<rparr>) t"
  shows "flow tr s (t\<lparr>ju_tx := (ju_tx t)\<lparr>rb_in := (rb_in (ju_tx s) + length xs) mod BUF_LEN\<rparr>\<rparr>) [] xs"
proof -
  let ?r = "ju_tx s" and ?c = "ring_copy_in xs (ju_tx s)" and ?t = "ju_tx t"
  let ?r1 = "?r\<lparr>rb_out := rb_out ?t\<rparr>"
  have s: "ring_ok ?r" and t: "ring_ok ?t" "ring_ok (ju_rx t)"
    and i: "rb_in ?t = rb_in ?c" "rb_buf ?t = rb_buf ?c"
    using assms by (auto simp: rings_ok_def async_def flow_def)
  obtain ys where y: "snd (tr (ju_hw t)) = snd (tr (ju_hw s)) @ ys" "ring_queue ?c = ys @ ring_queue ?t"
    using assms(3) by (auto simp: async_def flow_def)
  have t_eq: "?t = ring_copy_in xs ?r1"
    using i by (simp add: ring_copy_in_def)
  have r1: "ring_ok ?r1" using s t(1) by (simp add: ring_ok_def)
  have cnt: "ring_count ?r1 = ring_count ?t" using i by (simp add: ring_count_def ring_copy_in_def)
  have "ring_queue ?c = ring_queue ?r" using ring_put_ok(3) [OF s assms(2)] .
  with y(2) have q: "ring_queue ?r = ys @ ring_queue ?t" by simp
  have "length (ring_queue ?r) = length ys + length (ring_queue ?t)" unfolding q by simp
  then have "ring_count ?t \<le> ring_count ?r" by simp
  then have "length xs \<le> ring_room ?r1"
    using assms(2) by (auto simp: ring_room_min [OF s] ring_room_min [OF r1] cnt)
  from ring_put_ok [OF r1 this, folded t_eq]
  have "ring_ok (ring_advance_in (length xs) ?t)" "ring_queue (ring_advance_in (length xs) ?t) = ring_queue ?t @ xs"
    by simp_all
  moreover have "?t\<lparr>rb_in := (rb_in ?r + length xs) mod BUF_LEN\<rparr> = ring_advance_in (length xs) ?t"
    using i by (simp add: ring_advance_in_def ring_copy_in_def)
  ultimately show ?thesis using q t(2) y(1) assms(3) by (auto simp: flow_def rings_ok_def async_def)
qed

lemma read_chunks_took:
  assumes "read_chunks space es s = (i, bytes, space', es', s')" "rings_ok s" "async_events tr es"
  shows "flow tr s s' bytes [] \<and> async_events tr es' \<and> length bytes + space' = space"
  using assms
proof (induction space es s arbitrary: i bytes space' es' s' rule: read_chunks.induct)
  case (1 space es s)
  obtain es1 s1 where e1: "next_event es s = (es1, s1)" by fastforce
  note a1 = next_event_async [OF e1 "1.prems"(3,2)]
  let ?n = "ring_avail (ju_rx s1)"
  show ?case
  proof (cases "?n = 0 \<or> space = 0")
    case True
    with "1.prems"(1) e1 a1 async_flow [OF a1(1)] show ?thesis
      by (subst (asm) read_chunks.simps) auto
  next
    case False
    let ?n1 = "if space < ?n then space else ?n"
    let ?b = "ring_copy_out ?n1 (ju_rx s1)"
    obtain es2 s2 where e2: "next_event es1 s1 = (es2, s2)" by fastforce
    note a2 = next_event_async [OF e2 a1(2,3)]
    let ?s3 = "s2\<lparr>ju_rx := (ju_rx s2)\<lparr>rb_out := (rb_out (ju_rx s1) + ?n1) mod BUF_LEN\<rparr>\<rparr>"
    have t3: "flow tr s1 ?s3 ?b []" using a1(3) a2(1) by (intro took_chunk) auto
    have t: "flow tr s ?s3 ?b []" using flow_trans [OF async_flow [OF a1(1)] t3] by simp
    then have ok3: "rings_ok ?s3" by (simp add: flow_def)
    have lb: "length ?b = ?n1"
      using a1(3) uart_ring.get_ok [of "ju_rx s1" ?n1] by (auto simp: rings_ok_def)
    show ?thesis
    proof (cases "0 < space - ?n1")
      case True
      obtain i2 more space2 es3 s4 where r: "read_chunks (space - ?n1) es2 ?s3 = (i2, more, space2, es3, s4)"
        by (rule prod_cases5)
      have ih: "flow tr ?s3 s4 more [] \<and> async_events tr es3 \<and> length more + space2 = space - ?n1"
        using "1.IH" [OF e1 [symmetric] refl refl refl refl False refl refl e2 [symmetric] refl refl refl True] r ok3 a2(2)
        by blast
      have "(i, bytes, space', es', s') = (i2, ?b @ more, space2, es3, s4)"
        using "1.prems"(1) e1 e2 False True r by (subst (asm) read_chunks.simps) (simp add: Let_def)
      with ih flow_trans [OF t, of s4 more "[]"] lb True show ?thesis by auto
    next
      case no: False
      have "(bytes, space', es', s') = (?b, space - ?n1, es2, ?s3)"
        using "1.prems"(1) e1 e2 False no by (subst (asm) read_chunks.simps) (simp add: Let_def)
      with t a2(2) lb show ?thesis by auto
    qed
  qed
qed

lemma spin_read_async:
  "spin_read i es s = Inr (es', s') \<Longrightarrow> rings_ok s \<Longrightarrow> async_events tr es \<Longrightarrow> flow tr s s' [] [] \<and> async_events tr es'"
proof (induction es arbitrary: s)
  case Nil
  then show ?case by (subst (asm) spin_read.simps) (auto split: if_splits simp: async_flow async_refl)
next
  case (Cons e es)
  show ?case
  proof (cases "i = rb_in (ju_rx s) \<and> ju_host_inactive s < ju_timeout s")
    case True
    with Cons.prems(1) have "spin_read i es (e s) = Inr (es', s')" by (subst (asm) spin_read.simps) simp
    moreover have a: "async tr s (e s)" "async_events tr es" using Cons.prems(2,3) by (auto simp: async_events_def)
    ultimately show ?thesis
      using Cons.IH [OF _ async_rings [OF a(1)] a(2)] flow_trans [OF async_flow [OF a(1)], of s' "[]" "[]"] by simp
  next
    case False
    with Cons.prems show ?thesis
      by (subst (asm) spin_read.simps) (auto simp: async_flow async_refl)
  qed
qed

lemma spin_write_async:
  "spin_write i es s = Inr (es', s') \<Longrightarrow> rings_ok s \<Longrightarrow> async_events tr es \<Longrightarrow> flow tr s s' [] [] \<and> async_events tr es'"
proof (induction es arbitrary: s)
  case Nil
  then show ?case by (subst (asm) spin_write.simps) (auto split: if_splits simp: async_flow async_refl)
next
  case (Cons e es)
  show ?case
  proof (cases "i = rb_out (ju_tx s) \<and> ju_host_inactive s < ju_timeout s")
    case True
    with Cons.prems(1) have "spin_write i es (e s) = Inr (es', s')" by (subst (asm) spin_write.simps) simp
    moreover have a: "async tr s (e s)" "async_events tr es" using Cons.prems(2,3) by (auto simp: async_events_def)
    ultimately show ?thesis
      using Cons.IH [OF _ async_rings [OF a(1)] a(2)] flow_trans [OF async_flow [OF a(1)], of s' "[]" "[]"] by simp
  next
    case False
    with Cons.prems show ?thesis
      by (subst (asm) spin_write.simps) (auto simp: async_flow async_refl)
  qed
qed

lemma read_loop_took:
  assumes "read_loop space flags es s = Inr (bytes, es', s')" "rings_ok s" "async_events tr es"
  shows "flow tr s s' bytes [] \<and> async_events tr es' \<and> length bytes \<le> space"
  using assms
proof (induction space flags es s arbitrary: bytes es' s' rule: read_loop.induct)
  case (1 space flags es s)
  show ?case
  proof (cases "0 < space")
    case False
    with "1.prems" show ?thesis by (subst (asm) read_loop.simps) (auto simp: async_flow async_refl)
  next
    case sp: True
    obtain i b space1 es1 s1 where r: "read_chunks space es s = (i, b, space1, es1, s1)" by (rule prod_cases5)
    note t1 = read_chunks_took [OF r "1.prems"(2,3)]
    show ?thesis
    proof (cases "b \<noteq> [] \<or> flags AND O_NONBLOCK \<noteq> 0")
      case True
      with "1.prems"(1) sp r have "bytes = b" "s' = s1" "es' = es1"
        by (subst (asm) read_loop.simps, cases "b = []", auto simp: Let_def)+
      with t1 show ?thesis by auto
    next
      case no: False
      then have b: "b = []" "flags AND O_NONBLOCK = 0" by auto
      with "1.prems"(1) sp r obtain es2 s2 where sr: "spin_read i es1 s1 = Inr (es2, s2)"
        and k: "(if i = rb_in (ju_rx s2) then Inr ([], es2, s2)
                 else if length es2 < length es then read_loop space1 flags es2 s2 else Inl Spins) = Inr (bytes, es', s')"
        by (subst (asm) read_loop.simps) (auto simp: Let_def split: sum.splits)
      have ok1: "rings_ok s1" using t1 by (simp add: flow_def)
      have t2: "flow tr s1 s2 [] []" "async_events tr es2" using spin_read_async [OF sr ok1] t1 by auto
      have t: "flow tr s s2 [] []" using flow_trans [of tr s s1 b "[]" s2 "[]" "[]"] t1 t2 b by simp
      then have ok2: "rings_ok s2" by (simp add: flow_def)
      show ?thesis
      proof (cases "i = rb_in (ju_rx s2)")
        case True
        with k t t2(2) show ?thesis by auto
      next
        case False
        with k have less: "length es2 < length es" and rec: "read_loop space1 flags es2 s2 = Inr (bytes, es', s')"
          by (auto split: if_splits)
        have "flow tr s2 s' bytes [] \<and> async_events tr es' \<and> length bytes \<le> space1"
          using "1.IH" [OF sp r [symmetric] refl refl refl refl _ _ sr refl False less rec ok2 t2(2)] b by auto
        with flow_trans [OF t, of s' bytes "[]"] t1 show ?thesis by auto
      qed
    qed
  qed
qed

lemma write_chunks_gave:
  assumes "write_chunks prev ptr es s = (out, rest, es', s')" "rings_ok s" "async_events tr es"
  shows "\<exists>copied. ptr = copied @ rest \<and> flow tr s s' [] copied \<and> async_events tr es'"
  using assms
proof (induction prev ptr es s arbitrary: out rest es' s' rule: write_chunks.induct)
  case (1 prev ptr es s)
  show ?case
  proof (cases "ptr = []")
    case True
    with "1.prems" show ?thesis by (subst (asm) write_chunks.simps) (auto simp: async_flow async_refl)
  next
    case ne: False
    obtain es1 s1 where e1: "next_event es s = (es1, s1)" by fastforce
    note a1 = next_event_async [OF e1 "1.prems"(3,2)]
    let ?n = "ring_room (ju_tx s1)"
    show ?thesis
    proof (cases "?n = 0")
      case True
      with "1.prems"(1) ne e1 a1 async_flow [OF a1(1)] show ?thesis
        by (subst (asm) write_chunks.simps) (auto simp: Let_def)
    next
      case False
      let ?n1 = "if length ptr < ?n then length ptr else ?n"
      let ?s2 = "s1\<lparr>ju_tx := ring_copy_in (take ?n1 ptr) (ju_tx s1)\<rparr>"
      obtain es2 s3 where e2: "next_event es1 ?s2 = (es2, s3)" by fastforce
      have room: "length (take ?n1 ptr) \<le> ?n" by auto
      have ok2: "rings_ok ?s2"
        using a1(3) ring_put_ok(1) [OF _ room] by (auto simp: rings_ok_def)
      note a2 = next_event_async [OF e2 a1(2) ok2]
      let ?s4 = "s3\<lparr>ju_tx := (ju_tx s3)\<lparr>rb_in := (rb_in (ju_tx s1) + ?n1) mod BUF_LEN\<rparr>\<rparr>"
      have "length (take ?n1 ptr) = ?n1" by auto
      with gave_chunk [OF a1(3) room a2(1)] have g: "flow tr s1 ?s4 [] (take ?n1 ptr)" by simp
      have g: "flow tr s ?s4 [] (take ?n1 ptr)" using flow_trans [OF async_flow [OF a1(1)] g] by simp
      then have ok4: "rings_ok ?s4" by (simp add: flow_def)
      have rec: "write_chunks (rb_out (ju_tx s1)) (drop ?n1 ptr) es2 ?s4 = (out, rest, es', s')"
        using "1.prems"(1) ne e1 e2 False by (subst (asm) write_chunks.simps) (simp add: Let_def)
      from "1.IH" [OF ne e1 [symmetric] refl refl refl refl False refl refl e2 [symmetric] refl refl rec ok4 a2(2)]
      obtain copied where c: "drop ?n1 ptr = copied @ rest" "flow tr ?s4 s' [] copied" "async_events tr es'" by blast
      have "ptr = (take ?n1 ptr @ copied) @ rest" using c(1) by (metis append.assoc append_take_drop_id)
      with flow_trans [OF g c(2)] c(3) show ?thesis by (intro exI [of _ "take ?n1 ptr @ copied"]) simp
    qed
  qed
qed

lemma write_loop_gave:
  assumes "write_loop regs prev ptr flags es s = Inr (rest, es', s')" "rings_ok s" "async_events tr es"
    and "control_quiet tr regs"
  shows "\<exists>copied. ptr = copied @ rest \<and> flow tr s s' [] copied \<and> async_events tr es'"
  using assms
proof (induction regs prev ptr flags es s arbitrary: rest es' s' rule: write_loop.induct)
  case (1 regs prev ptr flags es s)
  obtain out b es1 s1 where w: "write_chunks prev ptr es s = (out, b, es1, s1)" by (rule prod_cases4)
  from write_chunks_gave [OF w "1.prems"(2,3)] obtain c where c: "ptr = c @ b" "flow tr s s1 [] c" "async_events tr es1" by blast
  let ?s2 = "s1\<lparr>ju_irq_enable := ju_irq_enable s1 OR CONTROL_WE_MSK\<rparr>"
  let ?s3 = "write_control regs (ju_irq_enable ?s2) ?s2"
  have g3: "flow tr s ?s3 [] c" using flow_control [OF "1.prems"(4), where s = s and s' = s1] c(2) by simp
  show ?case
  proof (cases "b = [] \<or> flags AND O_NONBLOCK \<noteq> 0")
    case True
    with "1.prems"(1) w have "rest = b" "s' = ?s3" "es' = es1"
      by (subst (asm) write_loop.simps, cases "b = []", auto simp: Let_def)+
    with g3 c(1,3) show ?thesis by auto
  next
    case no: False
    with "1.prems"(1) w obtain es2 s4 where sw: "spin_write out es1 ?s3 = Inr (es2, s4)"
      and k: "(if ju_host_inactive s4 \<noteq> 0 then Inr (b, es2, s4)
               else if length es2 < length es then write_loop regs out b flags es2 s4 else Inl Spins) = Inr (rest, es', s')"
      by (subst (asm) write_loop.simps) (auto simp: Let_def split: sum.splits)
    have ok3: "rings_ok ?s3" using g3 by (simp add: flow_def)
    from spin_write_async [OF sw ok3 c(3)] have g4: "flow tr s s4 [] c" "async_events tr es2"
      using flow_trans [OF g3] by fastforce+
    then have ok4: "rings_ok s4" by (simp add: flow_def)
    show ?thesis
    proof (cases "ju_host_inactive s4 \<noteq> 0")
      case True
      with k g4 c(1) show ?thesis by auto
    next
      case False
      with k have less: "length es2 < length es" and rec: "write_loop regs out b flags es2 s4 = Inr (rest, es', s')"
        by (auto split: if_splits)
      from no have nb: "b \<noteq> []" "\<not> flags AND O_NONBLOCK \<noteq> 0" by auto
      from "1.IH" [OF w [symmetric] refl refl refl refl refl nb sw refl False less rec ok4 g4(2) "1.prems"(4)]
      obtain d where "b = d @ rest" "flow tr s4 s' [] d" "async_events tr es'" by blast
      with flow_trans [OF g4(1)] c(1) show ?thesis by (intro exI [of _ "c @ d"]) auto
    qed
  qed
qed

section \<open>When the foreground calls return\<close>

text \<open>
  The copy loops stop early only when the ring is full and empty; so a call that does not wait, and one
  that finds what it needs, returns, and a call that does not return spins in its wait.
\<close>

lemma write_chunks_full:
  "write_chunks prev ptr es s = (out, rest, es', s') \<Longrightarrow> rest \<noteq> [] \<Longrightarrow> ring_room (ju_tx s') = 0"
proof (induction prev ptr es s arbitrary: out rest es' s' rule: write_chunks.induct)
  case (1 prev ptr es s)
  show ?case
  proof (cases "ptr = []")
    case True
    with "1.prems" show ?thesis by (subst (asm) write_chunks.simps) auto
  next
    case ne: False
    obtain es1 s1 where e1: "next_event es s = (es1, s1)" by fastforce
    let ?n = "ring_room (ju_tx s1)"
    show ?thesis
    proof (cases "?n = 0")
      case True
      with "1.prems" ne e1 show ?thesis by (subst (asm) write_chunks.simps) (auto simp: Let_def)
    next
      case False
      let ?n1 = "if length ptr < ?n then length ptr else ?n"
      let ?s2 = "s1\<lparr>ju_tx := ring_copy_in (take ?n1 ptr) (ju_tx s1)\<rparr>"
      obtain es2 s3 where e2: "next_event es1 ?s2 = (es2, s3)" by fastforce
      have rec: "write_chunks (rb_out (ju_tx s1)) (drop ?n1 ptr) es2
          (s3\<lparr>ju_tx := (ju_tx s3)\<lparr>rb_in := (rb_in (ju_tx s1) + ?n1) mod BUF_LEN\<rparr>\<rparr>) = (out, rest, es', s')"
        using "1.prems"(1) ne e1 e2 False by (subst (asm) write_chunks.simps) (simp add: Let_def)
      show ?thesis
        by (rule "1.IH" [OF ne e1 [symmetric] refl refl refl refl False refl refl e2 [symmetric] refl refl rec "1.prems"(2)])
    qed
  qed
qed

lemma write_chunks_fits:
  assumes "write_chunks prev ptr es s = (out, rest, es', s')" "rings_ok s" "async_events tr es"
    and "length (ring_queue (ju_tx s)) + length ptr < BUF_LEN"
  shows "rest = []"
proof (rule ccontr)
  assume r: "rest \<noteq> []"
  from write_chunks_gave [OF assms(1-3)] obtain c taken where c: "ptr = c @ rest" and ok: "rings_ok s'"
    and q: "ring_queue (ju_tx s) @ c = taken @ ring_queue (ju_tx s')" by (auto simp: flow_def)
  have "ring_ok (ju_tx s')" using ok by (simp add: rings_ok_def)
  from write_chunks_full [OF assms(1) r] uart_ring.room_0 [OF this] uart_ring.full_iff [OF this]
  have "length (ring_queue (ju_tx s')) = BUF_LEN - 1" by simp
  moreover have "length (ring_queue (ju_tx s')) \<le> length (ring_queue (ju_tx s)) + length c"
    using arg_cong [OF q, of length] by simp
  moreover have "length c < length ptr" using c r by simp
  ultimately show False using assms(4) by simp
qed

lemma read_chunks_empty:
  assumes "read_chunks space es s = (i, [], space', es', s')" "0 < space" "rings_ok s" "async_events tr es"
  shows "ring_queue (ju_rx s) = []"
proof -
  obtain es1 s1 where e1: "next_event es s = (es1, s1)" by fastforce
  note a1 = next_event_async [OF e1 assms(4,3)]
  then have ok: "ring_ok (ju_rx s1)" by (simp add: rings_ok_def)
  have "ring_avail (ju_rx s1) = 0"
  proof (rule ccontr)
    assume n: "ring_avail (ju_rx s1) \<noteq> 0"
    let ?n1 = "if space < ring_avail (ju_rx s1) then space else ring_avail (ju_rx s1)"
    have "length (ring_copy_out ?n1 (ju_rx s1)) = ?n1" using uart_ring.get_ok [OF ok, of ?n1] by simp
    then have "ring_copy_out ?n1 (ju_rx s1) \<noteq> []" using n assms(2) by (auto split: if_splits)
    with assms(1,2) e1 n show False
      by (subst (asm) read_chunks.simps) (auto simp: Let_def split: prod.splits if_splits)
  qed
  then have "ring_queue (ju_rx s1) = []" using uart_ring.avail_0 [OF ok] by simp
  with a1(1) show ?thesis by (auto simp: async_def flow_def)
qed

lemma spin_read_stuck: "spin_read i es s = Inl e \<Longrightarrow> e = Spins"
  by (induction es arbitrary: s) (subst (asm) spin_read.simps, force split: if_splits)+

lemma spin_write_stuck: "spin_write i es s = Inl e \<Longrightarrow> e = Spins"
  by (induction es arbitrary: s) (subst (asm) spin_write.simps, force split: if_splits)+

lemma uart_read_returns:
  assumes "flags AND O_NONBLOCK \<noteq> 0 \<or> space \<le> 0 \<or> ring_queue (ju_rx s) \<noteq> []" "rings_ok s" "async_events tr es"
  shows "\<exists>r bytes es' s'. uart_read regs space flags es s = Inr ((r, bytes), es', s') \<and>
     (0 < space \<and> ring_queue (ju_rx s) \<noteq> [] \<longrightarrow> bytes \<noteq> [])"
proof -
  obtain i b space1 es1 s1 where r: "read_chunks (nat space) es s = (i, b, space1, es1, s1)" by (rule prod_cases5)
  have "0 < space \<and> ring_queue (ju_rx s) \<noteq> [] \<longrightarrow> b \<noteq> []"
    using read_chunks_empty [of "nat space" es s i space1 es1 s1] r assms(2,3) by auto
  with assms(1) r show ?thesis
    by (cases "0 < space"; cases "b = []")
      (auto simp: uart_read_def read_loop.simps [of "nat space"] read_loop.simps [of 0] Let_def)
qed

lemma uart_write_returns:
  assumes "flags AND O_NONBLOCK \<noteq> 0 \<or> length (ring_queue (ju_tx s)) + length ptr < BUF_LEN"
    "rings_ok s" "async_events tr es"
  shows "\<exists>r es' s'. uart_write regs ptr flags es s = Inr (r, es', s') \<and>
     (ptr \<noteq> [] \<and> length (ring_queue (ju_tx s)) + length ptr < BUF_LEN \<longrightarrow> r = int (length ptr))"
proof -
  obtain out b es1 s1 where w: "write_chunks 0 ptr es s = (out, b, es1, s1)" by (rule prod_cases4)
  have "length (ring_queue (ju_tx s)) + length ptr < BUF_LEN \<longrightarrow> b = []"
    using write_chunks_fits [OF w assms(2,3)] by blast
  then show ?thesis
    using assms(1) w by (cases "b = []") (auto simp: uart_write_def write_loop.simps [of regs 0] Let_def)
qed

lemma read_loop_stuck: "read_loop space flags es s = Inl e \<Longrightarrow> e = Spins"
proof (induction space flags es s rule: read_loop.induct)
  case (1 space flags es s)
  obtain i b space1 es1 s1 where r: "read_chunks space es s = (i, b, space1, es1, s1)" by (rule prod_cases5)
  from "1.prems" r have sp: "0 < space" and b: "\<not> b \<noteq> []" "\<not> flags AND O_NONBLOCK \<noteq> 0"
    by (subst (asm) read_loop.simps, auto simp: Let_def split: if_splits)+
  show ?case
  proof (cases "spin_read i es1 s1")
    case (Inl e')
    with "1.prems" sp r b spin_read_stuck [OF Inl] show ?thesis by (subst (asm) read_loop.simps) simp
  next
    case (Inr p)
    then obtain es2 s2 where sr: "spin_read i es1 s1 = Inr (es2, s2)" by (cases p) simp
    with "1.prems" sp r b "1.IH" [OF sp r [symmetric] refl refl refl refl b sr refl]
    show ?thesis by (subst (asm) read_loop.simps) (auto split: if_splits)
  qed
qed

lemma write_loop_stuck: "write_loop regs prev ptr flags es s = Inl e \<Longrightarrow> e = Spins"
proof (induction regs prev ptr flags es s rule: write_loop.induct)
  case (1 regs prev ptr flags es s)
  obtain out b es1 s1 where w: "write_chunks prev ptr es s = (out, b, es1, s1)" by (rule prod_cases4)
  let ?s2 = "s1\<lparr>ju_irq_enable := ju_irq_enable s1 OR CONTROL_WE_MSK\<rparr>"
  let ?s3 = "write_control regs (ju_irq_enable ?s2) ?s2"
  from "1.prems" w have b: "b \<noteq> []" "\<not> flags AND O_NONBLOCK \<noteq> 0"
    by (subst (asm) write_loop.simps, auto simp: Let_def split: if_splits)+
  show ?case
  proof (cases "spin_write out es1 ?s3")
    case (Inl e')
    with "1.prems" w b spin_write_stuck [OF Inl] show ?thesis by (subst (asm) write_loop.simps) (simp add: Let_def)
  next
    case (Inr p)
    then obtain es2 s2 where sw: "spin_write out es1 ?s3 = Inr (es2, s2)" by (cases p) simp
    with "1.prems" w b "1.IH" [OF w [symmetric] refl refl refl refl refl b sw refl]
    show ?thesis by (subst (asm) write_loop.simps) (auto simp: Let_def split: if_splits)
  qed
qed

lemma uart_read_stuck: "uart_read regs space flags es s = Inl e \<Longrightarrow> e = Spins"
  by (auto simp: uart_read_def andThen_Inl_iff dest: read_loop_stuck)

lemma uart_write_stuck: "uart_write regs ptr flags es s = Inl e \<Longrightarrow> e = Spins"
  by (auto simp: uart_write_def andThen_Inl_iff dest: write_loop_stuck)

section \<open>Properties of the interrupt-driven driver\<close>

lemma uart_instance_ok: "rings_ok (uart_instance h)"
  by (simp add: rings_ok_def uart_instance_def ring_init_ok)

text \<open>C23: Whatever the device answers, when the interrupt handler returns it has put every valid byte it
  read at the end of the receive queue, in order and overwriting nothing, and every byte it sent came
  from the front of the transmit queue, in order; it has not touched the pointers of the foreground
  calls.\<close>

theorem isr_keeps_queues:
  assumes "rings_ok s" and "uart_irq (logged regs) s = Some s'"
  shows "\<exists>l. snd (ju_hw s') = snd (ju_hw s) @ l \<and> rings_ok s' \<and>
             ring_queue (ju_rx s') = ring_queue (ju_rx s) @ received l \<and>
             ring_queue (ju_tx s) = sent l @ ring_queue (ju_tx s') \<and>
             rb_out (ju_rx s') = rb_out (ju_rx s) \<and> rb_in (ju_tx s') = rb_in (ju_tx s)"
  using uart_irq_moved [OF assms(2) refl assms(1)] by (auto simp: moved_def)

text \<open>A read that runs while the handler and the timer do anything they may returns the next bytes of
  the received stream, and no byte is lost in either direction.  It returns at most as many bytes as there is
  space, and an error exactly when it returns none.\<close>

lemma uart_read_stream:
  assumes "rings_ok s" and "async_events tr es" and "control_quiet tr regs"
    and "uart_read regs space flags es s = Inr ((r, bytes), es', s')"
  shows "flow tr s s' bytes [] \<and> async_events tr es' \<and>
         (if bytes = [] then r = (if flags AND O_NONBLOCK \<noteq> 0 then - EWOULDBLOCK else - EIO)
          else r = int (length bytes) \<and> r \<le> space)"
proof -
  from assms(4) obtain s1 where l: "read_loop (nat space) flags es s = Inr (bytes, es', s1)"
    and s': "s' = (if bytes = [] then s1 else write_control regs (ju_irq_enable s1 OR CONTROL_RE_MSK)
                     (s1\<lparr>ju_irq_enable := ju_irq_enable s1 OR CONTROL_RE_MSK\<rparr>))"
    and r: "r = (if bytes = [] then (if flags AND O_NONBLOCK \<noteq> 0 then - EWOULDBLOCK else - EIO)
                 else int (length bytes))"
    by (auto simp: uart_read_def andThen_Inr_iff Let_def split: if_splits)
  from read_loop_took [OF l assms(1,2)] have t: "flow tr s s1 bytes []" "async_events tr es'" "length bytes \<le> nat space"
    by auto
  have "flow tr s s' bytes []" using t(1) flow_control [OF assms(3), where s = s and s' = s1] s' by (cases "bytes = []") simp_all
  moreover from t(3) have "bytes \<noteq> [] \<Longrightarrow> int (length bytes) \<le> space" by (cases bytes) auto
  ultimately show ?thesis using r t(2) by simp
qed

text \<open>A write that runs while the handler and the timer do anything they may accepts a prefix of the
  caller's bytes, as long as its result says, and puts it at the end of the transmit stream, and no byte is lost
  in either direction.  An error is returned exactly when nothing was accepted.\<close>

lemma uart_write_stream:
  assumes "rings_ok s" and "async_events tr es" and "control_quiet tr regs"
    and "uart_write regs ptr flags es s = Inr (r, es', s')"
  shows "\<exists>n. n \<le> length ptr \<and> flow tr s s' [] (take n ptr) \<and> async_events tr es' \<and>
             r = (if 0 < n then int n else if flags AND O_NONBLOCK \<noteq> 0 then - EWOULDBLOCK else - EIO)"
proof -
  from assms(4) obtain rest where l: "write_loop regs 0 ptr flags es s = Inr (rest, es', s')"
    and r: "r = (if length rest \<noteq> length ptr then int (length ptr) - int (length rest)
                 else if flags AND O_NONBLOCK \<noteq> 0 then - EWOULDBLOCK else - EIO)"
    by (auto simp: uart_write_def andThen_Inr_iff)
  from write_loop_gave [OF l assms(1,2,3)] obtain c where "ptr = c @ rest" "flow tr s s' [] c" "async_events tr es'" by blast
  then show ?thesis using r by (intro exI [of _ "length c"]) auto
qed

text \<open>A call that asks for nothing is reported as an error, whatever the state of the device.\<close>

lemma uart_zero_length:
  "uart_read regs 0 flags es s = Inr ((if flags AND O_NONBLOCK \<noteq> 0 then - EWOULDBLOCK else - EIO, []), es, s)"
  "\<exists>s'. uart_write regs [] flags es s = Inr (if flags AND O_NONBLOCK \<noteq> 0 then - EWOULDBLOCK else - EIO, es, s')"
  by (subst uart_read_def, subst read_loop.simps, simp)
    (subst uart_write_def, subst write_loop.simps, subst write_chunks.simps, simp add: Let_def)

text \<open>Close succeeds exactly when it finds the transmit buffer drained or the host inactive for the
  timeout.  In non-blocking mode it otherwise fails at once and changes nothing; in blocking mode it
  otherwise waits, for ever if after everything that happens there is still data and an active host.\<close>

lemma uart_close_result:
  "(case uart_close flags es s of
      Inr (r, es', s') \<Rightarrow>
        (r = 0 \<and> (ring_empty (ju_tx s') \<or> ju_timeout s' \<le> ju_host_inactive s')) \<or>
        (r = - EWOULDBLOCK \<and> flags AND O_NONBLOCK \<noteq> 0 \<and> s' = s \<and> es' = es \<and>
         \<not> ring_empty (ju_tx s) \<and> ju_host_inactive s < ju_timeout s)
    | Inl e \<Rightarrow> e = Spins \<and> flags AND O_NONBLOCK = 0 \<and>
        (let s' = fold (\<lambda>f t. f t) es s in \<not> ring_empty (ju_tx s') \<and> ju_host_inactive s' < ju_timeout s'))"
proof (induction es arbitrary: s)
  case Nil
  show ?case by (subst uart_close.simps) (auto simp: not_less)
next
  case (Cons e es)
  show ?case
  proof (cases "\<not> ring_empty (ju_tx s) \<and> ju_host_inactive s < ju_timeout s \<and> flags AND O_NONBLOCK = 0")
    case True
    then have "uart_close flags (e # es) s = uart_close flags es (e s)" by (subst uart_close.simps) simp
    with Cons [of "e s"] True show ?thesis by (simp add: Let_def split: sum.splits prod.splits)
  next
    case False
    then show ?thesis by (subst uart_close.simps) (auto simp: not_less)
  qed
qed

text \<open>The timer never lets the inactivity count reach the value that marks an absent timer, so it
  cannot wrap round: a count below \<^verbatim>\<open>INT_MAX - 1\<close> stays below it.\<close>

lemma uart_timeout_bounded:
  assumes "ju_host_inactive s < INT_MAX - 1"
  shows "ju_host_inactive (snd (uart_timeout regs ticks s)) < INT_MAX - 1"
proof -
  obtain c s1 where c: "read_control regs s = (c, s1)" by fastforce
  then have i: "ju_host_inactive s1 = ju_host_inactive s" by (auto simp: read_control_def split: prod.splits)
  have "x < INT_MAX - 2 \<Longrightarrow> x + 1 < INT_MAX - 1" for x :: u32
  proof -
    assume x: "x < INT_MAX - 2"
    then have "unat x < 2147483645" by (simp add: word_less_nat_alt)
    then have "unat (x + 1) = unat x + 1" by (subst unat_add_no_overflow) auto
    with \<open>unat x < 2147483645\<close> show "x + 1 < INT_MAX - 1" by (simp add: word_less_nat_alt)
  qed
  with assms i c show ?thesis by (auto simp: uart_timeout_def Let_def word_less_nat_alt)
qed

section \<open>Witnesses\<close>

text \<open>
  A device with a queue of bytes from the host and the list of bytes it was sent, that interrupts while
  it holds a byte, and has room for eight.
\<close>

definition fifo_regs :: "(u8 list \<times> u8 list) regs" where
  "fifo_regs = \<lparr>
     iord_data = (\<lambda>(rx, tx). case rx of [] \<Rightarrow> (0, rx, tx)
                   | c # cs \<Rightarrow> (ucast c OR DATA_RVALID_MSK OR (if cs = [] then 0 else 0x10000), cs, tx)),
     iowr_data = (\<lambda>v (rx, tx). (rx, tx @ [ucast v])),
     iord_control = (\<lambda>(rx, tx). (0x80000 OR (if rx = [] then 0 else CONTROL_RI_MSK), rx, tx)),
     iowr_control = (\<lambda>v h. h)\<rparr>"

definition uart1 :: "((u8 list \<times> u8 list) \<times> uart_access list) uart" where
  "uart1 = uart_instance (([65], []), [])"

lemma rx_drain_uart1:
  "rx_drain (logged fifo_regs) d (uart1\<lparr>ju_hw := (([65], []), l)\<rparr>) =
     Some (0, uart1\<lparr>ju_hw := (([], []), l @ [RdData 0x8041, RdData 0]), ju_rx := ring_push 65 ring_init\<rparr>)"
proof -
  have f: "\<not> ring_full ring_init" "\<not> ring_full (ring_push 65 ring_init)"
    by (simp_all add: ring_full_def ring_init_def ring_push_def)
  show ?thesis
    by (subst rx_drain.simps, simp add: f uart1_def uart_instance_def logged_def fifo_regs_def data_byte_def,
        subst rx_drain.simps, simp add: f)
qed

lemma uart1_irq:
  "\<exists>l. uart_irq (logged fifo_regs) uart1 =
       Some (uart1\<lparr>ju_hw := (([], []), l), ju_rx := ring_push 65 ring_init\<rparr>)"
proof -
  have u: "uart1 = uart1\<lparr>ju_hw := (([65], []), [])\<rparr>" by (simp add: uart1_def uart_instance_def)
  let ?l = "[RdControl 0x80100]"
  have c: "read_control (logged fifo_regs) uart1 = (0x80100, uart1\<lparr>ju_hw := (([65], []), ?l)\<rparr>)"
    by (simp add: read_control_def uart1_def uart_instance_def logged_def fifo_regs_def)
  let ?s = "uart1\<lparr>ju_hw := (([], []), ?l @ [RdData 0x8041, RdData 0]), ju_rx := ring_push 65 ring_init\<rparr>"
  have r: "isr_rx (logged fifo_regs) (uart1\<lparr>ju_hw := (([65], []), ?l)\<rparr>) = Some ?s"
    by (simp add: isr_rx_def rx_drain_uart1)
  have c2: "read_control (logged fifo_regs) ?s =
      (0x80000, ?s\<lparr>ju_hw := (([], []), ?l @ [RdData 0x8041, RdData 0, RdControl 0x80000])\<rparr>)"
    by (simp add: read_control_def uart1_def uart_instance_def logged_def fifo_regs_def)
  have "uart_irq (logged fifo_regs) ?s =
      Some (?s\<lparr>ju_hw := (([], []), ?l @ [RdData 0x8041, RdData 0, RdControl 0x80000])\<rparr>)"
    by (subst uart_irq.simps, subst c2) simp
  then have "uart_irq (logged fifo_regs) uart1 =
      Some (?s\<lparr>ju_hw := (([], []), ?l @ [RdData 0x8041, RdData 0, RdControl 0x80000])\<rparr>)"
    by (subst uart_irq.simps, subst c) (simp add: r)
  then show ?thesis by (intro exI [of _ "?l @ [RdData 0x8041, RdData 0, RdControl 0x80000]"]) simp
qed

theorem isr_keeps_queues_witness:
  "\<exists>s'. uart_irq (logged fifo_regs) uart1 = Some s' \<and> ring_queue (ju_rx s') = received (snd (ju_hw s')) \<and>
        ring_queue (ju_rx s') = [65]"
proof -
  from uart1_irq obtain l where u: "uart_irq (logged fifo_regs) uart1 =
       Some (uart1\<lparr>ju_hw := (([], []), l), ju_rx := ring_push 65 ring_init\<rparr>)" by blast
  have ok: "rings_ok uart1" by (simp add: uart1_def uart_instance_ok)
  have "\<not> ring_full ring_init" by (simp add: ring_full_def ring_init_def)
  then have "ring_queue (ring_push 65 ring_init) = [65]"
    using uart_ring.push_ok [OF ring_init_ok(1), of 65] ring_init_ok(2) by simp
  with isr_keeps_queues [OF ok u] u ring_init_ok(2) show ?thesis by (auto simp: uart1_def uart_instance_def)
qed

text \<open>A receive queue that holds one byte.\<close>

definition uart2 :: "((u8 list \<times> u8 list) \<times> uart_access list) uart" where
  "uart2 = uart1\<lparr>ju_rx := ring_push 65 ring_init\<rparr>"

end
