(* ===== verification/DevList.thy ===== *)
theory DevList
  imports LList
begin

text \<open>
  The device registry: lists of named devices (\<^verbatim>\<open>alt_dev_llist_insert.c\<close>, \<^verbatim>\<open>alt_dev_reg\<close> in
  \<^verbatim>\<open>alt_dev.c\<close>, \<^verbatim>\<open>alt_fs_reg.c\<close>), the lookups by exact name and by mount point (\<^verbatim>\<open>alt_find_dev.c\<close>,
  \<^verbatim>\<open>alt_find_file.c\<close>), and the two interfaces built on them, DMA channels (\<^verbatim>\<open>sys/alt_dma.h\<close>,
  \<^verbatim>\<open>sys/alt_dma_dev.h\<close>, \<^verbatim>\<open>alt_dma_txchan_open.c\<close>, \<^verbatim>\<open>alt_dma_rxchan_open.c\<close>) and flash devices
  (\<^verbatim>\<open>alt_flash_dev.c\<close>, \<^verbatim>\<open>sys/alt_flash.h\<close>).
\<close>

section \<open>State\<close>

text \<open>
  The list node is the first member of every device structure, and the name the second
  (\<^verbatim>\<open>alt_dev_llist\<close>); a null name is \<open>None\<close>.
\<close>

record registry =
  rg_links :: llheap
  rg_name :: "addr \<Rightarrow> string option"
  rg_errno :: int

section \<open>Registration\<close>

definition alt_dev_llist_insert ::
    "addr \<Rightarrow> addr \<Rightarrow> 'a registry_scheme \<Rightarrow> int \<times> 'a registry_scheme" where
  "alt_dev_llist_insert dev list s =
     (if dev = 0 \<or> rg_name s dev = None then (- EINVAL, s\<lparr>rg_errno := EINVAL\<rparr>)
      else (0, s\<lparr>rg_links := alt_llist_insert list dev (rg_links s)\<rparr>))"

text \<open>The argument \<open>alt_dev_list\<close> is the address of the list head of that name.\<close>

definition alt_dev_reg :: "addr \<Rightarrow> addr \<Rightarrow> 'a registry_scheme \<Rightarrow> int \<times> 'a registry_scheme" where
  "alt_dev_reg alt_dev_list dev s = alt_dev_llist_insert dev alt_dev_list s"

text \<open>\<^verbatim>\<open>alt_fs_reg\<close> reads \<^verbatim>\<open>dev->name\<close> without a test of \<^verbatim>\<open>dev\<close>, and sets no error number.\<close>

definition alt_fs_reg ::
    "addr \<Rightarrow> addr \<Rightarrow> 'a registry_scheme \<Rightarrow> stuck + (int \<times> 'a registry_scheme)" where
  "alt_fs_reg alt_fs_list dev s =
     (if dev = 0 then Inl NullDeref
      else if rg_name s dev = None then Inr (- ENODEV, s)
      else Inr (0, s\<lparr>rg_links := alt_llist_insert alt_fs_list dev (rg_links s)\<rparr>))"

section \<open>Lookup by name\<close>

abbreviation MAX_STRING_LENGTH :: nat where "MAX_STRING_LENGTH \<equiv> 1000"

text \<open>The inner loop: the index at which the comparison of the two names stops.\<close>

function name_scan :: "string \<Rightarrow> string \<Rightarrow> nat \<Rightarrow> nat" where
  "name_scan name dname len =
     (if char_at name len \<noteq> nul \<and> char_at dname len \<noteq> nul \<and> len < MAX_STRING_LENGTH then
        if char_at dname len \<noteq> char_at name len then len else name_scan name dname (len + 1)
      else len)"
  by pat_completeness auto
termination by (relation "measure (\<lambda>(_, _, len). MAX_STRING_LENGTH - len)") auto

definition name_match :: "string \<Rightarrow> string \<Rightarrow> bool" where
  "name_match name dname =
     (let len = name_scan name dname 0 in char_at name len = nul \<and> char_at dname len = nul)"

partial_function (option) alt_find_dev_loop ::
    "string \<Rightarrow> addr \<Rightarrow> llheap \<Rightarrow> (addr \<Rightarrow> string option) \<Rightarrow> addr \<Rightarrow> (stuck + addr) option" where
  "alt_find_dev_loop name llist links names next =
     (if next = llist then Some (Inr 0)
      else case names next of
             None \<Rightarrow> Some (Inl NullDeref)
           | Some dname \<Rightarrow>
               if name_match name dname then Some (Inr next)
               else alt_find_dev_loop name llist links names (ll_next links next))"

definition alt_find_dev :: "string \<Rightarrow> addr \<Rightarrow> 'a registry_scheme \<Rightarrow> stuck + addr" where
  "alt_find_dev name llist s =
     (if llist = 0 then Inr 0
      else returned (alt_find_dev_loop name llist (rg_links s) (rg_name s) (ll_next (rg_links s) llist)))"

section \<open>Lookup by mount point\<close>

abbreviation slash :: char where "slash \<equiv> CHR ''/''"

text \<open>The inner loop of \<^verbatim>\<open>alt_find_file\<close>: does the file system's name own the file's?\<close>

function mount_scan :: "string \<Rightarrow> string \<Rightarrow> nat \<Rightarrow> bool" where
  "mount_scan name fname len =
     (if len < MAX_STRING_LENGTH then
        if (char_at fname len = slash \<and> char_at fname (len + 1) = nul) \<or> char_at fname len = nul
        then char_at name len = slash \<or> char_at name len = nul
        else if char_at fname len \<noteq> char_at name len then False
        else mount_scan name fname (len + 1)
      else False)"
  by pat_completeness auto
termination by (relation "measure (\<lambda>(_, _, len). MAX_STRING_LENGTH - len)") auto

declare name_scan.simps [simp del] mount_scan.simps [simp del]

partial_function (option) alt_find_file_loop ::
    "string \<Rightarrow> addr \<Rightarrow> llheap \<Rightarrow> (addr \<Rightarrow> string option) \<Rightarrow> addr \<Rightarrow> (stuck + addr) option" where
  "alt_find_file_loop name fs_list links names next =
     (if next = fs_list then Some (Inr 0)
      else case names next of
             None \<Rightarrow> Some (Inl NullDeref)
           | Some fname \<Rightarrow>
               if mount_scan name fname 0 then Some (Inr next)
               else alt_find_file_loop name fs_list links names (ll_next links next))"

definition alt_find_file :: "addr \<Rightarrow> string \<Rightarrow> 'a registry_scheme \<Rightarrow> stuck + addr" where
  "alt_find_file alt_fs_list name s =
     returned (alt_find_file_loop name alt_fs_list (rg_links s) (rg_name s) (ll_next (rg_links s) alt_fs_list))"

section \<open>DMA channels\<close>

text \<open>
  The callbacks of a channel, null ones being \<open>None\<close>; they run on the state \<open>'w\<close> of the drivers.  A
  buffer, the \<^verbatim>\<open>done\<close> callback and its handle are passed through as addresses.
\<close>

record 'w alt_dma_txchan_dev =
  tx_space :: "('w \<Rightarrow> stuck + int \<times> 'w) option"
  tx_send :: "(addr \<Rightarrow> u32 \<Rightarrow> addr \<Rightarrow> addr \<Rightarrow> 'w \<Rightarrow> stuck + int \<times> 'w) option"
  tx_ioctl :: "(int \<Rightarrow> addr \<Rightarrow> 'w \<Rightarrow> stuck + int \<times> 'w) option"

record 'w alt_dma_rxchan_dev =
  rx_depth :: u32
  rx_prepare :: "(addr \<Rightarrow> u32 \<Rightarrow> addr \<Rightarrow> addr \<Rightarrow> 'w \<Rightarrow> stuck + int \<times> 'w) option"
  rx_ioctl :: "(int \<Rightarrow> addr \<Rightarrow> 'w \<Rightarrow> stuck + int \<times> 'w) option"

definition alt_dma_txchan_reg :: "addr \<Rightarrow> addr \<Rightarrow> 'a registry_scheme \<Rightarrow> int \<times> 'a registry_scheme" where
  "alt_dma_txchan_reg txchan_list dev s = alt_dev_llist_insert dev txchan_list s"

definition alt_dma_rxchan_reg :: "addr \<Rightarrow> addr \<Rightarrow> 'a registry_scheme \<Rightarrow> int \<times> 'a registry_scheme" where
  "alt_dma_rxchan_reg rxchan_list dev s = alt_dev_llist_insert dev rxchan_list s"

definition alt_dma_txchan_open ::
    "addr \<Rightarrow> string \<Rightarrow> 'a registry_scheme \<Rightarrow> stuck + (addr \<times> 'a registry_scheme)" where
  "alt_dma_txchan_open txchan_list name s =
     andThen (alt_find_dev name txchan_list s)
       (\<lambda>dev. Inr (dev, if dev = 0 then s\<lparr>rg_errno := ENODEV\<rparr> else s))"

definition alt_dma_rxchan_open ::
    "addr \<Rightarrow> string \<Rightarrow> 'a registry_scheme \<Rightarrow> stuck + (addr \<times> 'a registry_scheme)" where
  "alt_dma_rxchan_open rxchan_list name s =
     andThen (alt_find_dev name rxchan_list s)
       (\<lambda>dev. Inr (dev, if dev = 0 then s\<lparr>rg_errno := ENODEV\<rparr> else s))"

definition alt_dma_txchan_close :: "addr \<Rightarrow> int" where
  "alt_dma_txchan_close dma = 0"

definition alt_dma_rxchan_close :: "addr \<Rightarrow> int" where
  "alt_dma_rxchan_close dma = 0"

definition alt_dma_txchan_send ::
    "(addr \<Rightarrow> 'w alt_dma_txchan_dev) \<Rightarrow> addr \<Rightarrow> addr \<Rightarrow> u32 \<Rightarrow> addr \<Rightarrow> addr \<Rightarrow> 'w \<Rightarrow> stuck + (int \<times> 'w)" where
  "alt_dma_txchan_send devs dma from len finished handle w =
     (if dma \<noteq> 0 then call_ptr (tx_send (devs dma)) (\<lambda>f. f from len finished handle w)
      else Inr (- ENODEV, w))"

definition alt_dma_txchan_space ::
    "(addr \<Rightarrow> 'w alt_dma_txchan_dev) \<Rightarrow> addr \<Rightarrow> 'w \<Rightarrow> stuck + (int \<times> 'w)" where
  "alt_dma_txchan_space devs dma w =
     (if dma \<noteq> 0 then call_ptr (tx_space (devs dma)) (\<lambda>f. f w) else Inr (- ENODEV, w))"

definition alt_dma_txchan_ioctl ::
    "(addr \<Rightarrow> 'w alt_dma_txchan_dev) \<Rightarrow> addr \<Rightarrow> int \<Rightarrow> addr \<Rightarrow> 'w \<Rightarrow> stuck + (int \<times> 'w)" where
  "alt_dma_txchan_ioctl devs dma req arg w =
     (if dma \<noteq> 0 then call_ptr (tx_ioctl (devs dma)) (\<lambda>f. f req arg w) else Inr (- ENODEV, w))"

definition alt_dma_rxchan_prepare ::
    "(addr \<Rightarrow> 'w alt_dma_rxchan_dev) \<Rightarrow> addr \<Rightarrow> addr \<Rightarrow> u32 \<Rightarrow> addr \<Rightarrow> addr \<Rightarrow> 'w \<Rightarrow> stuck + (int \<times> 'w)" where
  "alt_dma_rxchan_prepare devs dma data len finished handle w =
     (if dma \<noteq> 0 then call_ptr (rx_prepare (devs dma)) (\<lambda>f. f data len finished handle w)
      else Inr (- ENODEV, w))"

definition alt_dma_rxchan_ioctl ::
    "(addr \<Rightarrow> 'w alt_dma_rxchan_dev) \<Rightarrow> addr \<Rightarrow> int \<Rightarrow> addr \<Rightarrow> 'w \<Rightarrow> stuck + (int \<times> 'w)" where
  "alt_dma_rxchan_ioctl devs dma req arg w =
     (if dma \<noteq> 0 then call_ptr (rx_ioctl (devs dma)) (\<lambda>f. f req arg w) else Inr (- ENODEV, w))"

text \<open>The depth is read without the test the other calls make.\<close>

definition alt_dma_rxchan_depth :: "(addr \<Rightarrow> 'w alt_dma_rxchan_dev) \<Rightarrow> addr \<Rightarrow> stuck + u32" where
  "alt_dma_rxchan_depth devs dma = (if dma = 0 then Inl NullDeref else Inr (rx_depth (devs dma)))"

section \<open>Flash devices\<close>

record 'w alt_flash_dev =
  fl_open :: "(string \<Rightarrow> 'w \<Rightarrow> stuck + addr \<times> 'w) option"
  fl_close :: "('w \<Rightarrow> stuck + int \<times> 'w) option"
  fl_write :: "(int \<Rightarrow> addr \<Rightarrow> int \<Rightarrow> 'w \<Rightarrow> stuck + int \<times> 'w) option"
  fl_read :: "(int \<Rightarrow> addr \<Rightarrow> int \<Rightarrow> 'w \<Rightarrow> stuck + int \<times> 'w) option"
  fl_get_info :: "(addr \<Rightarrow> addr \<Rightarrow> 'w \<Rightarrow> stuck + int \<times> 'w) option"
  fl_erase_block :: "(int \<Rightarrow> 'w \<Rightarrow> stuck + int \<times> 'w) option"
  fl_write_block :: "(int \<Rightarrow> int \<Rightarrow> addr \<Rightarrow> int \<Rightarrow> 'w \<Rightarrow> stuck + int \<times> 'w) option"
  fl_lock :: "(u32 \<Rightarrow> 'w \<Rightarrow> stuck + int \<times> 'w) option"

definition alt_flash_open_dev ::
    "(addr \<Rightarrow> 'w alt_flash_dev) \<Rightarrow> addr \<Rightarrow> string \<Rightarrow> 'a registry_scheme \<Rightarrow> 'w \<Rightarrow> stuck + (addr \<times> 'w)" where
  "alt_flash_open_dev devs flash_list name s w =
     andThen (alt_find_dev name flash_list s)
       (\<lambda>dev. if dev \<noteq> 0 \<and> fl_open (devs dev) \<noteq> None
              then call_ptr (fl_open (devs dev)) (\<lambda>f. f name w)
              else Inr (dev, w))"

definition alt_flash_close_dev :: "(addr \<Rightarrow> 'w alt_flash_dev) \<Rightarrow> addr \<Rightarrow> 'w \<Rightarrow> stuck + 'w" where
  "alt_flash_close_dev devs fd w =
     (if fd \<noteq> 0 \<and> fl_close (devs fd) \<noteq> None
      then andThen (call_ptr (fl_close (devs fd)) (\<lambda>f. f w)) (\<lambda>(r, w'). Inr w')
      else Inr w)"

definition alt_flash_device_register ::
    "addr \<Rightarrow> addr \<Rightarrow> 'a registry_scheme \<Rightarrow> int \<times> 'a registry_scheme" where
  "alt_flash_device_register flash_list fd s = alt_dev_llist_insert fd flash_list s"

text \<open>The wrappers of \<^verbatim>\<open>sys/alt_flash.h\<close> follow the descriptor and the callback without tests.\<close>

definition flash_call ::
    "(addr \<Rightarrow> 'w alt_flash_dev) \<Rightarrow> addr \<Rightarrow> ('w alt_flash_dev \<Rightarrow> 'f option) \<Rightarrow> ('f \<Rightarrow> stuck + 'b) \<Rightarrow> stuck + 'b" where
  "flash_call devs fd op k = (if fd = 0 then Inl NullDeref else call_ptr (op (devs fd)) k)"

definition alt_lock_flash ::
    "(addr \<Rightarrow> 'w alt_flash_dev) \<Rightarrow> addr \<Rightarrow> u32 \<Rightarrow> 'w \<Rightarrow> stuck + (int \<times> 'w)" where
  "alt_lock_flash devs fd sectors_to_lock w = flash_call devs fd fl_lock (\<lambda>f. f sectors_to_lock w)"

definition alt_write_flash ::
    "(addr \<Rightarrow> 'w alt_flash_dev) \<Rightarrow> addr \<Rightarrow> int \<Rightarrow> addr \<Rightarrow> int \<Rightarrow> 'w \<Rightarrow> stuck + (int \<times> 'w)" where
  "alt_write_flash devs fd offset src_addr len w =
     flash_call devs fd fl_write (\<lambda>f. f offset src_addr len w)"

definition alt_read_flash ::
    "(addr \<Rightarrow> 'w alt_flash_dev) \<Rightarrow> addr \<Rightarrow> int \<Rightarrow> addr \<Rightarrow> int \<Rightarrow> 'w \<Rightarrow> stuck + (int \<times> 'w)" where
  "alt_read_flash devs fd offset dest_addr len w =
     flash_call devs fd fl_read (\<lambda>f. f offset dest_addr len w)"

definition alt_get_flash_info ::
    "(addr \<Rightarrow> 'w alt_flash_dev) \<Rightarrow> addr \<Rightarrow> addr \<Rightarrow> addr \<Rightarrow> 'w \<Rightarrow> stuck + (int \<times> 'w)" where
  "alt_get_flash_info devs fd info number_of_regions w =
     flash_call devs fd fl_get_info (\<lambda>f. f info number_of_regions w)"

text \<open>The length of the block is accepted and not used.\<close>

definition alt_erase_flash_block ::
    "(addr \<Rightarrow> 'w alt_flash_dev) \<Rightarrow> addr \<Rightarrow> int \<Rightarrow> int \<Rightarrow> 'w \<Rightarrow> stuck + (int \<times> 'w)" where
  "alt_erase_flash_block devs fd offset len w = flash_call devs fd fl_erase_block (\<lambda>f. f offset w)"

definition alt_write_flash_block ::
    "(addr \<Rightarrow> 'w alt_flash_dev) \<Rightarrow> addr \<Rightarrow> int \<Rightarrow> int \<Rightarrow> addr \<Rightarrow> int \<Rightarrow> 'w \<Rightarrow> stuck + (int \<times> 'w)" where
  "alt_write_flash_block devs fd block_offset data_offset data len w =
     flash_call devs fd fl_write_block (\<lambda>f. f block_offset data_offset data len w)"

section \<open>What the scans decide\<close>

lemma name_scan_prefix:
  assumes "\<forall>i < n. char_at a i = char_at b i \<and> char_at a i \<noteq> nul" and "n \<le> MAX_STRING_LENGTH" "m \<le> n"
  shows "name_scan a b m = name_scan a b n"
  using assms(3)
proof (induction "n - m" arbitrary: m)
  case 0
  then show ?case by simp
next
  case (Suc k)
  then have "m < n" by simp
  with assms Suc show ?case by (subst name_scan.simps) auto
qed

lemma name_scan_stop:
  "name_scan a b m = n \<Longrightarrow> m \<le> n \<and> (\<forall>i. m \<le> i \<and> i < n \<longrightarrow> char_at a i = char_at b i \<and> char_at a i \<noteq> nul) \<and>
     (m \<le> MAX_STRING_LENGTH \<longrightarrow> n \<le> MAX_STRING_LENGTH)"
proof (induction a b m rule: name_scan.induct)
  case (1 a b m)
  show ?case
  proof (cases "char_at a m \<noteq> nul \<and> char_at b m \<noteq> nul \<and> m < MAX_STRING_LENGTH \<and> char_at b m = char_at a m")
    case True
    with "1.prems" have "name_scan a b (m + 1) = n" by (subst (asm) name_scan.simps) simp
    with "1.IH" True have ih: "m + 1 \<le> n" "n \<le> MAX_STRING_LENGTH"
      "\<forall>i. m + 1 \<le> i \<and> i < n \<longrightarrow> char_at a i = char_at b i \<and> char_at a i \<noteq> nul" by auto
    have "char_at a i = char_at b i \<and> char_at a i \<noteq> nul" if "m \<le> i" "i < n" for i
    proof (cases "i = m")
      case i: True
      with True show ?thesis by simp
    next
      case False
      with that have "m + 1 \<le> i \<and> i < n" by simp
      with ih(3) show ?thesis by blast
    qed
    moreover have "m \<le> n" using ih(1) by simp
    ultimately show ?thesis using ih(2) by blast
  next
    case False
    with "1.prems" show ?thesis by (subst (asm) name_scan.simps) (auto split: if_splits)
  qed
qed

lemma cstr_eqI:
  assumes "cstr a" "cstr b" "\<forall>i < n. char_at a i = char_at b i \<and> char_at a i \<noteq> nul"
    "char_at a n = nul" "char_at b n = nul"
  shows "a = b" "length a = n"
proof -
  have "length a \<le> n" "length b \<le> n" using assms by (auto simp: char_at_nul_iff)
  moreover have "\<not> length a < n" "\<not> length b < n"
    using assms char_at_nul_iff [OF assms(1), of "length a"] char_at_nul_iff [OF assms(2), of "length b"] by auto
  ultimately show "length a = n" and "a = b"
    using assms(3) by (auto simp: char_at_def intro: nth_equalityI)
qed

lemma name_match_iff:
  assumes "cstr a" "cstr b"
  shows "name_match a b \<longleftrightarrow> a = b \<and> length a \<le> MAX_STRING_LENGTH"
proof
  assume m: "name_match a b"
  let ?n = "name_scan a b 0"
  from name_scan_stop [OF refl, where a = a and b = b and m = 0]
  have "\<forall>i < ?n. char_at a i = char_at b i \<and> char_at a i \<noteq> nul" "?n \<le> MAX_STRING_LENGTH" by blast+
  moreover from m have "char_at a ?n = nul" "char_at b ?n = nul" by (simp_all add: name_match_def Let_def)
  ultimately show "a = b \<and> length a \<le> MAX_STRING_LENGTH"
    using cstr_eqI [OF assms, of ?n] by metis
next
  assume eq: "a = b \<and> length a \<le> MAX_STRING_LENGTH"
  have nz: "\<forall>i < length a. char_at a i \<noteq> nul" using char_at_nul_iff [OF assms(1)] by auto
  then have "name_scan a b 0 = name_scan a b (length a)"
    using eq by (intro name_scan_prefix) auto
  also have "\<dots> = length a" using eq by (subst name_scan.simps) (simp add: char_at_def)
  finally show "name_match a b" using eq by (simp add: name_match_def char_at_def)
qed

text \<open>The mount point a file system's name stands for: one trailing slash does not count.\<close>

definition mount_point :: "string \<Rightarrow> string" where
  "mount_point fname = (if fname \<noteq> [] \<and> last fname = slash then butlast fname else fname)"

definition owns :: "string \<Rightarrow> string \<Rightarrow> bool" where
  "owns fname name \<longleftrightarrow> (\<exists>rest. name = mount_point fname @ rest \<and> (rest = [] \<or> hd rest = slash))"

lemma mount_point_char:
  "m < length (mount_point fname) \<Longrightarrow> m < length fname \<and> mount_point fname ! m = fname ! m"
  by (auto simp: mount_point_def nth_butlast split: if_splits)

lemma mount_point_guard:
  assumes "cstr fname" "m \<le> length (mount_point fname)"
  shows "((char_at fname m = slash \<and> char_at fname (m + 1) = nul) \<or> char_at fname m = nul) \<longleftrightarrow>
         m = length (mount_point fname)"
proof -
  have nz: "\<And>i. i < length fname \<Longrightarrow> fname ! i \<noteq> nul" using assms(1) by (rule cstr_nth)
  have sl: "slash \<noteq> nul" by (simp add: nul_def)
  show ?thesis
  proof (cases "fname \<noteq> [] \<and> last fname = slash")
    case True
    then obtain xs where f: "fname = xs @ [slash]" by (metis append_butlast_last_id)
    with assms(2) sl nz [of m] nz [of "m + 1"] show ?thesis
      by (auto simp: mount_point_def nth_append char_at_def)
  next
    case False
    then have "length fname = m + 1 \<Longrightarrow> fname ! m \<noteq> slash"
      by (metis add_diff_cancel_right' last_conv_nth list.size(3) nat.simps(3) Suc_eq_plus1)
    with False assms(2) sl nz [of m] nz [of "m + 1"] show ?thesis
      by (auto simp: mount_point_def char_at_def not_less_eq Suc_le_eq split: if_splits)
  qed
qed

lemma mount_scan_drop:
  assumes "cstr fname" "cstr name" "m \<le> length (mount_point fname)"
  shows "mount_scan name fname m \<longleftrightarrow> length (mount_point fname) < MAX_STRING_LENGTH \<and>
           (\<exists>rest. drop m name = drop m (mount_point fname) @ rest \<and> (rest = [] \<or> hd rest = slash))"
  using assms(3)
proof (induction "length (mount_point fname) - m" arbitrary: m)
  case 0
  then have "m = length (mount_point fname)" by simp
  moreover have "m < length name \<Longrightarrow> name ! m \<noteq> nul"
    using assms(2) by (rule cstr_nth)
  ultimately show ?case using mount_point_guard [OF assms(1), of m]
    by (subst mount_scan.simps) (auto simp: char_at_def hd_drop_conv_nth)
next
  case (Suc k)
  then have lt: "m < length (mount_point fname)" by simp
  let ?c = "mount_point fname ! m"
  have f: "m < length fname" "?c = fname ! m" using mount_point_char [OF lt] by auto
  have d: "drop m (mount_point fname) = ?c # drop (m + 1) (mount_point fname)"
    using lt by (simp add: Cons_nth_drop_Suc)
  have step: "mount_scan name fname m \<longleftrightarrow>
      m < MAX_STRING_LENGTH \<and> ?c = char_at name m \<and> mount_scan name fname (m + 1)"
    using mount_point_guard [OF assms(1), of m] lt f by (subst mount_scan.simps) (auto simp: char_at_def)
  show ?case
  proof (cases "m < length name")
    case True
    then have "drop m name = name ! m # drop (m + 1) name" by (simp add: Cons_nth_drop_Suc)
    with Suc.hyps(1) [of "m + 1"] Suc lt True step d show ?thesis by (auto simp: char_at_def)
  next
    case False
    moreover have "?c \<noteq> nul" using cstr_nth [OF assms(1) f(1)] f(2) by simp
    ultimately show ?thesis using step d by (auto simp: char_at_def)
  qed
qed

lemma mount_scan_iff:
  "cstr fname \<Longrightarrow> cstr name \<Longrightarrow>
   mount_scan name fname 0 \<longleftrightarrow> owns fname name \<and> length (mount_point fname) < MAX_STRING_LENGTH"
  using mount_scan_drop [of fname name 0] by (auto simp: owns_def)

section \<open>The lookups are searches of the lists\<close>

text \<open>Every entry of the list has a name that is a C string.\<close>

definition named :: "'a registry_scheme \<Rightarrow> addr list \<Rightarrow> bool" where
  "named s xs \<longleftrightarrow> (\<forall>x \<in> set xs. \<exists>n. rg_name s x = Some n \<and> cstr n)"

text \<open>The first entry that satisfies a predicate on its name, 0 when there is none.\<close>

definition first_named :: "'a registry_scheme \<Rightarrow> (string \<Rightarrow> bool) \<Rightarrow> addr list \<Rightarrow> addr" where
  "first_named s p xs = (case find (\<lambda>x. p (the (rg_name s x))) xs of None \<Rightarrow> 0 | Some x \<Rightarrow> x)"

lemma alt_find_dev_loop_list:
  assumes "dll (rg_links s) p xs l" "named s xs" "l \<notin> set xs" "cstr name"
  shows "alt_find_dev_loop name l (rg_links s) (rg_name s) (hd (xs @ [l])) =
           Some (Inr (first_named s (\<lambda>n. name = n \<and> length name \<le> MAX_STRING_LENGTH) xs))"
  using assms
proof (induction xs arbitrary: p)
  case Nil
  then show ?case by (subst alt_find_dev_loop.simps) (simp add: first_named_def)
next
  case (Cons x xs)
  then obtain n where n: "rg_name s x = Some n" "cstr n" by (auto simp: named_def)
  from Cons.prems have x: "x \<noteq> l" "dll (rg_links s) x xs l" "named s xs" "l \<notin> set xs"
    by (auto simp: named_def)
  from Cons.IH [OF x(2-4) assms(4)] dll_next_first [OF x(2)]
  show ?case using x(1) n name_match_iff [OF assms(4) n(2)]
    by (subst alt_find_dev_loop.simps) (auto simp: first_named_def)
qed

lemma alt_find_file_loop_list:
  assumes "dll (rg_links s) p xs l" "named s xs" "l \<notin> set xs" "cstr name"
  shows "alt_find_file_loop name l (rg_links s) (rg_name s) (hd (xs @ [l])) =
           Some (Inr (first_named s (\<lambda>n. owns n name \<and> length (mount_point n) < MAX_STRING_LENGTH) xs))"
  using assms
proof (induction xs arbitrary: p)
  case Nil
  then show ?case by (subst alt_find_file_loop.simps) (simp add: first_named_def)
next
  case (Cons x xs)
  then obtain n where n: "rg_name s x = Some n" "cstr n" by (auto simp: named_def)
  from Cons.prems have x: "x \<noteq> l" "dll (rg_links s) x xs l" "named s xs" "l \<notin> set xs"
    by (auto simp: named_def)
  from Cons.IH [OF x(2-4) assms(4)] dll_next_first [OF x(2)]
  show ?case using x(1) n mount_scan_iff [OF n(2) assms(4)]
    by (subst alt_find_file_loop.simps) (auto simp: first_named_def)
qed

lemma llist_first: "llist_at h l xs \<Longrightarrow> ll_next h l = hd (xs @ [l])"
  by (auto simp: llist_at_def dest: dll_next_first)

lemma alt_find_dev_list:
  assumes "llist_at (rg_links s) l xs" "named s xs" "cstr name" "l \<noteq> 0"
  shows "alt_find_dev name l s = Inr (first_named s (\<lambda>n. name = n \<and> length name \<le> MAX_STRING_LENGTH) xs)"
  using assms alt_find_dev_loop_list [of s l xs l name]
  by (simp add: alt_find_dev_def llist_first llist_at_def)

lemma alt_find_file_list:
  assumes "llist_at (rg_links s) l xs" "named s xs" "cstr name"
  shows "alt_find_file l name s =
           Inr (first_named s (\<lambda>n. owns n name \<and> length (mount_point n) < MAX_STRING_LENGTH) xs)"
  using assms alt_find_file_loop_list [of s l xs l name]
  by (simp add: alt_find_file_def llist_first llist_at_def)

section \<open>Properties\<close>

text \<open>Looking a device up by name follows the list and returns the first registered device whose
  name is exactly the one asked for, or null when there is none; the comparison stops after 1000
  characters, so a longer name is never found.\<close>

lemma alt_find_dev_first_match:
  assumes "llist_at (rg_links s) l xs" and "named s xs" and "cstr name" and "l \<noteq> 0" "0 \<notin> set xs"
  shows "\<exists>d. alt_find_dev name l s = Inr d \<and>
           (d \<noteq> 0 \<longrightarrow> (\<exists>as bs. xs = as @ d # bs \<and> rg_name s d = Some name \<and> length name \<le> MAX_STRING_LENGTH \<and>
                          (\<forall>x \<in> set as. rg_name s x \<noteq> Some name))) \<and>
           (d = 0 \<longleftrightarrow> MAX_STRING_LENGTH < length name \<or> (\<forall>x \<in> set xs. rg_name s x \<noteq> Some name))"
proof -
  let ?p = "\<lambda>x. name = the (rg_name s x) \<and> length name \<le> MAX_STRING_LENGTH"
  have nm: "x \<in> set xs \<Longrightarrow> name = the (rg_name s x) \<longleftrightarrow> rg_name s x = Some name" for x
    using assms(2) by (auto simp: named_def)
  show ?thesis
  proof (cases "find ?p xs")
    case None
    then have "\<forall>x \<in> set xs. \<not> ?p x" unfolding find_None_iff by blast
    then have "MAX_STRING_LENGTH < length name \<or> (\<forall>x \<in> set xs. rg_name s x \<noteq> Some name)"
      using nm not_less by blast
    with None alt_find_dev_list [OF assms(1-4)] show ?thesis by (simp add: first_named_def)
  next
    case (Some d)
    then obtain i where i: "i < length xs" "?p (xs ! i)" "d = xs ! i" "\<forall>j < i. \<not> ?p (xs ! j)"
      by (auto simp: find_Some_iff)
    then have "xs = take i xs @ d # drop (i + 1) xs" by (simp add: id_take_nth_drop)
    moreover have "rg_name s x \<noteq> Some name" if x: "x \<in> set (take i xs)" for x
    proof -
      from x obtain j where "j < i" "x = xs ! j" by (auto simp: in_set_conv_nth)
      with i(2,4) show ?thesis by auto
    qed
    moreover have "d \<noteq> 0" "rg_name s d = Some name" "length name \<le> MAX_STRING_LENGTH" "d \<in> set xs"
      using i nm assms(5) by (metis nth_mem)+
    ultimately show ?thesis
      using Some alt_find_dev_list [OF assms(1-4)] by (auto simp: first_named_def)
  qed
qed

text \<open>
  The comment of \<^verbatim>\<open>alt_find_file\<close> says that a file system matches when its name, followed by a slash or the end,
  is a prefix of the file's name.  For a file system whose name does not end in a slash this is what the code does.
\<close>

definition owns_documented :: "string \<Rightarrow> string \<Rightarrow> bool" where
  "owns_documented fname name \<longleftrightarrow> (\<exists>rest. name = fname @ rest \<and> (rest = [] \<or> hd rest = slash))"

lemma owns_as_documented: "fname = [] \<or> last fname \<noteq> slash \<Longrightarrow> owns fname name = owns_documented fname name"
  by (auto simp: owns_def owns_documented_def mount_point_def)

text \<open>For one whose name ends in a slash the comment and the code differ.\<close>

lemma owns_trailing_slash:
  "owns ''/f/'' ''/f''" "owns ''/f/'' ''/f/a''" "\<not> owns_documented ''/f/'' ''/f''" "\<not> owns_documented ''/f/'' ''/f/a''"
  by (simp_all add: owns_def owns_documented_def mount_point_def)

text \<open>C32: Looking a file up returns the first registered file system that owns it: the file's name is
  the mount point, with one trailing slash not counted, alone or followed by a slash and a path.  When no name of a
  registered file system ends in a slash, this is the rule the comment of the function states.\<close>

theorem alt_find_file_first_owner:
  assumes "llist_at (rg_links s) l xs" and "named s xs" and "cstr name" "0 \<notin> set xs"
    and "\<forall>x \<in> set xs. length (the (rg_name s x)) \<le> MAX_STRING_LENGTH - 1"
  shows "\<exists>d. alt_find_file l name s = Inr d \<and>
           (d \<noteq> 0 \<longrightarrow> (\<exists>as bs. xs = as @ d # bs \<and> owns (the (rg_name s d)) name \<and>
                          (\<forall>x \<in> set as. \<not> owns (the (rg_name s x)) name))) \<and>
           (d = 0 \<longleftrightarrow> (\<forall>x \<in> set xs. \<not> owns (the (rg_name s x)) name)) \<and>
           (\<forall>x. the (rg_name s x) = [] \<or> last (the (rg_name s x)) \<noteq> slash \<longrightarrow>
              owns (the (rg_name s x)) name = owns_documented (the (rg_name s x)) name)"
proof -
  let ?p = "\<lambda>x. owns (the (rg_name s x)) name \<and> length (mount_point (the (rg_name s x))) < MAX_STRING_LENGTH"
  have nm: "x \<in> set xs \<Longrightarrow> ?p x \<longleftrightarrow> owns (the (rg_name s x)) name" for x
    using assms(5) by (auto simp: mount_point_def)
  show ?thesis
  proof (cases "find ?p xs")
    case None
    with assms(4) alt_find_file_list [OF assms(1-3)] nm show ?thesis
      by (auto simp: first_named_def find_None_iff owns_as_documented)
  next
    case (Some d)
    then obtain i where i: "i < length xs" "?p (xs ! i)" "d = xs ! i" "\<forall>j < i. \<not> ?p (xs ! j)"
      by (auto simp: find_Some_iff)
    then have "xs = take i xs @ d # drop (i + 1) xs" by (simp add: id_take_nth_drop)
    moreover have "\<not> owns (the (rg_name s x)) name" if x: "x \<in> set (take i xs)" for x
    proof -
      from x obtain j where "j < i" "x = xs ! j" by (auto simp: in_set_conv_nth)
      moreover have "x \<in> set xs" using x by (rule in_set_takeD)
      ultimately show ?thesis using i(4) nm by blast
    qed
    moreover have "d \<noteq> 0" "owns (the (rg_name s d)) name" "d \<in> set xs"
      using i assms(4) by (metis nth_mem)+
    ultimately show ?thesis
      using Some alt_find_file_list [OF assms(1-3)] by (auto simp: first_named_def owns_as_documented)
  qed
qed

definition registry0 :: registry where
  "registry0 = snd (alt_dev_reg 1 3 (snd (alt_dev_reg 1 2
     \<lparr>rg_links = ALT_LLIST_HEAD 1 \<lparr>ll_next = \<lambda>_. 0, ll_prev = \<lambda>_. 0\<rparr>,
      rg_name = (\<lambda>_. None)(2 := Some ''/fs'', 3 := Some ''/f/''), rg_errno = 0\<rparr>)))"

lemma registry0_list: "llist_at (rg_links registry0) 1 [3, 2]" "named registry0 [3, 2]"
  "rg_name registry0 2 = Some ''/fs''" "rg_name registry0 3 = Some ''/f/''"
  by (simp_all add: registry0_def alt_dev_reg_def alt_dev_llist_insert_def named_def nul_def
      hal_list.rep_ins hal_list.rep_new)

theorem alt_find_file_first_owner_witness: "alt_find_file 1 ''/fs/a'' registry0 = Inr 2"
  using alt_find_file_first_owner [OF registry0_list(1,2), of "''/fs/a''"] registry0_list(3,4)
  by (auto simp: nul_def owns_def mount_point_def Cons_eq_append_conv)

end
