(* ===== verification/FdTable.thy ===== *)
theory FdTable
  imports DevList
begin

text \<open>
  The pool of file descriptors (\<^verbatim>\<open>alt_fd_list\<close> in \<^verbatim>\<open>alt_dev.c\<close>, \<^verbatim>\<open>priv/alt_file.h\<close>): allocation and
  release (\<^verbatim>\<open>alt_get_fd.c\<close>, \<^verbatim>\<open>alt_release_fd.c\<close>), exclusive access (\<^verbatim>\<open>alt_fd_lock.c\<close>,
  \<^verbatim>\<open>alt_fd_unlock.c\<close>, \<^verbatim>\<open>alt_file_locked\<close> in \<^verbatim>\<open>alt_open.c\<close>) and \<^verbatim>\<open>fcntl\<close> (\<^verbatim>\<open>alt_fcntl.c\<close>).  The semaphore
  \<^verbatim>\<open>alt_fd_list_lock\<close> is empty in the single-threaded HAL, so each call is one transition.
\<close>

section \<open>State\<close>

record alt_fd =
  fd_dev :: addr
  fd_priv :: addr
  fd_flags :: u32

abbreviation ALT_MAX_FD :: nat where "ALT_MAX_FD \<equiv> 32"
abbreviation (input) ALT_FD_EXCL :: u32 where "ALT_FD_EXCL \<equiv> 0x80000000"
abbreviation (input) ALT_FD_DEV :: u32 where "ALT_FD_DEV \<equiv> 0x40000000"
abbreviation (input) ALT_FD_FLAGS_MASK :: u32 where "ALT_FD_FLAGS_MASK \<equiv> 0xC0000000"

text \<open>The table extends the registry, whose error number it shares.\<close>

record fdtab = registry +
  alt_fd_list :: "alt_fd list"
  alt_max_fd :: int

definition alt_dev_null_fd :: "addr \<Rightarrow> alt_fd" where
  "alt_dev_null_fd alt_dev_null = \<lparr>fd_dev = alt_dev_null, fd_priv = 0, fd_flags = 0\<rparr>"

text \<open>The initial pool: the three standard streams on \<^verbatim>\<open>/dev/null\<close>, all other entries zero.\<close>

definition alt_fd_list_init :: "addr \<Rightarrow> alt_fd list" where
  "alt_fd_list_init alt_dev_null =
     replicate 3 (alt_dev_null_fd alt_dev_null) @ replicate (ALT_MAX_FD - 3) (alt_dev_null_fd 0)"

definition set_fd :: "nat \<Rightarrow> (alt_fd \<Rightarrow> alt_fd) \<Rightarrow> 'a fdtab_scheme \<Rightarrow> 'a fdtab_scheme" where
  "set_fd i f s = s\<lparr>alt_fd_list := (alt_fd_list s)[i := f (alt_fd_list s ! i)]\<rparr>"

text \<open>
  \<^verbatim>\<open>(file < 0) ? NULL : &alt_fd_list[file]\<close>: the call continues with \<open>bad\<close> for a negative descriptor,
  has no defined behaviour past the end of the array, and with the entry's index otherwise.
\<close>

definition fd_slot :: "int \<Rightarrow> stuck + 'b \<Rightarrow> (nat \<Rightarrow> stuck + 'b) \<Rightarrow> stuck + 'b" where
  "fd_slot file bad k =
     (if file < 0 then bad else if int ALT_MAX_FD \<le> file then Inl OutOfBounds else k (nat file))"

section \<open>Allocation\<close>

function alt_get_fd_from :: "addr \<Rightarrow> nat \<Rightarrow> 'a fdtab_scheme \<Rightarrow> int \<times> 'a fdtab_scheme" where
  "alt_get_fd_from dev i s =
     (if i < ALT_MAX_FD then
        if fd_dev (alt_fd_list s ! i) = 0 then
          let s1 = set_fd i (\<lambda>e. e\<lparr>fd_dev := dev\<rparr>) s
          in (int i, if alt_max_fd s1 < int i then s1\<lparr>alt_max_fd := int i\<rparr> else s1)
        else alt_get_fd_from dev (i + 1) s
      else (- EMFILE, s))"
  by pat_completeness auto
termination by (relation "measure (\<lambda>(_, i, _). ALT_MAX_FD - i)") auto

declare alt_get_fd_from.simps [simp del]

definition alt_get_fd :: "addr \<Rightarrow> 'a fdtab_scheme \<Rightarrow> int \<times> 'a fdtab_scheme" where
  "alt_get_fd dev s = alt_get_fd_from dev 0 s"

definition alt_release_fd :: "int \<Rightarrow> 'a fdtab_scheme \<Rightarrow> stuck + 'a fdtab_scheme" where
  "alt_release_fd fd s =
     (if 2 < fd then fd_slot fd (Inr s) (\<lambda>i. Inr (set_fd i (\<lambda>e. e\<lparr>fd_flags := 0, fd_dev := 0\<rparr>) s))
      else Inr s)"

section \<open>Exclusive access\<close>

text \<open>
  The search of \<^verbatim>\<open>alt_fd_lock\<close>: another descriptor of the device \<open>dev\<close> below the high-water mark.
  An index past the array has no defined behaviour.
\<close>

function fd_shared_from :: "nat \<Rightarrow> nat \<Rightarrow> 'a fdtab_scheme \<Rightarrow> stuck + bool" where
  "fd_shared_from fd i s =
     (if int i < alt_max_fd s then
        if ALT_MAX_FD \<le> i then Inl OutOfBounds
        else if i \<noteq> fd \<and> fd_dev (alt_fd_list s ! i) = fd_dev (alt_fd_list s ! fd) then Inr True
        else fd_shared_from fd (i + 1) s
      else Inr False)"
  by pat_completeness auto
termination by (relation "measure (\<lambda>(_, i, _). ALT_MAX_FD - i)") auto

definition alt_fd_lock :: "nat \<Rightarrow> 'a fdtab_scheme \<Rightarrow> stuck + (int \<times> 'a fdtab_scheme)" where
  "alt_fd_lock fd s =
     andThen (fd_shared_from fd 0 s)
       (\<lambda>shared. Inr (if shared then (- EACCES, s)
                      else (0, set_fd fd (\<lambda>e. e\<lparr>fd_flags := fd_flags e OR ALT_FD_EXCL\<rparr>) s)))"

definition alt_fd_unlock :: "nat \<Rightarrow> 'a fdtab_scheme \<Rightarrow> int \<times> 'a fdtab_scheme" where
  "alt_fd_unlock fd s = (0, set_fd fd (\<lambda>e. e\<lparr>fd_flags := fd_flags e AND NOT ALT_FD_EXCL\<rparr>) s)"

text \<open>
  The search of \<^verbatim>\<open>alt_file_locked\<close>.  The index is unsigned, so the high-water mark is compared after
  conversion: the initial -1 would be the largest unsigned value.
\<close>

function fd_locked_from :: "nat \<Rightarrow> nat \<Rightarrow> 'a fdtab_scheme \<Rightarrow> stuck + bool" where
  "fd_locked_from fd i s =
     (if i \<le> unat (word_of_int (alt_max_fd s) :: u32) then
        if ALT_MAX_FD \<le> i then Inl OutOfBounds
        else if fd_dev (alt_fd_list s ! i) = fd_dev (alt_fd_list s ! fd) \<and>
                fd_flags (alt_fd_list s ! i) AND ALT_FD_EXCL \<noteq> 0 \<and> i \<noteq> fd then Inr True
        else fd_locked_from fd (i + 1) s
      else Inr False)"
  by pat_completeness auto
termination by (relation "measure (\<lambda>(_, i, _). ALT_MAX_FD - i)") auto

declare fd_shared_from.simps [simp del] fd_locked_from.simps [simp del]

definition alt_file_locked :: "nat \<Rightarrow> 'a fdtab_scheme \<Rightarrow> stuck + (int \<times> 'a fdtab_scheme)" where
  "alt_file_locked fd s =
     (let s1 = set_fd fd (\<lambda>e. e\<lparr>fd_flags := fd_flags e OR ALT_FD_DEV\<rparr>) s
      in andThen (fd_locked_from fd 0 s1) (\<lambda>locked. Inr (if locked then - EACCES else 0, s1)))"

section \<open>Descriptor flags\<close>

abbreviation (input) ALT_FCNTL_FLAGS_MASK :: u32 where "ALT_FCNTL_FLAGS_MASK \<equiv> O_APPEND OR O_NONBLOCK"

definition ALT_FCNTL :: "int \<Rightarrow> int \<Rightarrow> u32 \<Rightarrow> 'a fdtab_scheme \<Rightarrow> stuck + (int \<times> 'a fdtab_scheme)" where
  "ALT_FCNTL file cmd arg s =
     fd_slot file (Inr (-1, s\<lparr>rg_errno := EBADFD\<rparr>))
       (\<lambda>i. if cmd = F_GETFL then
              Inr (sint (fd_flags (alt_fd_list s ! i) AND NOT ALT_FD_FLAGS_MASK), s)
            else if cmd = F_SETFL then
              let s1 = set_fd i (\<lambda>e. e\<lparr>fd_flags := fd_flags e AND NOT ALT_FCNTL_FLAGS_MASK\<rparr>) s
              in Inr (0, set_fd i (\<lambda>e. e\<lparr>fd_flags := fd_flags e OR (arg AND ALT_FCNTL_FLAGS_MASK)\<rparr>) s1)
            else Inr (-1, s\<lparr>rg_errno := EINVAL\<rparr>))"

section \<open>The invariant of the pool\<close>

text \<open>Which device a descriptor refers to; 0 when the descriptor is free.\<close>

definition owner :: "'a fdtab_scheme \<Rightarrow> nat \<Rightarrow> addr" where
  "owner s i = (if i < ALT_MAX_FD then fd_dev (alt_fd_list s ! i) else 0)"

definition fd_inv :: "'a fdtab_scheme \<Rightarrow> bool" where
  "fd_inv s \<longleftrightarrow> length (alt_fd_list s) = ALT_MAX_FD \<and> -1 \<le> alt_max_fd s \<and> alt_max_fd s < int ALT_MAX_FD \<and>
     (\<forall>i \<le> 2. owner s i \<noteq> 0) \<and> (\<forall>i > 2. owner s i \<noteq> 0 \<longrightarrow> int i \<le> alt_max_fd s)"

lemma owner_set_fd:
  "length (alt_fd_list s) = ALT_MAX_FD \<Longrightarrow> i < ALT_MAX_FD \<Longrightarrow>
   owner (set_fd i f s) = (owner s)(i := fd_dev (f (alt_fd_list s ! i)))"
  by (auto simp: owner_def set_fd_def fun_eq_iff)

lemma set_fd_simps [simp]:
  "length (alt_fd_list (set_fd i f s)) = length (alt_fd_list s)"
  "alt_max_fd (set_fd i f s) = alt_max_fd s"
  "rg_links (set_fd i f s) = rg_links s" "rg_name (set_fd i f s) = rg_name s"
  "rg_errno (set_fd i f s) = rg_errno s" "fdtab.more (set_fd i f s) = fdtab.more s"
  by (simp_all add: set_fd_def)

lemma set_fd_nth:
  "length (alt_fd_list s) = ALT_MAX_FD \<Longrightarrow> i < ALT_MAX_FD \<Longrightarrow>
   alt_fd_list (set_fd i f s) ! j = (if j = i then f (alt_fd_list s ! i) else alt_fd_list s ! j)"
  by (simp add: set_fd_def)

lemma owner_cong [simp]: "owner (s\<lparr>alt_max_fd := m\<rparr>) = owner s" "owner (s\<lparr>rg_errno := e\<rparr>) = owner s"
  by (simp_all add: owner_def fun_eq_iff)

lemma fd_inv_errno [simp]: "fd_inv (s\<lparr>rg_errno := e\<rparr>) = fd_inv s"
  by (simp add: fd_inv_def)

lemma fd_inv_set_fd:
  assumes "fd_inv s" "i < ALT_MAX_FD" "fd_dev (f (alt_fd_list s ! i)) = fd_dev (alt_fd_list s ! i)"
  shows "fd_inv (set_fd i f s)" "owner (set_fd i f s) = owner s"
proof -
  from assms show o: "owner (set_fd i f s) = owner s"
    by (subst owner_set_fd) (auto simp: fd_inv_def owner_def fun_eq_iff)
  from assms(1) show "fd_inv (set_fd i f s)" by (simp add: fd_inv_def o)
qed

text \<open>Allocation finds the first free entry.\<close>

lemma alt_get_fd_from_first:
  assumes "i \<le> k" "k < ALT_MAX_FD" "\<forall>j. i \<le> j \<and> j < k \<longrightarrow> owner s j \<noteq> 0" "owner s k = 0"
  shows "alt_get_fd_from dev i s =
           (int k, (set_fd k (\<lambda>e. e\<lparr>fd_dev := dev\<rparr>) s)\<lparr>alt_max_fd := max (alt_max_fd s) (int k)\<rparr>)"
  using assms
proof (induction "k - i" arbitrary: i)
  case 0
  then have "i = k" by simp
  with 0 show ?case by (subst alt_get_fd_from.simps) (auto simp: owner_def Let_def max_def)
next
  case (Suc n)
  then have lt: "i < k" by simp
  with Suc.prems have "fd_dev (alt_fd_list s ! i) \<noteq> 0" by (auto simp: owner_def split: if_splits)
  moreover from Suc lt have "alt_get_fd_from dev (i + 1) s =
      (int k, (set_fd k (\<lambda>e. e\<lparr>fd_dev := dev\<rparr>) s)\<lparr>alt_max_fd := max (alt_max_fd s) (int k)\<rparr>)"
    by (intro Suc.hyps(1)) auto
  ultimately show ?case using lt Suc.prems(2) by (subst alt_get_fd_from.simps) simp
qed

lemma alt_get_fd_from_full:
  assumes "\<forall>j. i \<le> j \<and> j < ALT_MAX_FD \<longrightarrow> owner s j \<noteq> 0"
  shows "alt_get_fd_from dev i s = (- EMFILE, s)"
  using assms
proof (induction "ALT_MAX_FD - i" arbitrary: i)
  case 0
  then show ?case by (subst alt_get_fd_from.simps) simp
next
  case (Suc n)
  then have lt: "i < ALT_MAX_FD" by simp
  with Suc.prems have "fd_dev (alt_fd_list s ! i) \<noteq> 0" by (auto simp: owner_def split: if_splits)
  moreover from Suc have "alt_get_fd_from dev (i + 1) s = (- EMFILE, s)"
    by (intro Suc.hyps(1)) auto
  ultimately show ?case using lt by (subst alt_get_fd_from.simps) simp
qed

definition first_free :: "'a fdtab_scheme \<Rightarrow> nat \<Rightarrow> bool" where
  "first_free s k \<longleftrightarrow> k < ALT_MAX_FD \<and> owner s k = 0 \<and> (\<forall>j < k. owner s j \<noteq> 0)"

lemma alt_get_fd_cases:
  obtains (free) k where "first_free s k"
      "alt_get_fd dev s = (int k, (set_fd k (\<lambda>e. e\<lparr>fd_dev := dev\<rparr>) s)\<lparr>alt_max_fd := max (alt_max_fd s) (int k)\<rparr>)"
  | (full) "\<forall>j < ALT_MAX_FD. owner s j \<noteq> 0" "alt_get_fd dev s = (- EMFILE, s)"
proof (cases "\<exists>k < ALT_MAX_FD. owner s k = 0")
  case True
  then obtain k where "first_free s k"
    by (subst (asm) exists_least_iff) (auto simp: first_free_def)
  then show thesis using alt_get_fd_from_first [of 0 k s dev]
    by (intro free) (auto simp: alt_get_fd_def first_free_def)
next
  case False
  then show thesis using full alt_get_fd_from_full [of 0 s dev] by (auto simp: alt_get_fd_def)
qed

lemma first_free_std: "fd_inv s \<Longrightarrow> first_free s k \<Longrightarrow> 2 < k"
  by (auto simp: fd_inv_def first_free_def not_less [symmetric])

lemma alt_get_fd_owner:
  assumes "fd_inv s" "first_free s k"
  shows "owner (set_fd k (\<lambda>e. e\<lparr>fd_dev := dev\<rparr>) s) = (owner s)(k := dev)"
  using assms by (subst owner_set_fd) (auto simp: fd_inv_def first_free_def)

lemma alt_get_fd_inv:
  assumes "fd_inv s" "alt_get_fd dev s = (r, s')"
  shows "fd_inv s'"
proof (cases rule: alt_get_fd_cases [of s dev])
  case (free k)
  note o = alt_get_fd_owner [OF assms(1) free(1)]
  have s': "s' = (set_fd k (\<lambda>e. e\<lparr>fd_dev := dev\<rparr>) s)\<lparr>alt_max_fd := max (alt_max_fd s) (int k)\<rparr>"
    using assms(2) free(2) by auto
  show ?thesis unfolding fd_inv_def
    using assms(1) first_free_std [OF assms(1) free(1)] free(1)
    by (auto simp: s' o fd_inv_def first_free_def)
next
  case full
  with assms show ?thesis by simp
qed

lemma alt_release_fd_eq:
  assumes "fd_inv s" "2 < fd" "fd < int ALT_MAX_FD"
  shows "alt_release_fd fd s = Inr (set_fd (nat fd) (\<lambda>e. e\<lparr>fd_flags := 0, fd_dev := 0\<rparr>) s)"
  using assms by (simp add: alt_release_fd_def fd_slot_def)

lemma alt_release_fd_inv:
  assumes "fd_inv s" "alt_release_fd fd s = Inr s'"
  shows "fd_inv s'" "owner s' = (if 2 < fd then (owner s)(nat fd := 0) else owner s)"
proof -
  show o: "owner s' = (if 2 < fd then (owner s)(nat fd := 0) else owner s)"
    using assms by (auto simp: alt_release_fd_def fd_slot_def owner_set_fd fd_inv_def split: if_splits)
  have "length (alt_fd_list s') = ALT_MAX_FD" "alt_max_fd s' = alt_max_fd s"
    using assms by (auto simp: alt_release_fd_def fd_slot_def fd_inv_def split: if_splits)
  then show "fd_inv s'" using assms(1) by (auto simp: fd_inv_def o)
qed

section \<open>The searches for other descriptors of a device\<close>

lemma fd_shared_from_iff:
  assumes "alt_max_fd s \<le> int ALT_MAX_FD"
  shows "fd_shared_from fd i s =
           Inr (\<exists>j. i \<le> j \<and> int j < alt_max_fd s \<and> j \<noteq> fd \<and>
                    fd_dev (alt_fd_list s ! j) = fd_dev (alt_fd_list s ! fd))"
  using assms
proof (induction fd i s rule: fd_shared_from.induct)
  case (1 fd i s)
  let ?p = "\<lambda>j. j \<noteq> fd \<and> fd_dev (alt_fd_list s ! j) = fd_dev (alt_fd_list s ! fd)"
  have split: "(\<exists>j. i \<le> j \<and> int j < alt_max_fd s \<and> ?p j) \<longleftrightarrow>
      int i < alt_max_fd s \<and> (?p i \<or> (\<exists>j. i + 1 \<le> j \<and> int j < alt_max_fd s \<and> ?p j))"
    by (rule search_step) simp
  show ?case
  proof (cases "int i < alt_max_fd s \<and> \<not> ?p i")
    case True
    with "1.prems" have "i < ALT_MAX_FD" by simp
    with True have "fd_shared_from fd i s = fd_shared_from fd (i + 1) s"
      by (subst fd_shared_from.simps) auto
    also have "\<dots> = Inr (\<exists>j. i + 1 \<le> j \<and> int j < alt_max_fd s \<and> ?p j)"
      using True \<open>i < ALT_MAX_FD\<close> "1.prems" by (intro "1.IH") auto
    finally show ?thesis unfolding split
      using True by (simp only: True [THEN conjunct1] True [THEN conjunct2] simp_thms)
  next
    case False
    with "1.prems" have "fd_shared_from fd i s = Inr (int i < alt_max_fd s)"
      by (subst fd_shared_from.simps) auto
    moreover from False have "int i < alt_max_fd s \<longleftrightarrow> int i < alt_max_fd s \<and>
        (?p i \<or> (\<exists>j. i + 1 \<le> j \<and> int j < alt_max_fd s \<and> ?p j))" by blast
    ultimately show ?thesis unfolding split by (simp only:)
  qed
qed

lemma fd_locked_from_iff:
  assumes "0 \<le> alt_max_fd s" "alt_max_fd s < int ALT_MAX_FD"
  shows "fd_locked_from fd i s =
           Inr (\<exists>j. i \<le> j \<and> int j \<le> alt_max_fd s \<and> fd_dev (alt_fd_list s ! j) = fd_dev (alt_fd_list s ! fd) \<and>
                    fd_flags (alt_fd_list s ! j) AND ALT_FD_EXCL \<noteq> 0 \<and> j \<noteq> fd)"
  using assms
proof (induction fd i s rule: fd_locked_from.induct)
  case (1 fd i s)
  let ?p = "\<lambda>j. fd_dev (alt_fd_list s ! j) = fd_dev (alt_fd_list s ! fd) \<and>
                fd_flags (alt_fd_list s ! j) AND ALT_FD_EXCL \<noteq> 0 \<and> j \<noteq> fd"
  have split: "(\<exists>j. i \<le> j \<and> int j \<le> alt_max_fd s \<and> ?p j) \<longleftrightarrow>
      int i \<le> alt_max_fd s \<and> (?p i \<or> (\<exists>j. i + 1 \<le> j \<and> int j \<le> alt_max_fd s \<and> ?p j))"
    by (rule search_step) simp
  have "uint (word_of_int (alt_max_fd s) :: u32) = alt_max_fd s"
    using "1.prems" by (simp add: uint_word_of_int_eq take_bit_int_eq_self)
  then have le: "i \<le> unat (word_of_int (alt_max_fd s) :: u32) \<longleftrightarrow> int i \<le> alt_max_fd s"
    using "1.prems" by (metis of_nat_le_iff uint_nat)
  show ?case
  proof (cases "int i \<le> alt_max_fd s \<and> \<not> ?p i")
    case True
    with "1.prems" have "i < ALT_MAX_FD" by simp
    with True le have "fd_locked_from fd i s = fd_locked_from fd (i + 1) s"
      by (subst fd_locked_from.simps) auto
    also have "\<dots> = Inr (\<exists>j. i + 1 \<le> j \<and> int j \<le> alt_max_fd s \<and> ?p j)"
      using True \<open>i < ALT_MAX_FD\<close> "1.prems" le by (intro "1.IH") auto
    finally show ?thesis unfolding split
      using True by (simp only: True [THEN conjunct1] True [THEN conjunct2] simp_thms)
  next
    case False
    with "1.prems" le have "fd_locked_from fd i s = Inr (int i \<le> alt_max_fd s)"
      by (subst fd_locked_from.simps) auto
    moreover from False have "int i \<le> alt_max_fd s \<longleftrightarrow> int i \<le> alt_max_fd s \<and>
        (?p i \<or> (\<exists>j. i + 1 \<le> j \<and> int j \<le> alt_max_fd s \<and> ?p j))" by blast
    ultimately show ?thesis unfolding split by (simp only:)
  qed
qed

section \<open>The interface of the pool\<close>

text \<open>What the system calls rely on: allocation and release change one descriptor's owner.\<close>

locale fd_pool =
  fixes get :: "addr \<Rightarrow> 's \<Rightarrow> int \<times> 's"
    and rel :: "int \<Rightarrow> 's \<Rightarrow> stuck + 's"
    and own :: "'s \<Rightarrow> nat \<Rightarrow> addr"
    and inv :: "'s \<Rightarrow> bool"
  assumes get_ok: "inv s \<Longrightarrow> get d s = (r, s') \<Longrightarrow> 0 \<le> r \<Longrightarrow>
      2 < r \<and> r < int ALT_MAX_FD \<and> own s (nat r) = 0 \<and> own s' = (own s)(nat r := d)"
    and get_full: "inv s \<Longrightarrow> get d s = (r, s') \<Longrightarrow> r < 0 \<Longrightarrow>
      r = - EMFILE \<and> s' = s \<and> (\<forall>i < ALT_MAX_FD. own s i \<noteq> 0)"
    and get_inv: "inv s \<Longrightarrow> get d s = (r, s') \<Longrightarrow> inv s'"
    and rel_ok: "inv s \<Longrightarrow> 2 < r \<Longrightarrow> r < int ALT_MAX_FD \<Longrightarrow>
      \<exists>s'. rel r s = Inr s' \<and> own s' = (own s)(nat r := 0) \<and> inv s'"
begin

text \<open>Releasing what was just allocated gives every descriptor back its owner.\<close>

lemma get_rel:
  assumes "inv s" "get d s = (r, s1)" "0 \<le> r"
  shows "\<exists>s2. rel r s1 = Inr s2 \<and> own s2 = own s \<and> inv s2"
proof -
  from get_ok [OF assms] have r: "2 < r" "r < int ALT_MAX_FD" "own s (nat r) = 0"
    "own s1 = (own s)(nat r := d)" by auto
  from rel_ok [OF get_inv [OF assms(1,2)] r(1,2)] r(3,4) show ?thesis
    by (metis fun_upd_triv fun_upd_upd)
qed

text \<open>Two descriptors allocated for devices are different, and the second leaves the first alone.\<close>

lemma get_get_distinct:
  assumes "inv s" "get d s = (r, s1)" "0 \<le> r" "d \<noteq> 0" "get d' s1 = (r', s2)" "0 \<le> r'"
  shows "r \<noteq> r'" "own s2 (nat r) = d"
proof -
  from get_ok [OF assms(1-3)] have 1: "own s1 (nat r) = d" by simp
  from get_ok [OF get_inv [OF assms(1,2)] assms(5,6)]
  have 2: "own s1 (nat r') = 0" "own s2 = (own s1)(nat r' := d')" by auto
  from 1 2 assms(4) show "r \<noteq> r'" by auto
  with 1 2 assms(3,6) show "own s2 (nat r) = d" by (auto simp: eq_nat_nat_iff)
qed

end

lemma alt_get_fd_pool:
  assumes "fd_inv s" "alt_get_fd d s = (r, s')"
  shows "0 \<le> r \<Longrightarrow> first_free s (nat r) \<and> 2 < r \<and> owner s' = (owner s)(nat r := d) \<and>
                    alt_max_fd s' = max (alt_max_fd s) r"
    and "r < 0 \<Longrightarrow> r = - EMFILE \<and> s' = s \<and> (\<forall>i < ALT_MAX_FD. owner s i \<noteq> 0)"
proof (atomize(full), cases rule: alt_get_fd_cases [of s d])
  case (free k)
  with assms first_free_std [OF assms(1) free(1)] alt_get_fd_owner [OF assms(1) free(1), of d]
  show "(0 \<le> r \<longrightarrow> first_free s (nat r) \<and> 2 < r \<and> owner s' = (owner s)(nat r := d) \<and>
          alt_max_fd s' = max (alt_max_fd s) r) \<and>
        (r < 0 \<longrightarrow> r = - EMFILE \<and> s' = s \<and> (\<forall>i < ALT_MAX_FD. owner s i \<noteq> 0))"
    by auto
next
  case full
  with assms show "(0 \<le> r \<longrightarrow> first_free s (nat r) \<and> 2 < r \<and> owner s' = (owner s)(nat r := d) \<and>
          alt_max_fd s' = max (alt_max_fd s) r) \<and>
        (r < 0 \<longrightarrow> r = - EMFILE \<and> s' = s \<and> (\<forall>i < ALT_MAX_FD. owner s i \<noteq> 0))"
    by auto
qed

interpretation hal_fds: fd_pool alt_get_fd alt_release_fd owner fd_inv
proof unfold_locales
  fix s :: "'b fdtab_scheme" and d r s'
  assume s: "fd_inv s" "alt_get_fd d s = (r, s')"
  show "fd_inv s'" using s by (rule alt_get_fd_inv)
  show "0 \<le> r \<Longrightarrow> 2 < r \<and> r < int ALT_MAX_FD \<and> owner s (nat r) = 0 \<and> owner s' = (owner s)(nat r := d)"
    using alt_get_fd_pool(1) [OF s] by (auto simp: first_free_def)
  show "r < 0 \<Longrightarrow> r = - EMFILE \<and> s' = s \<and> (\<forall>i < ALT_MAX_FD. owner s i \<noteq> 0)"
    using alt_get_fd_pool(2) [OF s] .
next
  fix s :: "'b fdtab_scheme" and r
  assume s: "fd_inv s" "2 < r" "r < int ALT_MAX_FD"
  from alt_release_fd_eq [OF s] alt_release_fd_inv [OF s(1) alt_release_fd_eq [OF s]] s(2)
  show "\<exists>s'. alt_release_fd r s = Inr s' \<and> owner s' = (owner s)(nat r := 0) \<and> fd_inv s'" by auto
qed

section \<open>Properties\<close>

text \<open>The pool at startup, for a null device at address 1.\<close>

definition fdtab0 :: fdtab where
  "fdtab0 = \<lparr>rg_links = \<lparr>ll_next = \<lambda>_. 0, ll_prev = \<lambda>_. 0\<rparr>, rg_name = \<lambda>_. None, rg_errno = 0,
     alt_fd_list = alt_fd_list_init 1, alt_max_fd = -1\<rparr>"

lemma alt_fd_list_init_length [simp]: "length (alt_fd_list_init d) = ALT_MAX_FD"
  by (simp add: alt_fd_list_init_def)

lemma alt_fd_list_init_nth:
  "i < ALT_MAX_FD \<Longrightarrow> alt_fd_list_init d ! i = (if i < 3 then alt_dev_null_fd d else alt_dev_null_fd 0)"
  by (simp add: alt_fd_list_init_def nth_append)

lemma fdtab0_owner: "owner fdtab0 i = (if i < 3 then 1 else 0)"
  by (auto simp: owner_def fdtab0_def alt_fd_list_init_nth alt_dev_null_fd_def)

lemma fdtab0_inv: "fd_inv fdtab0"
  by (auto simp: fd_inv_def fdtab0_owner) (simp_all add: fdtab0_def)

text \<open>C16: In every reachable pool, allocating a descriptor gives the lowest free one, which is never one
  of the standard streams, makes the device its owner, changes no other descriptor and raises the
  high-water mark to it; when no descriptor is free the call fails with \<^verbatim>\<open>-EMFILE\<close> and changes
  nothing.  The pool's invariant is kept.\<close>

theorem alt_get_fd_lowest_free:
  assumes "fd_inv s" and "alt_get_fd d s = (r, s')"
  shows "fd_inv s' \<and>
         (if \<exists>i < ALT_MAX_FD. owner s i = 0
          then 2 < r \<and> first_free s (nat r) \<and> owner s' = (owner s)(nat r := d) \<and>
               alt_max_fd s' = max (alt_max_fd s) r
          else r = - EMFILE \<and> s' = s)"
proof (cases rule: alt_get_fd_cases [of s d])
  case (free k)
  with assms have "0 \<le> r" by auto
  from alt_get_fd_pool(1) [OF assms this] alt_get_fd_inv [OF assms] show ?thesis
    by (auto simp: first_free_def)
next
  case full
  with assms show ?thesis by auto
qed

theorem alt_get_fd_lowest_free_witness:
  "\<exists>r s'. alt_get_fd 7 fdtab0 = (r, s') \<and> r = 3 \<and> owner s' 3 = 7"
proof -
  obtain r s' where g: "alt_get_fd 7 fdtab0 = (r, s')" by (cases "alt_get_fd 7 fdtab0")
  have "\<exists>i < ALT_MAX_FD. owner fdtab0 i = 0" by (intro exI [of _ 3]) (simp add: fdtab0_owner)
  with alt_get_fd_lowest_free [OF fdtab0_inv g]
  have r: "2 < r" "first_free fdtab0 (nat r)" "owner s' = (owner fdtab0)(nat r := 7)" by auto
  then have "\<not> 3 < nat r" by (auto simp: first_free_def fdtab0_owner)
  with r(1) have "r = 3" by linarith
  with g r(3) show ?thesis by auto
qed

text \<open>A lock is refused exactly when another descriptor below the high-water mark refers to the
  device; a granted lock sets the exclusive flag of the descriptor and changes no owner.\<close>

lemma alt_fd_lock_result:
  assumes "fd_inv s" and "fd < ALT_MAX_FD"
  shows "\<exists>s'. alt_fd_lock fd s = Inr (if \<exists>j. int j < alt_max_fd s \<and> j \<noteq> fd \<and> owner s j = owner s fd
                                    then - EACCES else 0, s') \<and>
              owner s' = owner s \<and> fd_inv s' \<and>
              (if \<exists>j. int j < alt_max_fd s \<and> j \<noteq> fd \<and> owner s j = owner s fd then s' = s
               else fd_flags (alt_fd_list s' ! fd) = fd_flags (alt_fd_list s ! fd) OR ALT_FD_EXCL)"
proof -
  have m: "alt_max_fd s \<le> int ALT_MAX_FD" using assms(1) by (simp add: fd_inv_def)
  have "(\<exists>j. 0 \<le> j \<and> int j < alt_max_fd s \<and> j \<noteq> fd \<and> fd_dev (alt_fd_list s ! j) = fd_dev (alt_fd_list s ! fd)) \<longleftrightarrow>
        (\<exists>j. int j < alt_max_fd s \<and> j \<noteq> fd \<and> owner s j = owner s fd)"
    using m assms by (intro ex_cong1) (auto simp: owner_def)
  with fd_shared_from_iff [OF m, of fd 0]
  have sh: "fd_shared_from fd 0 s = Inr (\<exists>j. int j < alt_max_fd s \<and> j \<noteq> fd \<and> owner s j = owner s fd)"
    by (simp only:)
  let ?s = "set_fd fd (\<lambda>e. e\<lparr>fd_flags := fd_flags e OR ALT_FD_EXCL\<rparr>) s"
  have "fd_inv ?s" "owner ?s = owner s" using assms by (auto intro!: fd_inv_set_fd)
  moreover have "fd_flags (alt_fd_list ?s ! fd) = fd_flags (alt_fd_list s ! fd) OR ALT_FD_EXCL"
    using assms by (simp add: set_fd_nth fd_inv_def)
  ultimately show ?thesis using assms(1) sh by (auto simp: alt_fd_lock_def)
qed

text \<open>Two descriptors of one device, allocated one after the other.\<close>

definition fdtab2 :: fdtab where
  "fdtab2 = snd (alt_get_fd 7 (snd (alt_get_fd 7 fdtab0)))"

lemma alt_get_fd_fdtab0:
  "alt_get_fd 7 fdtab0 = (3, (set_fd 3 (\<lambda>e. e\<lparr>fd_dev := 7\<rparr>) fdtab0)\<lparr>alt_max_fd := 3\<rparr>)"
  using alt_get_fd_from_first [of 0 3 fdtab0 7]
  by (auto simp: alt_get_fd_def fdtab0_owner) (simp add: fdtab0_def)

lemma fdtab2_owner: "owner fdtab2 = (owner fdtab0)(3 := 7, 4 := 7)" "alt_max_fd fdtab2 = 4" "fd_inv fdtab2"
proof -
  let ?s = "snd (alt_get_fd 7 fdtab0)"
  have o: "owner ?s = (owner fdtab0)(3 := 7)"
    using hal_fds.get_ok [OF fdtab0_inv alt_get_fd_fdtab0] by (simp add: alt_get_fd_fdtab0)
  have i: "fd_inv ?s" using alt_get_fd_inv [OF fdtab0_inv alt_get_fd_fdtab0] by (simp add: alt_get_fd_fdtab0)
  have "\<forall>j < 4. owner ?s j \<noteq> 0" "owner ?s 4 = 0" by (auto simp: o fdtab0_owner)
  then have g: "alt_get_fd 7 ?s = (4, (set_fd 4 (\<lambda>e. e\<lparr>fd_dev := 7\<rparr>) ?s)\<lparr>alt_max_fd := 4\<rparr>)"
  proof -
    have "alt_max_fd ?s = 3" by (simp add: alt_get_fd_fdtab0)
    with \<open>\<forall>j < 4. owner ?s j \<noteq> 0\<close> \<open>owner ?s 4 = 0\<close> alt_get_fd_from_first [of 0 4 ?s 7] show ?thesis
      unfolding alt_get_fd_def [of 7 ?s] by simp
  qed
  show "owner fdtab2 = (owner fdtab0)(3 := 7, 4 := 7)"
    using hal_fds.get_ok [OF i g] by (simp add: fdtab2_def g o)
  show "alt_max_fd fdtab2 = 4" by (simp add: fdtab2_def g)
  show "fd_inv fdtab2" using alt_get_fd_inv [OF i g] by (simp add: fdtab2_def g)
qed

text \<open>The search for other descriptors stops one short of the high-water mark, so exclusive access
  is granted although the descriptor allocated last refers to the same device.\<close>

lemma alt_fd_lock_not_exclusive:
  "\<exists>s'. alt_fd_lock 3 fdtab2 = Inr (0, s') \<and> owner s' 3 = 7 \<and> owner s' 4 = 7 \<and>
        fd_flags (alt_fd_list s' ! 3) AND ALT_FD_EXCL \<noteq> 0"
proof -
  have "\<not> (\<exists>j. int j < alt_max_fd fdtab2 \<and> j \<noteq> 3 \<and> owner fdtab2 j = owner fdtab2 3)"
    by (auto simp: fdtab2_owner fdtab0_owner)
  then have "fd_shared_from 3 0 fdtab2 = Inr False"
    using fd_shared_from_iff [of fdtab2 3 0] fdtab2_owner(2)
    by (auto simp: owner_def)
  moreover have "(a OR ALT_FD_EXCL) AND ALT_FD_EXCL = ALT_FD_EXCL" for a :: u32
    by (simp add: bit.conj_disj_distrib2)
  moreover have "owner (set_fd 3 (\<lambda>e. e\<lparr>fd_flags := fd_flags e OR ALT_FD_EXCL\<rparr>) fdtab2) = owner fdtab2"
    using fdtab2_owner(3) by (intro fd_inv_set_fd) auto
  moreover have "length (alt_fd_list fdtab2) = ALT_MAX_FD" using fdtab2_owner(3) by (simp add: fd_inv_def)
  ultimately show ?thesis using fdtab2_owner(1)
    by (simp add: alt_fd_lock_def set_fd_nth)
qed

text \<open>\<^verbatim>\<open>fcntl\<close> changes no flag but append and non-blocking, sets these two to the argument's, and
  reading the flags back gives the result without the two internal flags.\<close>

lemma fcntl_set_get:
  assumes "fd_inv s" and "0 \<le> file" "file < int ALT_MAX_FD"
  shows "\<exists>s'. ALT_FCNTL file F_SETFL arg s = Inr (0, s') \<and> fd_inv s' \<and> owner s' = owner s \<and>
              ALT_FCNTL file F_GETFL arg' s' =
                Inr (sint (((fd_flags (alt_fd_list s ! nat file) AND NOT ALT_FCNTL_FLAGS_MASK)
                            OR (arg AND ALT_FCNTL_FLAGS_MASK)) AND NOT ALT_FD_FLAGS_MASK), s') \<and>
              fd_flags (alt_fd_list s' ! nat file) AND ALT_FD_FLAGS_MASK =
                fd_flags (alt_fd_list s ! nat file) AND ALT_FD_FLAGS_MASK"
proof -
  let ?i = "nat file" and ?e = "alt_fd_list s ! nat file"
  let ?s1 = "set_fd ?i (\<lambda>e. e\<lparr>fd_flags := fd_flags e AND NOT ALT_FCNTL_FLAGS_MASK\<rparr>) s"
  let ?s2 = "set_fd ?i (\<lambda>e. e\<lparr>fd_flags := fd_flags e OR (arg AND ALT_FCNTL_FLAGS_MASK)\<rparr>) ?s1"
  have i: "?i < ALT_MAX_FD" "length (alt_fd_list s) = ALT_MAX_FD" using assms by (auto simp: fd_inv_def)
  have inv1: "fd_inv ?s1" "owner ?s1 = owner s" using assms(1) i by (auto intro!: fd_inv_set_fd)
  then have inv: "fd_inv ?s2" "owner ?s2 = owner s" using i by (auto intro!: fd_inv_set_fd simp: fd_inv_set_fd)
  have fl: "fd_flags (alt_fd_list ?s2 ! ?i) =
      (fd_flags ?e AND NOT ALT_FCNTL_FLAGS_MASK) OR (arg AND ALT_FCNTL_FLAGS_MASK)"
    using i by (simp add: set_fd_nth)
  have "((a AND NOT ALT_FCNTL_FLAGS_MASK) OR (b AND ALT_FCNTL_FLAGS_MASK)) AND ALT_FD_FLAGS_MASK =
        a AND ALT_FD_FLAGS_MASK" for a b :: u32
  proof -
    have z: "(NOT ALT_FCNTL_FLAGS_MASK) AND ALT_FD_FLAGS_MASK = (ALT_FD_FLAGS_MASK :: u32)"
      "ALT_FCNTL_FLAGS_MASK AND ALT_FD_FLAGS_MASK = (0 :: u32)" by simp_all
    show ?thesis by (simp only: bit.conj_disj_distrib2 and.assoc z) simp
  qed
  with inv fl i assms show ?thesis
    by (auto simp: ALT_FCNTL_def fd_slot_def Let_def intro!: exI [of _ ?s2])
qed

end
