(* ===== verification/Posix.thy ===== *)
theory Posix
  imports FdTable
begin

text \<open>
  The system calls on files and devices (\<^verbatim>\<open>alt_open.c\<close>, \<^verbatim>\<open>alt_close.c\<close>, \<^verbatim>\<open>alt_read.c\<close>,
  \<^verbatim>\<open>alt_write.c\<close>, \<^verbatim>\<open>alt_lseek.c\<close>, \<^verbatim>\<open>alt_fstat.c\<close>, \<^verbatim>\<open>alt_isatty.c\<close>, \<^verbatim>\<open>alt_ioctl.c\<close>, \<^verbatim>\<open>alt_stat.c\<close>),
  the redirection of the standard streams (\<^verbatim>\<open>alt_io_redirect.c\<close>), and the process calls
  (\<^verbatim>\<open>alt_kill.c\<close>, \<^verbatim>\<open>alt_exit.c\<close> and the calls the HAL does not support).  The drivers behind the
  devices are parameters: each callback of \<^verbatim>\<open>struct alt_dev_s\<close> is an optional function that gets the
  descriptor's entry and the drivers' state, may change both, and may not return.
\<close>

section \<open>State\<close>

type_synonym ('r, 'w) dev_op = "alt_fd \<Rightarrow> 'w \<Rightarrow> stuck + ('r \<times> alt_fd \<times> 'w)"

text \<open>
  A read returns the bytes it stored beside its result, \<^verbatim>\<open>fstat\<close> the mode it left in the caller's
  structure, whose contents before the call is an argument.
\<close>

record 'w alt_dev =
  dev_open :: "(string \<Rightarrow> u32 \<Rightarrow> int \<Rightarrow> (int, 'w) dev_op) option"
  dev_close :: "((int, 'w) dev_op) option"
  dev_read :: "(int \<Rightarrow> (int \<times> u8 list, 'w) dev_op) option"
  dev_write :: "(u8 list \<Rightarrow> (int, 'w) dev_op) option"
  dev_lseek :: "(int \<Rightarrow> int \<Rightarrow> (int, 'w) dev_op) option"
  dev_fstat :: "(nat \<Rightarrow> (int \<times> nat, 'w) dev_op) option"
  dev_ioctl :: "(int \<Rightarrow> addr \<Rightarrow> (int, 'w) dev_op) option"

record 'w hal = fdtab +
  hal_devs :: "addr \<Rightarrow> 'w alt_dev"
  alt_dev_list :: addr
  alt_fs_list :: addr
  hal_world :: 'w

text \<open>The null device: a write discards the data and reports it as sent.\<close>

definition alt_dev_null_write :: "u8 list \<Rightarrow> (int, 'w) dev_op" where
  "alt_dev_null_write ptr fd w = Inr (int (length ptr), fd, w)"

definition alt_dev_null :: "'w alt_dev" where
  "alt_dev_null = \<lparr>dev_open = None, dev_close = None, dev_read = None, dev_write = Some alt_dev_null_write,
     dev_lseek = None, dev_fstat = None, dev_ioctl = None\<rparr>"

text \<open>Running a callback on a descriptor, and following \<^verbatim>\<open>fd->dev\<close>.\<close>

definition dev_call :: "nat \<Rightarrow> ('r, 'w) dev_op \<Rightarrow> 'w hal \<Rightarrow> stuck + ('r \<times> 'w hal)" where
  "dev_call i f s =
     andThen (f (alt_fd_list s ! i) (hal_world s))
       (\<lambda>(r, e, w). Inr (r, (set_fd i (\<lambda>_. e) s)\<lparr>hal_world := w\<rparr>))"

definition fd_device :: "nat \<Rightarrow> 'w hal \<Rightarrow> stuck + 'w alt_dev" where
  "fd_device i s =
     (if fd_dev (alt_fd_list s ! i) = 0 then Inl NullDeref
      else Inr (hal_devs s (fd_dev (alt_fd_list s ! i))))"

section \<open>Opening and closing\<close>

text \<open>The end of \<^verbatim>\<open>ALT_OPEN\<close>: on an error the descriptor is released.\<close>

definition open_done :: "int \<Rightarrow> int \<Rightarrow> 'w hal \<Rightarrow> stuck + (int \<times> 'w hal)" where
  "open_done status index s =
     (if status < 0 then
        andThen (alt_release_fd index s) (\<lambda>s'. Inr (-1, s'\<lparr>rg_errno := - status\<rparr>))
      else Inr (index, s))"

definition ALT_OPEN :: "string \<Rightarrow> u32 \<Rightarrow> int \<Rightarrow> 'w hal \<Rightarrow> stuck + (int \<times> 'w hal)" where
  "ALT_OPEN file flags mode s =
     andThen (alt_find_dev file (alt_dev_list s) s) (\<lambda>d.
     andThen (if d = 0 then alt_find_file (alt_fs_list s) file s else Inr d) (\<lambda>dev.
       let isafs = (d = 0)
       in if dev \<noteq> 0 then
            let (index, s1) = alt_get_fd dev s
            in if index < 0 then open_done index index s1
               else
                 let i = nat index; s2 = set_fd i (\<lambda>e. e\<lparr>fd_flags := flags AND NOT ALT_FD_FLAGS_MASK\<rparr>) s1
                 in andThen (if isafs then Inr (0, s2) else alt_file_locked i s2) (\<lambda>(status, s3).
                      if isafs \<or> 0 \<le> status then
                        andThen (case dev_open (hal_devs s3 dev) of
                                   None \<Rightarrow> Inr (0, s3)
                                 | Some f \<Rightarrow> dev_call i (f file flags mode) s3)
                          (\<lambda>(status', s4). open_done status' index s4)
                      else open_done status index s3)
          else open_done (- ENODEV) (-1) s))"

definition ALT_CLOSE :: "int \<Rightarrow> 'w hal \<Rightarrow> stuck + (int \<times> 'w hal)" where
  "ALT_CLOSE fildes s =
     fd_slot fildes (Inr (-1, s\<lparr>rg_errno := EBADFD\<rparr>)) (\<lambda>i.
       andThen (fd_device i s) (\<lambda>d.
       andThen (case dev_close d of None \<Rightarrow> Inr (0, s) | Some f \<Rightarrow> dev_call i f s) (\<lambda>(rval, s1).
       andThen (alt_release_fd fildes s1) (\<lambda>s2.
         if rval < 0 then Inr (-1, s2\<lparr>rg_errno := - rval\<rparr>) else Inr (0, s2)))))"

section \<open>Reading, writing and positioning\<close>

definition ALT_READ :: "int \<Rightarrow> int \<Rightarrow> 'w hal \<Rightarrow> stuck + ((int \<times> u8 list) \<times> 'w hal)" where
  "ALT_READ file len s =
     fd_slot file (Inr ((-1, []), s\<lparr>rg_errno := EBADFD\<rparr>)) (\<lambda>i.
       if fd_flags (alt_fd_list s ! i) AND O_ACCMODE \<noteq> O_WRONLY then
         andThen (fd_device i s) (\<lambda>d.
           case dev_read d of
             None \<Rightarrow> Inr ((-1, []), s\<lparr>rg_errno := EACCES\<rparr>)
           | Some f \<Rightarrow>
               andThen (dev_call i (f len) s) (\<lambda>((rval, bytes), s1).
                 if rval < 0 then Inr ((-1, bytes), s1\<lparr>rg_errno := - rval\<rparr>) else Inr ((rval, bytes), s1)))
       else Inr ((-1, []), s\<lparr>rg_errno := EACCES\<rparr>))"

text \<open>\<^verbatim>\<open>ALT_LOG_WRITE_FUNCTION\<close> is empty unless the log is enabled (theory \<^verbatim>\<open>Printf\<close>).\<close>

definition ALT_WRITE :: "int \<Rightarrow> u8 list \<Rightarrow> 'w hal \<Rightarrow> stuck + (int \<times> 'w hal)" where
  "ALT_WRITE file ptr s =
     fd_slot file (Inr (-1, s\<lparr>rg_errno := EBADFD\<rparr>)) (\<lambda>i.
       if fd_flags (alt_fd_list s ! i) AND O_ACCMODE \<noteq> O_RDONLY then
         andThen (fd_device i s) (\<lambda>d.
           case dev_write d of
             None \<Rightarrow> Inr (-1, s\<lparr>rg_errno := EACCES\<rparr>)
           | Some f \<Rightarrow>
               andThen (dev_call i (f ptr) s) (\<lambda>(rval, s1).
                 if rval < 0 then Inr (-1, s1\<lparr>rg_errno := - rval\<rparr>) else Inr (rval, s1)))
       else Inr (-1, s\<lparr>rg_errno := EACCES\<rparr>))"

definition ALT_LSEEK :: "int \<Rightarrow> int \<Rightarrow> int \<Rightarrow> 'w hal \<Rightarrow> stuck + (int \<times> 'w hal)" where
  "ALT_LSEEK file ptr dir s =
     andThen
       (fd_slot file (Inr (- EBADFD, s)) (\<lambda>i.
          andThen (fd_device i s) (\<lambda>d.
            case dev_lseek d of
              None \<Rightarrow> Inr (- ENOTSUP, s)
            | Some f \<Rightarrow> dev_call i (f ptr dir) s)))
       (\<lambda>(rc, s1). if rc < 0 then Inr (-1, s1\<lparr>rg_errno := - rc\<rparr>) else Inr (rc, s1))"

section \<open>Status and control\<close>

definition ALT_FSTAT :: "int \<Rightarrow> nat \<Rightarrow> 'w hal \<Rightarrow> stuck + ((int \<times> nat) \<times> 'w hal)" where
  "ALT_FSTAT file st_mode s =
     fd_slot file (Inr ((-1, st_mode), s\<lparr>rg_errno := EBADFD\<rparr>)) (\<lambda>i.
       andThen (fd_device i s) (\<lambda>d.
         case dev_fstat d of
           Some f \<Rightarrow> dev_call i (f st_mode) s
         | None \<Rightarrow> Inr ((0, S_IFCHR), s)))"

definition ALT_ISATTY :: "int \<Rightarrow> 'w hal \<Rightarrow> stuck + (int \<times> 'w hal)" where
  "ALT_ISATTY file s =
     fd_slot file (Inr (0, s\<lparr>rg_errno := EBADFD\<rparr>)) (\<lambda>i.
       andThen (fd_device i s) (\<lambda>d.
         if dev_fstat d = None then Inr (1, s)
         else andThen (ALT_FSTAT file 0 s) (\<lambda>((r, st_mode), s1).
                if r < 0 then Inr (0, s1) else Inr (if st_mode = S_IFCHR then 1 else 0, s1))))"

text \<open>\<^verbatim>\<open>TIOCEXCL\<close> and \<^verbatim>\<open>TIOCNXCL\<close> as \<^verbatim>\<open>sys/ioctl.h\<close> defines them.\<close>

abbreviation (input) TIOCEXCL :: int where "TIOCEXCL \<equiv> 0x740C"
abbreviation (input) TIOCNXCL :: int where "TIOCNXCL \<equiv> 0x740d"

definition ALT_IOCTL :: "int \<Rightarrow> int \<Rightarrow> addr \<Rightarrow> 'w hal \<Rightarrow> stuck + (int \<times> 'w hal)" where
  "ALT_IOCTL file req arg s =
     andThen
       (fd_slot file (Inr (- EBADFD, s)) (\<lambda>i.
          if fd_flags (alt_fd_list s ! i) AND ALT_FD_DEV \<noteq> 0 \<and> req = TIOCEXCL then alt_fd_lock i s
          else if fd_flags (alt_fd_list s ! i) AND ALT_FD_DEV \<noteq> 0 \<and> req = TIOCNXCL
          then Inr (alt_fd_unlock i s)
          else andThen (fd_device i s) (\<lambda>d.
                 case dev_ioctl d of
                   Some f \<Rightarrow> dev_call i (f req arg) s
                 | None \<Rightarrow> Inr (- ENOTTY, s))))
       (\<lambda>(rc, s1). Inr (rc, if rc < 0 then s1\<lparr>rg_errno := - rc\<rparr> else s1))"

text \<open>
  \<^verbatim>\<open>open (file, 0)\<close> passes no mode, so what \<^verbatim>\<open>ALT_OPEN\<close> reads there is an argument of the model.
\<close>

definition ALT_STAT :: "string \<Rightarrow> int \<Rightarrow> nat \<Rightarrow> 'w hal \<Rightarrow> stuck + ((int \<times> nat) \<times> 'w hal)" where
  "ALT_STAT file mode st_mode s =
     andThen (ALT_OPEN file 0 mode s) (\<lambda>(fd, s1).
     andThen (ALT_FSTAT fd st_mode s1) (\<lambda>(rc, s2).
     andThen (ALT_CLOSE fd s2) (\<lambda>(_, s3). Inr (rc, s3))))"

section \<open>The standard streams\<close>

definition alt_open_fd :: "nat \<Rightarrow> string \<Rightarrow> u32 \<Rightarrow> int \<Rightarrow> 'w hal \<Rightarrow> stuck + 'w hal" where
  "alt_open_fd fd name flags mode s =
     andThen (ALT_OPEN name flags mode s) (\<lambda>(old, s1).
       if 0 \<le> old then
         let e = alt_fd_list s1 ! nat old;
             s2 = set_fd fd (\<lambda>_. \<lparr>fd_dev = fd_dev e, fd_priv = fd_priv e, fd_flags = fd_flags e\<rparr>) s1
         in alt_release_fd old s2
       else Inr s1)"

abbreviation (input) STDIN_FILENO :: nat where "STDIN_FILENO \<equiv> 0"
abbreviation (input) STDOUT_FILENO :: nat where "STDOUT_FILENO \<equiv> 1"
abbreviation (input) STDERR_FILENO :: nat where "STDERR_FILENO \<equiv> 2"

text \<open>The C library's stream buffers, set up at the end, are not part of the state.\<close>

definition alt_io_redirect :: "string \<Rightarrow> string \<Rightarrow> string \<Rightarrow> 'w hal \<Rightarrow> stuck + 'w hal" where
  "alt_io_redirect stdout_dev stdin_dev stderr_dev s =
     andThen (alt_open_fd STDOUT_FILENO stdout_dev O_WRONLY 0x1FF s) (\<lambda>s1.
     andThen (alt_open_fd STDIN_FILENO stdin_dev O_RDONLY 0x1FF s1)
       (alt_open_fd STDERR_FILENO stderr_dev O_WRONLY 0x1FF))"

section \<open>Process calls\<close>

text \<open>
  The signal numbers of the C library, and what \<^verbatim>\<open>kill\<close> does with them.  \<^verbatim>\<open>_exit\<close> does not return:
  after the simulator is told it spins.
\<close>

definition exit_signals :: "int list" where
  "exit_signals = [6, 14, 8, 4, 9, 13, 3, 11, 15, 30, 31, 10, 23, 27, 12, 5, 26, 24, 25]"

definition ignored_signals :: "int list" where
  "ignored_signals = [20, 16]"

definition ALT_EXIT :: "int \<Rightarrow> stuck + 'b" where
  "ALT_EXIT exit_code = Inl (Exits exit_code)"

definition ALT_KILL :: "int \<Rightarrow> int \<Rightarrow> 'a registry_scheme \<Rightarrow> stuck + (int \<times> 'a registry_scheme)" where
  "ALT_KILL pid sig s =
     (let fail = (\<lambda>status. Inr (-1, s\<lparr>rg_errno := status\<rparr>))
      in if pid \<le> 0 then
           if sig = 0 then Inr (0, s)
           else if sig \<in> set exit_signals then ALT_EXIT 0
           else if sig \<in> set ignored_signals then Inr (0, s)
           else fail EINVAL
         else fail ESRCH)"

definition ALT_GETPID :: int where
  "ALT_GETPID = 0"

text \<open>The result, and the status word the caller's pointer is set to.\<close>

definition ALT_WAIT :: "'a registry_scheme \<Rightarrow> (int \<times> int) \<times> 'a registry_scheme" where
  "ALT_WAIT s = ((-1, 0), s\<lparr>rg_errno := ECHILD\<rparr>)"

definition ALT_EXECVE :: "string \<Rightarrow> 'a registry_scheme \<Rightarrow> int \<times> 'a registry_scheme" where
  "ALT_EXECVE name s = (-1, s\<lparr>rg_errno := ENOSYS\<rparr>)"

definition ALT_FORK :: "'a registry_scheme \<Rightarrow> int \<times> 'a registry_scheme" where
  "ALT_FORK s = (-1, s\<lparr>rg_errno := ENOSYS\<rparr>)"

definition ALT_LINK :: "string \<Rightarrow> string \<Rightarrow> 'a registry_scheme \<Rightarrow> int \<times> 'a registry_scheme" where
  "ALT_LINK existing new s = (-1, s\<lparr>rg_errno := ENOSYS\<rparr>)"

definition ALT_UNLINK :: "string \<Rightarrow> 'a registry_scheme \<Rightarrow> int \<times> 'a registry_scheme" where
  "ALT_UNLINK name s = (-1, s\<lparr>rg_errno := ENOSYS\<rparr>)"

definition ALT_RENAME :: "string \<Rightarrow> string \<Rightarrow> 'a registry_scheme \<Rightarrow> int \<times> 'a registry_scheme" where
  "ALT_RENAME existing new s = (-1, s\<lparr>rg_errno := ENOSYS\<rparr>)"

text \<open>The C library's locks are empty: the HAL is single threaded.\<close>

definition env_lock :: "'s \<Rightarrow> 's" where "env_lock s = s"
definition env_unlock :: "'s \<Rightarrow> 's" where "env_unlock s = s"
definition malloc_lock :: "'s \<Rightarrow> 's" where "malloc_lock s = s"
definition malloc_unlock :: "'s \<Rightarrow> 's" where "malloc_unlock s = s"

text \<open>No environment variables are registered.\<close>

definition ALT_ENVIRON :: "string list" where
  "ALT_ENVIRON = []"

section \<open>The driver contract and the invariant\<close>

text \<open>
  What the calls rely on of a driver: a callback that returns leaves the descriptor with its device.
\<close>

definition keeps_dev :: "('r, 'w) dev_op \<Rightarrow> bool" where
  "keeps_dev f \<longleftrightarrow> (\<forall>e w r e' w'. f e w = Inr (r, e', w') \<longrightarrow> fd_dev e' = fd_dev e)"

definition driver_ok :: "'w alt_dev \<Rightarrow> bool" where
  "driver_ok d \<longleftrightarrow>
     (\<forall>f. dev_open d = Some f \<longrightarrow> (\<forall>n fl m. keeps_dev (f n fl m))) \<and>
     (\<forall>f. dev_close d = Some f \<longrightarrow> keeps_dev f) \<and>
     (\<forall>f. dev_read d = Some f \<longrightarrow> (\<forall>n. keeps_dev (f n))) \<and>
     (\<forall>f. dev_write d = Some f \<longrightarrow> (\<forall>p. keeps_dev (f p))) \<and>
     (\<forall>f. dev_lseek d = Some f \<longrightarrow> (\<forall>p n. keeps_dev (f p n))) \<and>
     (\<forall>f. dev_fstat d = Some f \<longrightarrow> (\<forall>m. keeps_dev (f m))) \<and>
     (\<forall>f. dev_ioctl d = Some f \<longrightarrow> (\<forall>n a. keeps_dev (f n a)))"

definition hal_inv :: "'w hal \<Rightarrow> bool" where
  "hal_inv s \<longleftrightarrow> fd_inv s \<and> (\<forall>d. driver_ok (hal_devs s d))"

lemma alt_dev_null_ok: "driver_ok alt_dev_null"
  by (simp add: driver_ok_def alt_dev_null_def alt_dev_null_write_def keeps_dev_def)

lemma driver_okD:
  assumes "driver_ok d"
  shows "dev_open d = Some f1 \<Longrightarrow> keeps_dev (f1 n fl m)"
    and "dev_close d = Some f2 \<Longrightarrow> keeps_dev f2"
    and "dev_read d = Some f3 \<Longrightarrow> keeps_dev (f3 len)"
    and "dev_write d = Some f4 \<Longrightarrow> keeps_dev (f4 ptr)"
    and "dev_lseek d = Some f5 \<Longrightarrow> keeps_dev (f5 pos dir)"
    and "dev_fstat d = Some f6 \<Longrightarrow> keeps_dev (f6 st)"
    and "dev_ioctl d = Some f7 \<Longrightarrow> keeps_dev (f7 req arg)"
  using assms by (simp_all add: driver_ok_def)

text \<open>
  \<open>same_reg\<close>: the registry and the drivers are untouched.  \<open>same_fds\<close>: in addition the invariant of
  the pool is kept and every descriptor keeps its owner.
\<close>

definition same_reg :: "'w hal \<Rightarrow> 'w hal \<Rightarrow> bool" where
  "same_reg s s' \<longleftrightarrow> hal_devs s' = hal_devs s \<and> alt_dev_list s' = alt_dev_list s \<and>
     alt_fs_list s' = alt_fs_list s \<and> rg_links s' = rg_links s \<and> rg_name s' = rg_name s"

definition same_fds :: "'w hal \<Rightarrow> 'w hal \<Rightarrow> bool" where
  "same_fds s s' \<longleftrightarrow> fd_inv s' \<and> owner s' = owner s \<and> same_reg s s'"

lemma same_fds_refl: "hal_inv s \<Longrightarrow> same_fds s s"
  by (simp add: same_fds_def same_reg_def hal_inv_def)

lemma same_fds_trans: "same_fds s t \<Longrightarrow> same_fds t u \<Longrightarrow> same_fds s u"
  by (simp add: same_fds_def same_reg_def)

lemma same_fds_inv: "hal_inv s \<Longrightarrow> same_fds s s' \<Longrightarrow> hal_inv s'"
  by (simp add: same_fds_def same_reg_def hal_inv_def)

lemma same_fds_errno [simp]: "same_fds s (s'\<lparr>rg_errno := n\<rparr>) = same_fds s s'"
  by (simp add: same_fds_def same_reg_def)

lemma set_fd_hal [simp]:
  "hal_devs (set_fd i f s) = hal_devs s" "alt_dev_list (set_fd i f s) = alt_dev_list s"
  "alt_fs_list (set_fd i f s) = alt_fs_list s" "hal_world (set_fd i f s) = hal_world s"
  by (simp_all add: set_fd_def)

lemma world_owner [simp]: "owner (s\<lparr>hal_world := w\<rparr>) = owner s" "fd_inv (s\<lparr>hal_world := w\<rparr>) = fd_inv s"
  by (simp_all add: owner_def fd_inv_def fun_eq_iff)

lemma same_fds_set_fd:
  assumes "hal_inv s" "i < ALT_MAX_FD" "fd_dev (f (alt_fd_list s ! i)) = fd_dev (alt_fd_list s ! i)"
  shows "same_fds s (set_fd i f s)"
  using assms fd_inv_set_fd [of s i f] by (simp add: same_fds_def same_reg_def hal_inv_def)

lemma dev_call_same:
  assumes "dev_call i f s = Inr (r, s')" "hal_inv s" "i < ALT_MAX_FD" "keeps_dev f"
  shows "same_fds s s'"
proof -
  from assms(1) obtain e w where f: "f (alt_fd_list s ! i) (hal_world s) = Inr (r, e, w)"
    and s': "s' = (set_fd i (\<lambda>_. e) s)\<lparr>hal_world := w\<rparr>"
    by (auto simp: dev_call_def andThen_Inr_iff)
  from assms(4) f have "fd_dev e = fd_dev (alt_fd_list s ! i)" unfolding keeps_dev_def by blast
  then have "same_fds s (set_fd i (\<lambda>_. e) s)" using assms(2,3) by (intro same_fds_set_fd)
  then show ?thesis by (simp add: s' same_fds_def same_reg_def)
qed

lemma fd_call_same:
  "dev_call (nat file) f s = Inr (r, s') \<Longrightarrow> hal_inv s \<Longrightarrow> file < 32 \<Longrightarrow> keeps_dev f \<Longrightarrow> same_fds s s'"
  by (rule dev_call_same) auto

lemma fd_device_driver:
  "hal_inv s \<Longrightarrow> fd_device i s = Inr d \<Longrightarrow> driver_ok d"
  by (auto simp: fd_device_def hal_inv_def split: if_splits)

lemma op_same:
  assumes "driver_ok d"
  shows "dev_read d = Some f3 \<Longrightarrow> dev_call (nat file) (f3 len) s = Inr (r3, s') \<Longrightarrow> hal_inv s \<Longrightarrow> file < 32 \<Longrightarrow>
           same_fds s s'"
    and "dev_write d = Some f4 \<Longrightarrow> dev_call (nat file) (f4 ptr) s = Inr (r4, s') \<Longrightarrow> hal_inv s \<Longrightarrow> file < 32 \<Longrightarrow>
           same_fds s s'"
    and "dev_lseek d = Some f5 \<Longrightarrow> dev_call (nat file) (f5 pos dir) s = Inr (r5, s') \<Longrightarrow> hal_inv s \<Longrightarrow> file < 32 \<Longrightarrow>
           same_fds s s'"
    and "dev_fstat d = Some f6 \<Longrightarrow> dev_call (nat file) (f6 st) s = Inr (r6, s') \<Longrightarrow> hal_inv s \<Longrightarrow> file < 32 \<Longrightarrow>
           same_fds s s'"
    and "dev_ioctl d = Some f7 \<Longrightarrow> dev_call (nat file) (f7 req arg) s = Inr (r7, s') \<Longrightarrow> hal_inv s \<Longrightarrow> file < 32 \<Longrightarrow>
           same_fds s s'"
  using assms by (simp_all add: fd_call_same driver_okD)

lemma fd_slot_Inr:
  "fd_slot file bad k = Inr r \<longleftrightarrow>
     (file < 0 \<and> bad = Inr r) \<or> (0 \<le> file \<and> file < int ALT_MAX_FD \<and> k (nat file) = Inr r)"
  by (auto simp: fd_slot_def)

lemmas call_cases = fd_slot_Inr andThen_Inr_iff

text \<open>Every call but open and close leaves the owners of all descriptors alone.\<close>

lemma ALT_READ_same:
  assumes "hal_inv s" "ALT_READ file len s = Inr (r, s')"
  shows "same_fds s s'"
  using assms
  by (auto simp: ALT_READ_def call_cases same_fds_refl dest!: fd_device_driver [OF assms(1)]
      split: if_splits option.splits) (rule op_same(1), assumption+)+

lemma ALT_WRITE_same:
  assumes "hal_inv s" "ALT_WRITE file ptr s = Inr (r, s')"
  shows "same_fds s s'"
  using assms
  by (auto simp: ALT_WRITE_def call_cases same_fds_refl dest!: fd_device_driver [OF assms(1)]
      split: if_splits option.splits) (rule op_same(2), assumption+)+

lemma ALT_LSEEK_same:
  assumes "hal_inv s" "ALT_LSEEK file ptr dir s = Inr (r, s')"
  shows "same_fds s s'"
  using assms
  by (auto simp: ALT_LSEEK_def call_cases same_fds_refl dest!: fd_device_driver [OF assms(1)]
      dest: op_same split: if_splits option.splits)

lemma ALT_FSTAT_same:
  assumes "hal_inv s" "ALT_FSTAT file m s = Inr (r, s')"
  shows "same_fds s s'"
  using assms
  by (auto simp: ALT_FSTAT_def call_cases same_fds_refl dest!: fd_device_driver [OF assms(1)]
      dest: op_same split: if_splits option.splits)

lemma ALT_ISATTY_same:
  assumes "hal_inv s" "ALT_ISATTY file s = Inr (r, s')"
  shows "same_fds s s'"
  using assms ALT_FSTAT_same [OF assms(1)]
  by (auto simp: ALT_ISATTY_def call_cases same_fds_refl split: if_splits option.splits)

lemma alt_fd_lock_same:
  assumes "alt_fd_lock (nat file) s = Inr (r, s')" "hal_inv s" "file < 32"
  shows "same_fds s s'"
  using assms same_fds_set_fd [OF assms(2), of "nat file"]
  by (auto simp: alt_fd_lock_def andThen_Inr_iff same_fds_refl split: if_splits)

lemma alt_fd_unlock_same:
  assumes "alt_fd_unlock (nat file) s = (r, s')" "hal_inv s" "file < 32"
  shows "same_fds s s'"
  using assms same_fds_set_fd [OF assms(2), of "nat file"] by (auto simp: alt_fd_unlock_def)

lemma ALT_IOCTL_same:
  assumes "hal_inv s" "ALT_IOCTL file req arg s = Inr (r, s')"
  shows "same_fds s s'"
  using assms
  by (auto simp: ALT_IOCTL_def call_cases same_fds_refl dest!: fd_device_driver [OF assms(1)]
      dest: op_same alt_fd_lock_same alt_fd_unlock_same split: if_splits option.splits)

section \<open>Open and close\<close>

lemma alt_get_fd_frame:
  assumes "alt_get_fd d s = (r, s')"
  shows "hal_devs s' = hal_devs s" "alt_dev_list s' = alt_dev_list s" "alt_fs_list s' = alt_fs_list s"
    "hal_world s' = hal_world s" "rg_links s' = rg_links s" "rg_name s' = rg_name s"
  using assms by (cases rule: alt_get_fd_cases [of s d]; auto)+

lemma alt_release_fd_frame:
  assumes "alt_release_fd fd s = Inr s'"
  shows "hal_devs s' = hal_devs s" "alt_dev_list s' = alt_dev_list s" "alt_fs_list s' = alt_fs_list s"
    "hal_world s' = hal_world s" "rg_links s' = rg_links s" "rg_name s' = rg_name s" "rg_errno s' = rg_errno s"
  using assms by (auto simp: alt_release_fd_def fd_slot_def split: if_splits)

lemma alt_file_locked_same:
  assumes "hal_inv s" "i < ALT_MAX_FD" "alt_file_locked i s = Inr (r, s')"
  shows "same_fds s s'"
  using assms same_fds_set_fd [OF assms(1,2)]
  by (auto simp: alt_file_locked_def Let_def andThen_Inr_iff)

text \<open>The end of open, on the descriptor \<open>index\<close> that was just allocated for \<open>d\<close>.\<close>

lemma open_done_result:
  assumes "fd_inv t" "owner t = (owner s)(nat index := d)" "owner s (nat index) = 0"
    and "2 < index" "index < int ALT_MAX_FD" "open_done status index t = Inr (r, s')"
  shows "fd_inv s' \<and> same_reg t s' \<and>
         (if status < 0 then r = -1 \<and> owner s' = owner s \<and> rg_errno s' = - status
          else r = index \<and> s' = t)"
proof (cases "status < 0")
  case True
  from hal_fds.rel_ok [OF assms(1,4,5)] obtain u where u: "alt_release_fd index t = Inr u"
    "owner u = (owner t)(nat index := 0)" "fd_inv u" by auto
  with True assms(6) have s': "r = -1" "s' = u\<lparr>rg_errno := - status\<rparr>" by (auto simp: open_done_def)
  have "owner u = owner s" using u(2) assms(2,3) by (simp add: fun_upd_idem)
  with True s' u alt_release_fd_frame [OF u(1)] show ?thesis by (simp add: same_reg_def)
next
  case False
  with assms show ?thesis by (simp add: open_done_def same_reg_def)
qed

text \<open>Which device a name opens: a device of that name, otherwise the file system that owns it.\<close>

definition resolves :: "'w hal \<Rightarrow> string \<Rightarrow> addr \<Rightarrow> bool" where
  "resolves s file d \<longleftrightarrow>
     (alt_find_dev file (alt_dev_list s) s = Inr d \<and> d \<noteq> 0) \<or>
     (alt_find_dev file (alt_dev_list s) s = Inr 0 \<and> alt_find_file (alt_fs_list s) file s = Inr d)"

lemma resolves_same_reg: "same_reg s s' \<Longrightarrow> resolves s' name d = resolves s name d"
  by (simp add: resolves_def same_reg_def alt_find_dev_def alt_find_file_def)

lemma ALT_OPEN_cases:
  assumes "ALT_OPEN file flags mode s = Inr (r, s')"
  obtains (none) "resolves s file 0" "r = -1" "s' = s\<lparr>rg_errno := ENODEV\<rparr>"
  | (full) d i s1 where "resolves s file d" "d \<noteq> 0" "alt_get_fd d s = (i, s1)" "i < 0" "open_done i i s1 = Inr (r, s')"
  | (locked) d i s1 st s3 where "resolves s file d" "d \<noteq> 0" "alt_get_fd d s = (i, s1)" "0 \<le> i"
      "alt_file_locked (nat i) (set_fd (nat i) (\<lambda>e. e\<lparr>fd_flags := flags AND NOT ALT_FD_FLAGS_MASK\<rparr>) s1) = Inr (st, s3)"
      "st < 0" "open_done st i s3 = Inr (r, s')"
  | (opened) d i s1 s3 st s4 where "resolves s file d" "d \<noteq> 0" "alt_get_fd d s = (i, s1)" "0 \<le> i"
      "(s3 = set_fd (nat i) (\<lambda>e. e\<lparr>fd_flags := flags AND NOT ALT_FD_FLAGS_MASK\<rparr>) s1) \<or>
       (\<exists>v. alt_file_locked (nat i) (set_fd (nat i) (\<lambda>e. e\<lparr>fd_flags := flags AND NOT ALT_FD_FLAGS_MASK\<rparr>) s1) = Inr (v, s3))"
      "(case dev_open (hal_devs s3 d) of None \<Rightarrow> Inr (0, s3)
        | Some f \<Rightarrow> dev_call (nat i) (f file flags mode) s3) = Inr (st, s4)"
      "open_done st i s4 = Inr (r, s')"
proof -
  from assms obtain d0 where d0: "alt_find_dev file (alt_dev_list s) s = Inr d0"
    by (auto simp: ALT_OPEN_def andThen_Inr_iff)
  with assms obtain d where d: "(if d0 = 0 then alt_find_file (alt_fs_list s) file s else Inr d0) = Inr d"
    by (auto simp: ALT_OPEN_def andThen_Inr_iff)
  then have res: "resolves s file d" using d0 by (auto simp: resolves_def split: if_splits)
  obtain i s1 where g: "alt_get_fd d s = (i, s1)" by (cases "alt_get_fd d s")
  let ?s2 = "set_fd (nat i) (\<lambda>e. e\<lparr>fd_flags := flags AND NOT ALT_FD_FLAGS_MASK\<rparr>) s1"
  note o = assms [unfolded ALT_OPEN_def d0 andThen.simps d Let_def, simplified]
  show thesis
  proof (cases "d = 0")
    case True
    with o have "open_done (- ENODEV) (-1) s = Inr (r, s')" by simp
    then have "r = -1" "s' = s\<lparr>rg_errno := ENODEV\<rparr>" by (auto simp: open_done_def alt_release_fd_def)
    with True res none show ?thesis by simp
  next
    case False
    show ?thesis
    proof (cases "i < 0")
      case True
      with False o g have "open_done i i s1 = Inr (r, s')" by simp
      with False True g res full show ?thesis by blast
    next
      case i: False
      with False o g obtain v s3 where v: "(if d0 = 0 then Inr (0, ?s2) else alt_file_locked (nat i) ?s2) = Inr (v, s3)"
        and k: "(if d0 = 0 \<or> 0 \<le> v then
                  andThen (case dev_open (hal_devs s3 d) of None \<Rightarrow> Inr (0, s3)
                           | Some f \<Rightarrow> dev_call (nat i) (f file flags mode) s3) (\<lambda>(st, s4). open_done st i s4)
                 else open_done v i s3) = Inr (r, s')"
        by (auto simp: andThen_Inr_iff)
      show ?thesis
      proof (cases "d0 = 0 \<or> 0 \<le> v")
        case True
        with k obtain st s4 where "(case dev_open (hal_devs s3 d) of None \<Rightarrow> Inr (0, s3)
             | Some f \<Rightarrow> dev_call (nat i) (f file flags mode) s3) = Inr (st, s4)" "open_done st i s4 = Inr (r, s')"
          by (auto simp: andThen_Inr_iff)
        moreover have "s3 = ?s2 \<or> (\<exists>v. alt_file_locked (nat i) ?s2 = Inr (v, s3))"
          using v by (auto split: if_splits)
        ultimately show ?thesis using opened [OF res False g] i by auto
      next
        case no: False
        with v k have "alt_file_locked (nat i) ?s2 = Inr (v, s3)" "open_done v i s3 = Inr (r, s')" by auto
        with locked [OF res False g _ this(1)] i no show ?thesis by auto
      qed
    qed
  qed
qed

text \<open>What open does to the pool.\<close>

definition open_outcome :: "'w hal \<Rightarrow> string \<Rightarrow> int \<Rightarrow> 'w hal \<Rightarrow> bool" where
  "open_outcome s file r s' \<longleftrightarrow>
     fd_inv s' \<and> same_reg s s' \<and>
     ((\<exists>d. resolves s file d \<and> d \<noteq> 0 \<and> 2 < r \<and> first_free s (nat r) \<and> owner s' = (owner s)(nat r := d)) \<or>
      (r = -1 \<and> owner s' = owner s))"

lemma ALT_OPEN_outcome:
  assumes "hal_inv s" "ALT_OPEN file flags mode s = Inr (r, s')"
  shows "open_outcome s file r s'"
  using assms(2)
proof (cases rule: ALT_OPEN_cases)
  case none
  with assms(1) show ?thesis by (simp add: open_outcome_def hal_inv_def same_reg_def)
next
  case (full d i s1)
  from assms(1) have "fd_inv s" by (simp add: hal_inv_def)
  from hal_fds.get_full [OF this full(3,4)] full(4,5)
  have "r = -1" "s' = s\<lparr>rg_errno := EMFILE\<rparr>" by (auto simp: open_done_def alt_release_fd_def)
  with assms(1) show ?thesis by (simp add: open_outcome_def hal_inv_def same_reg_def)
next
  case (locked d i s1 st s3)
  let ?s2 = "set_fd (nat i) (\<lambda>e. e\<lparr>fd_flags := flags AND NOT ALT_FD_FLAGS_MASK\<rparr>) s1"
  from assms(1) have inv: "fd_inv s" by (simp add: hal_inv_def)
  note g = hal_fds.get_ok [OF inv locked(3,4)]
  have h1: "hal_inv s1"
    using assms(1) alt_get_fd_inv [OF inv locked(3)] alt_get_fd_frame(1) [OF locked(3)] by (simp add: hal_inv_def)
  have n: "nat i < ALT_MAX_FD" using g by auto
  have "same_fds s1 ?s2" using h1 n by (intro same_fds_set_fd) auto
  then have t: "same_fds s1 s3" using alt_file_locked_same [OF _ n locked(5)] same_fds_inv [OF h1] same_fds_trans by blast
  then have o: "owner s3 = (owner s)(nat i := d)" "fd_inv s3" using g by (auto simp: same_fds_def)
  from open_done_result [OF o(2,1) _ _ _ locked(7)] g locked(6) t alt_get_fd_frame [OF locked(3)]
  show ?thesis by (simp add: open_outcome_def same_fds_def same_reg_def)
next
  case (opened d i s1 s3 st s4)
  let ?s2 = "set_fd (nat i) (\<lambda>e. e\<lparr>fd_flags := flags AND NOT ALT_FD_FLAGS_MASK\<rparr>) s1"
  from assms(1) have inv: "fd_inv s" by (simp add: hal_inv_def)
  note g = hal_fds.get_ok [OF inv opened(3,4)]
  have h1: "hal_inv s1"
    using assms(1) alt_get_fd_inv [OF inv opened(3)] alt_get_fd_frame(1) [OF opened(3)] by (simp add: hal_inv_def)
  have n: "nat i < ALT_MAX_FD" using g by auto
  have "same_fds s1 ?s2" using h1 n by (intro same_fds_set_fd) auto
  then have t: "same_fds s1 s3" using opened(5) alt_file_locked_same [OF _ n] same_fds_inv [OF h1] same_fds_trans by blast
  have h3: "hal_inv s3" using same_fds_inv [OF h1 t] .
  have "same_fds s3 s4"
  proof (cases "dev_open (hal_devs s3 d)")
    case None
    with opened(6) h3 show ?thesis by (auto simp: same_fds_refl)
  next
    case (Some f)
    with h3 have "keeps_dev (f file flags mode)" by (auto simp: hal_inv_def intro: driver_okD)
    with Some opened(6) dev_call_same [OF _ h3 n] show ?thesis by simp
  qed
  with t have t: "same_fds s1 s4" by (rule same_fds_trans)
  then have o: "owner s4 = (owner s)(nat i := d)" "fd_inv s4" using g by (auto simp: same_fds_def)
  have ff: "first_free s (nat i)" using alt_get_fd_pool(1) [OF inv opened(3,4)] by simp
  from open_done_result [OF o(2,1) _ _ _ opened(7)] g t alt_get_fd_frame [OF opened(3)] opened(1,2) ff o
  show ?thesis by (cases "st < 0") (auto simp: open_outcome_def same_fds_def same_reg_def)
qed

lemma ALT_CLOSE_outcome:
  assumes "hal_inv s" "ALT_CLOSE fd s = Inr (r, s')"
  shows "fd_inv s' \<and> same_reg s s' \<and>
         owner s' = (if 2 < fd then (owner s)(nat fd := 0) else owner s) \<and> (0 \<le> fd \<longrightarrow> owner s (nat fd) \<noteq> 0)"
proof (cases "fd < 0")
  case True
  with assms show ?thesis by (auto simp: ALT_CLOSE_def fd_slot_def hal_inv_def same_reg_def)
next
  case False
  with assms(2) obtain d rv s1 s2 where d: "fd < int ALT_MAX_FD" "fd_device (nat fd) s = Inr d"
    and c: "(case dev_close d of None \<Rightarrow> Inr (0, s) | Some f \<Rightarrow> dev_call (nat fd) f s) = Inr (rv, s1)"
    and rel: "alt_release_fd fd s1 = Inr s2" and s': "s' = s2 \<or> s' = s2\<lparr>rg_errno := - rv\<rparr>"
    by (auto simp: ALT_CLOSE_def call_cases split: if_splits)
  have "same_fds s s1"
  proof (cases "dev_close d")
    case None
    with c assms(1) show ?thesis by (auto simp: same_fds_refl)
  next
    case (Some f)
    with fd_device_driver [OF assms(1) d(2)] have "keeps_dev f" by (auto intro: driver_okD)
    with Some c d(1) show ?thesis by (intro fd_call_same [of fd f s rv s1] assms(1)) auto
  qed
  moreover from this have "fd_inv s1" by (simp add: same_fds_def)
  from alt_release_fd_inv [OF this rel] alt_release_fd_frame [OF rel]
  have "fd_inv s2" "owner s2 = (if 2 < fd then (owner s1)(nat fd := 0) else owner s1)" "same_reg s1 s2"
    by (simp_all add: same_reg_def)
  moreover have "owner s (nat fd) \<noteq> 0" using d False by (auto simp: fd_device_def owner_def split: if_splits)
  ultimately show ?thesis using s' by (auto simp: same_fds_def same_reg_def)
qed

section \<open>Programs that use the calls\<close>

text \<open>One call of a program; a call that does not return ends the execution.\<close>

inductive posix_step :: "'w hal \<Rightarrow> 'w hal \<Rightarrow> bool" where
  open_step: "ALT_OPEN file flags mode s = Inr (r, s') \<Longrightarrow> posix_step s s'"
| close_step: "ALT_CLOSE fd s = Inr (r, s') \<Longrightarrow> posix_step s s'"
| read_step: "ALT_READ fd len s = Inr (rb, s') \<Longrightarrow> posix_step s s'"
| write_step: "ALT_WRITE fd bytes s = Inr (r, s') \<Longrightarrow> posix_step s s'"
| lseek_step: "ALT_LSEEK fd pos dir s = Inr (r, s') \<Longrightarrow> posix_step s s'"
| fstat_step: "ALT_FSTAT fd m s = Inr (rm, s') \<Longrightarrow> posix_step s s'"
| isatty_step: "ALT_ISATTY fd s = Inr (r, s') \<Longrightarrow> posix_step s s'"
| ioctl_step: "ALT_IOCTL fd req arg s = Inr (r, s') \<Longrightarrow> posix_step s s'"
| fcntl_step: "ALT_FCNTL fd cmd arg' s = Inr (r, s') \<Longrightarrow> posix_step s s'"

lemma ALT_FCNTL_same:
  assumes "hal_inv s" "ALT_FCNTL fd cmd arg s = Inr (r, s')"
  shows "same_fds s s'"
proof (cases "0 \<le> fd \<and> fd < int ALT_MAX_FD \<and> cmd = F_SETFL")
  case True
  let ?s1 = "set_fd (nat fd) (\<lambda>e. e\<lparr>fd_flags := fd_flags e AND NOT (O_APPEND OR O_NONBLOCK)\<rparr>) s"
  let ?s2 = "set_fd (nat fd) (\<lambda>e. e\<lparr>fd_flags := fd_flags e OR (arg AND (O_APPEND OR O_NONBLOCK))\<rparr>) ?s1"
  from True assms have s': "s' = ?s2" by (auto simp: ALT_FCNTL_def fd_slot_Inr Let_def)
  have n: "nat fd < ALT_MAX_FD" using True by auto
  have a: "same_fds s ?s1" using assms(1) n by (intro same_fds_set_fd) auto
  have "same_fds ?s1 ?s2" using same_fds_inv [OF assms(1) a] n by (intro same_fds_set_fd) auto
  with a show ?thesis unfolding s' by (rule same_fds_trans)
next
  case False
  with assms show ?thesis by (auto simp: ALT_FCNTL_def fd_slot_Inr same_fds_refl split: if_splits)
qed

lemma posix_step_inv:
  assumes "hal_inv s" "posix_step s s'"
  shows "hal_inv s'"
  using assms(2)
proof (cases rule: posix_step.cases)
  case (open_step name flags mode r)
  from ALT_OPEN_outcome [OF assms(1) this] assms(1) show ?thesis by (auto simp: open_outcome_def hal_inv_def same_reg_def)
next
  case (close_step fd r)
  from ALT_CLOSE_outcome [OF assms(1) this] assms(1) show ?thesis by (auto simp: hal_inv_def same_reg_def)
qed (use assms(1) in \<open>blast intro: same_fds_inv ALT_READ_same ALT_WRITE_same ALT_LSEEK_same ALT_FSTAT_same
       ALT_ISATTY_same ALT_IOCTL_same ALT_FCNTL_same\<close>)+

lemma posix_steps_inv: "posix_step\<^sup>*\<^sup>* s s' \<Longrightarrow> hal_inv s \<Longrightarrow> hal_inv s'"
  by (induction rule: rtranclp_induct) (auto intro: posix_step_inv)

section \<open>Properties\<close>

text \<open>
  A system with the null device at address 2 and a device \<^verbatim>\<open>/dev/u\<close> at address 3 that provides no
  callback but a write; the heads of the device and file system lists are at 10 and 11.
\<close>

definition hal0 :: "unit hal" where
  "hal0 = \<lparr>rg_links = alt_llist_insert 10 3 (alt_llist_insert 10 2
             (ALT_LLIST_HEAD 11 (ALT_LLIST_HEAD 10 \<lparr>ll_next = \<lambda>_. 0, ll_prev = \<lambda>_. 0\<rparr>))),
           rg_name = (\<lambda>_. None)(2 := Some ''/dev/null'', 3 := Some ''/dev/u''), rg_errno = 0,
           alt_fd_list = alt_fd_list_init 2, alt_max_fd = -1, hal_devs = \<lambda>_. alt_dev_null,
           alt_dev_list = 10, alt_fs_list = 11, hal_world = ()\<rparr>"

lemma hal0_owner: "owner hal0 i = (if i < 3 then 2 else 0)"
  by (auto simp: owner_def hal0_def alt_fd_list_init_nth alt_dev_null_fd_def)

lemma hal0_inv: "hal_inv hal0"
proof -
  have "length (alt_fd_list hal0) = ALT_MAX_FD" "alt_max_fd hal0 = -1" by (simp_all add: hal0_def)
  then have "fd_inv hal0" by (auto simp: fd_inv_def hal0_owner)
  then show ?thesis by (simp add: hal_inv_def hal0_def alt_dev_null_ok)
qed

lemma hal0_lists: "llist_at (rg_links hal0) 10 [3, 2]" "llist_at (rg_links hal0) 11 []"
  by (simp_all add: hal0_def llist_at_def ALT_LLIST_HEAD_def alt_llist_insert_def Let_def)

lemma hal0_find: "alt_find_dev ''/dev/u'' (alt_dev_list hal0) hal0 = Inr 3"
  using alt_find_dev_list [OF hal0_lists(1), of "''/dev/u''"]
  by (simp add: hal0_def named_def first_named_def nul_def)


lemma hal0_open:
  "\<exists>s'. ALT_OPEN ''/dev/u'' O_RDWR 0 hal0 = Inr (3, s')"
proof -
  let ?s1 = "(set_fd 3 (\<lambda>e. e\<lparr>fd_dev := 3\<rparr>) hal0)\<lparr>alt_max_fd := 3\<rparr>"
  let ?s2 = "set_fd 3 (\<lambda>e. e\<lparr>fd_flags := O_RDWR AND NOT ALT_FD_FLAGS_MASK\<rparr>) ?s1"
  let ?s3 = "set_fd 3 (\<lambda>e. e\<lparr>fd_flags := fd_flags e OR ALT_FD_DEV\<rparr>) ?s2"
  have g: "alt_get_fd 3 hal0 = (3, ?s1)"
    using alt_get_fd_from_first [of 0 3 hal0 3] by (auto simp: alt_get_fd_def hal0_owner) (simp add: hal0_def)
  have fd: "(if j = 3 then (E :: alt_fd) else alt_fd_list hal0 ! j) = (if j = 3 then E else alt_dev_null_fd 2)"
    if "j \<le> 3" for j E using that by (auto simp: hal0_def alt_fd_list_init_nth)
  have l: "length (alt_fd_list hal0) = ALT_MAX_FD" by (simp add: hal0_def)
  have "fd_locked_from 3 0 ?s3 = Inr False"
    using fd_locked_from_iff [of ?s3 3 0] l
    by (auto simp: set_fd_def nth_list_update hal0_def alt_fd_list_init_nth alt_dev_null_fd_def)
  then have "alt_file_locked 3 ?s2 = Inr (0, ?s3)" by (simp add: alt_file_locked_def)
  moreover have "hal_devs ?s3 3 = alt_dev_null" by (simp add: hal0_def)
  ultimately show ?thesis using hal0_find g
    by (simp add: ALT_OPEN_def Let_def alt_dev_null_def open_done_def)
qed


text \<open>C2: Opening returns the lowest free descriptor, which becomes the named device's, or the one of
  the file system that owns the file, and leaves all other descriptors alone; or it returns -1 and no
  descriptor has changed hands: every error path gives the allocated descriptor back.\<close>

theorem open_allocates_or_restores:
  assumes "hal_inv s" and "ALT_OPEN file flags mode s = Inr (r, s')"
  shows "(\<exists>d. resolves s file d \<and> d \<noteq> 0 \<and> 2 < r \<and> first_free s (nat r) \<and> owner s' = (owner s)(nat r := d)) \<or>
         (r = -1 \<and> owner s' = owner s)"
  using ALT_OPEN_outcome [OF assms] by (simp add: open_outcome_def)

theorem open_allocates_or_restores_witness:
  "\<exists>s'. ALT_OPEN ''/dev/u'' O_RDWR 0 hal0 = Inr (3, s') \<and> owner s' = (owner hal0)(3 := 3)"
proof -
  from hal0_open obtain s' where o: "ALT_OPEN ''/dev/u'' O_RDWR 0 hal0 = Inr (3, s')" by blast
  from open_allocates_or_restores [OF hal0_inv o] hal0_find o show ?thesis by (auto simp: resolves_def)
qed

text \<open>C17: Closing a descriptor that open returned gives the pool back the owners it had.\<close>

theorem open_close_roundtrip:
  assumes "hal_inv s" and "ALT_OPEN file flags mode s = Inr (r, s1)" "0 \<le> r"
    and "ALT_CLOSE r s1 = Inr (r', s2)"
  shows "owner s2 = owner s \<and> hal_inv s2"
proof -
  from ALT_OPEN_outcome [OF assms(1,2)] assms(3) obtain d where r: "2 < r" "first_free s (nat r)"
    "owner s1 = (owner s)(nat r := d)" "fd_inv s1" "same_reg s s1" by (auto simp: open_outcome_def)
  with assms(1) have "hal_inv s1" by (simp add: hal_inv_def same_reg_def)
  from ALT_CLOSE_outcome [OF this assms(4)] r \<open>hal_inv s1\<close> show ?thesis
    by (auto simp: first_free_def hal_inv_def same_reg_def fun_upd_idem)
qed

lemma hal0_open_close:
  assumes "ALT_OPEN ''/dev/u'' O_RDWR 0 hal0 = Inr (3, s1)"
  shows "\<exists>s2. ALT_CLOSE 3 s1 = Inr (0, s2)"
proof -
  from ALT_OPEN_outcome [OF hal0_inv assms] have o: "fd_inv s1" "same_reg hal0 s1" "owner s1 3 \<noteq> 0"
    by (auto simp: open_outcome_def)
  then have d: "fd_device 3 s1 = Inr alt_dev_null"
    by (simp add: fd_device_def owner_def same_reg_def hal0_def split: if_splits)
  from alt_release_fd_eq [OF o(1), of 3] d show ?thesis
    by (simp add: ALT_CLOSE_def fd_slot_def alt_dev_null_def)
qed

theorem open_close_roundtrip_witness:
  "\<exists>s1 s2. ALT_OPEN ''/dev/u'' O_RDWR 0 hal0 = Inr (3, s1) \<and> ALT_CLOSE 3 s1 = Inr (0, s2) \<and>
           owner s2 = owner hal0"
proof -
  from hal0_open obtain s1 where o: "ALT_OPEN ''/dev/u'' O_RDWR 0 hal0 = Inr (3, s1)" by blast
  from hal0_open_close [OF this] obtain s2 where c: "ALT_CLOSE 3 s1 = Inr (0, s2)" by blast
  from open_close_roundtrip [OF hal0_inv o _ c] o c show ?thesis by auto
qed

text \<open>C20: While a descriptor holds a device for exclusive access and a descriptor is free, opening the device again fails with
  \<^verbatim>\<open>EACCES\<close>, without the driver being asked, and no descriptor changes hands.\<close>

theorem open_locked_device_refused:
  assumes "hal_inv s" and "alt_find_dev file (alt_dev_list s) s = Inr d" "d \<noteq> 0"
    and "owner s fd = d" "fd < ALT_MAX_FD" "fd_flags (alt_fd_list s ! fd) AND ALT_FD_EXCL \<noteq> 0"
    and "\<exists>i < ALT_MAX_FD. owner s i = 0"
  shows "\<exists>s'. ALT_OPEN file flags mode s = Inr (-1, s') \<and> rg_errno s' = EACCES \<and> owner s' = owner s \<and>
              hal_world s' = hal_world s"
proof -
  from assms(1) have inv: "fd_inv s" by (simp add: hal_inv_def)
  obtain k where k: "first_free s k"
    "alt_get_fd d s = (int k, (set_fd k (\<lambda>e. e\<lparr>fd_dev := d\<rparr>) s)\<lparr>alt_max_fd := max (alt_max_fd s) (int k)\<rparr>)"
    using assms(7) by (cases rule: alt_get_fd_cases [of s d]) auto
  let ?s1 = "(set_fd k (\<lambda>e. e\<lparr>fd_dev := d\<rparr>) s)\<lparr>alt_max_fd := max (alt_max_fd s) (int k)\<rparr>"
  let ?s2 = "set_fd k (\<lambda>e. e\<lparr>fd_flags := flags AND NOT ALT_FD_FLAGS_MASK\<rparr>) ?s1"
  let ?s3 = "set_fd k (\<lambda>e. e\<lparr>fd_flags := fd_flags e OR ALT_FD_DEV\<rparr>) ?s2"
  have kl: "2 < k" "k < ALT_MAX_FD" "length (alt_fd_list s) = ALT_MAX_FD" "fd \<noteq> k"
    using first_free_std [OF inv k(1)] k(1) assms(3,4) inv by (auto simp: first_free_def fd_inv_def)
  have "fd \<le> 2 \<or> int fd \<le> alt_max_fd s" using inv assms(3,4) by (cases "2 < fd") (auto simp: fd_inv_def)
  then have m: "0 \<le> alt_max_fd ?s3" "alt_max_fd ?s3 < int ALT_MAX_FD" "int fd \<le> alt_max_fd ?s3"
    using kl inv by (auto simp: fd_inv_def)
  have nth: "alt_fd_list ?s3 ! fd = alt_fd_list s ! fd" "fd_dev (alt_fd_list ?s3 ! k) = d"
    using kl by (simp_all add: set_fd_def)
  have "fd_locked_from k 0 ?s3 = Inr True"
    unfolding fd_locked_from_iff [OF m(1,2)]
    using m(3) nth assms(4-6) kl(4) by (auto simp: owner_def intro!: exI [of _ fd])
  then have lk: "alt_file_locked k ?s2 = Inr (- EACCES, ?s3)" by (simp add: alt_file_locked_def)
  have o3: "fd_inv ?s3" "owner ?s3 = (owner s)(k := d)"
  proof -
    have h1: "fd_inv ?s1" "owner ?s1 = (owner s)(k := d)"
      using alt_get_fd_inv [OF inv k(2)] hal_fds.get_ok [OF inv k(2)] by simp_all
    have "fd_inv ?s2" "owner ?s2 = owner ?s1" using h1(1) kl(2) by (intro fd_inv_set_fd; simp)+
    then show "fd_inv ?s3" "owner ?s3 = (owner s)(k := d)"
      using kl(2) h1(2) fd_inv_set_fd [of ?s2 k "\<lambda>e. e\<lparr>fd_flags := fd_flags e OR ALT_FD_DEV\<rparr>"] by simp_all
  qed
  from alt_release_fd_eq [OF o3(1), of "int k"] kl
  obtain u where u: "alt_release_fd (int k) ?s3 = Inr u" by auto
  then have "open_done (- EACCES) (int k) ?s3 = Inr (-1, u\<lparr>rg_errno := EACCES\<rparr>)" by (simp add: open_done_def)
  moreover have "owner u = owner s"
    using alt_release_fd_inv(2) [OF o3(1) u] o3(2) kl k(1) by (simp add: first_free_def fun_upd_idem)
  moreover have "hal_world u = hal_world s" using alt_release_fd_frame(4) [OF u] by simp
  ultimately show ?thesis using assms(2,3) k(2) lk by (simp add: ALT_OPEN_def Let_def)
qed

definition hal_excl :: "unit hal" where
  "hal_excl = (set_fd 3 (\<lambda>_. \<lparr>fd_dev = 3, fd_priv = 0, fd_flags = ALT_FD_EXCL OR ALT_FD_DEV\<rparr>) hal0)\<lparr>alt_max_fd := 3\<rparr>"

lemma hal_excl_owner: "owner hal_excl = (owner hal0)(3 := 3)" "hal_inv hal_excl"
proof -
  have l: "length (alt_fd_list hal0) = ALT_MAX_FD" by (simp add: hal0_def)
  show o: "owner hal_excl = (owner hal0)(3 := 3)" using l by (simp add: hal_excl_def owner_set_fd)
  have "length (alt_fd_list hal_excl) = ALT_MAX_FD" "alt_max_fd hal_excl = 3"
    using l by (simp_all add: hal_excl_def)
  then have "fd_inv hal_excl" by (auto simp: fd_inv_def o hal0_owner)
  moreover have "hal_devs hal_excl = hal_devs hal0" by (simp add: hal_excl_def)
  ultimately show "hal_inv hal_excl" using hal0_inv by (simp add: hal_inv_def)
qed

theorem open_locked_device_refused_witness:
  "\<exists>s'. ALT_OPEN ''/dev/u'' O_RDWR 0 hal_excl = Inr (-1, s') \<and> rg_errno s' = EACCES"
proof -
  have f: "alt_find_dev ''/dev/u'' (alt_dev_list hal_excl) hal_excl = Inr 3"
    using hal0_find by (simp add: alt_find_dev_def hal_excl_def split: if_splits)
  have e: "fd_flags (alt_fd_list hal_excl ! 3) AND ALT_FD_EXCL \<noteq> 0"
    by (simp add: hal_excl_def set_fd_nth hal0_def)
  have "\<exists>i < ALT_MAX_FD. owner hal_excl i = 0"
    by (intro exI [of _ 4]) (simp add: hal_excl_owner hal0_owner)
  from open_locked_device_refused [OF hal_excl_owner(2) f _ _ _ e this, of O_RDWR 0] show ?thesis
    by (auto simp: hal_excl_owner)
qed

text \<open>After a failed \<^verbatim>\<open>stat\<close> the error number is always \<^verbatim>\<open>EBADFD\<close>: the calls on the descriptor -1
  overwrite the error open reported.\<close>

lemma stat_loses_open_error:
  assumes "ALT_OPEN file 0 mode s = Inr (-1, s1)"
  shows "\<exists>s'. ALT_STAT file mode m s = Inr ((-1, m), s') \<and> rg_errno s' = EBADFD"
  using assms by (simp add: ALT_STAT_def ALT_FSTAT_def ALT_CLOSE_def fd_slot_def)

lemma stat_of_no_device:
  "\<exists>s1 s'. ALT_OPEN ''/dev/x'' 0 0 hal0 = Inr (-1, s1) \<and> rg_errno s1 = ENODEV \<and>
           ALT_STAT ''/dev/x'' 0 7 hal0 = Inr ((-1, 7), s') \<and> rg_errno s' = EBADFD"
proof -
  have "alt_find_dev ''/dev/x'' (alt_dev_list hal0) hal0 = Inr 0"
    using alt_find_dev_list [OF hal0_lists(1), of "''/dev/x''"]
    by (simp add: hal0_def named_def first_named_def nul_def)
  moreover have "alt_find_file (alt_fs_list hal0) ''/dev/x'' hal0 = Inr 0"
    using alt_find_file_list [OF hal0_lists(2), of "''/dev/x''"]
    by (simp add: hal0_def named_def first_named_def nul_def)
  ultimately have o: "ALT_OPEN ''/dev/x'' 0 0 hal0 = Inr (-1, hal0\<lparr>rg_errno := ENODEV\<rparr>)"
    by (simp add: ALT_OPEN_def open_done_def alt_release_fd_def)
  from stat_loses_open_error [OF o, of 7] o show ?thesis by auto
qed

section \<open>Redirecting the standard streams\<close>

lemma alt_open_fd_outcome:
  assumes "hal_inv s" "fd \<le> 2" "alt_open_fd fd name flags mode s = Inr s'"
  shows "hal_inv s' \<and> same_reg s s' \<and>
         (owner s' = owner s \<or> (\<exists>d. resolves s name d \<and> d \<noteq> 0 \<and> owner s' = (owner s)(fd := d)))"
proof -
  from assms(3) obtain old s1 where o: "ALT_OPEN name flags mode s = Inr (old, s1)"
    and k: "(if 0 \<le> old then
               alt_release_fd old (set_fd fd (\<lambda>_. \<lparr>fd_dev = fd_dev (alt_fd_list s1 ! nat old),
                 fd_priv = fd_priv (alt_fd_list s1 ! nat old), fd_flags = fd_flags (alt_fd_list s1 ! nat old)\<rparr>) s1)
             else Inr s1) = Inr s'"
    by (auto simp: alt_open_fd_def andThen_Inr_iff Let_def split: if_splits)
  note out = ALT_OPEN_outcome [OF assms(1) o, unfolded open_outcome_def]
  show ?thesis
  proof (cases "0 \<le> old")
    case False
    with k out assms(1) show ?thesis by (auto simp: hal_inv_def same_reg_def)
  next
    case True
    with out obtain d where d: "resolves s name d" "d \<noteq> 0" "2 < old" "first_free s (nat old)"
      "owner s1 = (owner s)(nat old := d)" by auto
    let ?e = "alt_fd_list s1 ! nat old"
    let ?t = "set_fd fd (\<lambda>_. \<lparr>fd_dev = fd_dev ?e, fd_priv = fd_priv ?e, fd_flags = fd_flags ?e\<rparr>) s1"
    have inv: "fd_inv s1" and reg: "same_reg s s1" using out by auto
    have "fd_dev ?e = d" using fun_cong [OF d(5), of "nat old"] d(4) by (simp add: owner_def first_free_def)
    moreover have "length (alt_fd_list s1) = ALT_MAX_FD" using inv by (simp add: fd_inv_def)
    ultimately have t: "owner ?t = (owner s1)(fd := d)" using assms(2) by (subst owner_set_fd) auto
    have ti: "fd_inv ?t" using inv d(2) assms(2) by (auto simp: fd_inv_def t)
    from k True have "alt_release_fd old ?t = Inr s'" by simp
    from alt_release_fd_inv [OF ti this] alt_release_fd_frame [OF this] d(3) t d(5)
    have "fd_inv s'" "owner s' = (owner s)(fd := d)" "same_reg s1 s'"
      using d(4) assms(2) by (auto simp: same_reg_def first_free_def fun_eq_iff)
    with reg d(1,2) assms(1) show ?thesis by (auto simp: hal_inv_def same_reg_def)
  qed
qed

text \<open>C37: Redirecting the standard streams never leaks a descriptor: all others keep their owners, and
  each stream either keeps its device or moves to the one its name resolves to, the three names being
  looked up in the same registry.\<close>

theorem io_redirect_streams:
  assumes "hal_inv s" and "alt_io_redirect out inp err s = Inr s'"
  shows "hal_inv s' \<and> (\<forall>i > 2. owner s' i = owner s i) \<and>
         (owner s' STDOUT_FILENO = owner s STDOUT_FILENO \<or> resolves s out (owner s' STDOUT_FILENO)) \<and>
         (owner s' STDIN_FILENO = owner s STDIN_FILENO \<or> resolves s inp (owner s' STDIN_FILENO)) \<and>
         (owner s' STDERR_FILENO = owner s STDERR_FILENO \<or> resolves s err (owner s' STDERR_FILENO))"
proof -
  from assms(2) obtain s1 s2 where o: "alt_open_fd 1 out O_WRONLY 0x1FF s = Inr s1"
    "alt_open_fd 0 inp O_RDONLY 0x1FF s1 = Inr s2" "alt_open_fd 2 err O_WRONLY 0x1FF s2 = Inr s'"
    by (auto simp: alt_io_redirect_def andThen_Inr_iff)
  note 1 = alt_open_fd_outcome [OF assms(1) _ o(1), simplified]
  then have h1: "hal_inv s1" by simp
  note 2 = alt_open_fd_outcome [OF h1 _ o(2), simplified]
  then have h2: "hal_inv s2" by simp
  note 3 = alt_open_fd_outcome [OF h2 _ o(3), simplified]
  have r1: "resolves s1 n d = resolves s n d" for n d using 1 resolves_same_reg by blast
  have r2: "resolves s2 n d = resolves s n d" for n d using 2 r1 resolves_same_reg by blast
  show ?thesis using 1 2 3 unfolding r1 r2 by auto
qed

section \<open>The calls return\<close>

text \<open>The two device lists are proper lists of named entries.\<close>

definition reg_wf :: "'w hal \<Rightarrow> bool" where
  "reg_wf s \<longleftrightarrow> alt_dev_list s \<noteq> 0 \<and>
     (\<exists>xs. llist_at (rg_links s) (alt_dev_list s) xs \<and> named s xs) \<and>
     (\<exists>ys. llist_at (rg_links s) (alt_fs_list s) ys \<and> named s ys)"

lemma reg_wf_same_reg: "same_reg s s' \<Longrightarrow> reg_wf s' = reg_wf s"
  by (simp add: reg_wf_def same_reg_def named_def)

lemma resolve_returns:
  assumes "reg_wf s" "cstr file"
  shows "\<exists>d. alt_find_dev file (alt_dev_list s) s = Inr d" "\<exists>d. alt_find_file (alt_fs_list s) file s = Inr d"
  using assms(1) unfolding reg_wf_def
  by (blast intro: alt_find_dev_list [OF _ _ assms(2)] alt_find_file_list [OF _ _ assms(2)])+

text \<open>The driver's open callback, when there is one, returns.\<close>

definition opens_return :: "'w hal \<Rightarrow> string \<Rightarrow> u32 \<Rightarrow> int \<Rightarrow> bool" where
  "opens_return s file flags mode \<longleftrightarrow>
     (\<forall>d f e w. dev_open (hal_devs s d) = Some f \<longrightarrow> (\<exists>x. f file flags mode e w = Inr x))"

lemma alt_release_fd_returns: "fd < int ALT_MAX_FD \<Longrightarrow> \<exists>s'. alt_release_fd fd s = Inr s'"
  by (simp add: alt_release_fd_def fd_slot_def)

lemma open_done_returns: "index < int ALT_MAX_FD \<Longrightarrow> \<exists>r s'. open_done status index s = Inr (r, s')"
  using alt_release_fd_returns [of index s] by (auto simp: open_done_def)

lemma alt_file_locked_returns:
  assumes "fd_inv s" "0 \<le> alt_max_fd s"
  shows "\<exists>v s'. alt_file_locked i s = Inr (v, s') \<and> hal_devs s' = hal_devs s"
  using assms fd_locked_from_iff [of "set_fd i (\<lambda>e. e\<lparr>fd_flags := fd_flags e OR ALT_FD_DEV\<rparr>) s" i 0]
  by (auto simp: alt_file_locked_def Let_def fd_inv_def)

lemma ALT_OPEN_returns:
  assumes "hal_inv s" "reg_wf s" "cstr file" "opens_return s file flags mode"
  shows "\<exists>r s'. ALT_OPEN file flags mode s = Inr (r, s')"
proof -
  from resolve_returns [OF assms(2,3)] obtain d0 where d0: "alt_find_dev file (alt_dev_list s) s = Inr d0" by blast
  from resolve_returns [OF assms(2,3)] obtain d
    where d: "(if d0 = 0 then alt_find_file (alt_fs_list s) file s else Inr d0) = Inr d"
    by (cases "d0 = 0") auto
  obtain i s1 where g: "alt_get_fd d s = (i, s1)" by (cases "alt_get_fd d s")
  have inv: "fd_inv s" using assms(1) by (simp add: hal_inv_def)
  let ?s2 = "set_fd (nat i) (\<lambda>e. e\<lparr>fd_flags := flags AND NOT ALT_FD_FLAGS_MASK\<rparr>) s1"
  have neg: "index < 0 \<Longrightarrow> \<exists>r s'. open_done st index t = Inr (r, s')" for index st and t :: "'a hal"
    by (rule open_done_returns) simp
  show ?thesis
  proof (cases "d = 0 \<or> i < 0")
    case True
    then show ?thesis using neg [of i i s1] neg [of "-1" "- ENODEV" s] d0 d g
      by (auto simp: ALT_OPEN_def Let_def)
  next
    case False
    then have i: "0 \<le> i" "d \<noteq> 0" by auto
    note gk = hal_fds.get_ok [OF inv g i(1)]
    have m: "0 \<le> alt_max_fd ?s2" using alt_get_fd_pool(1) [OF inv g i(1)] i by (simp add: le_max_iff_disj)
    have "fd_inv ?s2" using alt_get_fd_inv [OF inv g] gk by (intro fd_inv_set_fd) auto
    from alt_file_locked_returns [OF this m, of "nat i"] obtain v s3
      where v: "(if d0 = 0 then Inr (0, ?s2) else alt_file_locked (nat i) ?s2) = Inr (v, s3)"
        "hal_devs s3 = hal_devs s" using alt_get_fd_frame(1) [OF g] by (metis set_fd_hal(1))
    have "\<exists>st s4. (case dev_open (hal_devs s3 d) of None \<Rightarrow> Inr (0, s3)
             | Some f \<Rightarrow> dev_call (nat i) (f file flags mode) s3) = Inr (st, s4)"
    proof (cases "dev_open (hal_devs s3 d)")
      case None
      then show ?thesis by simp
    next
      case (Some f)
      with assms(4) v(2) obtain x where "f file flags mode (alt_fd_list s3 ! nat i) (hal_world s3) = Inr x"
        unfolding opens_return_def by metis
      with Some show ?thesis by (cases x) (simp add: dev_call_def)
    qed
    then obtain st s4 where st: "(case dev_open (hal_devs s3 d) of None \<Rightarrow> Inr (0, s3)
             | Some f \<Rightarrow> dev_call (nat i) (f file flags mode) s3) = Inr (st, s4)" by blast
    from open_done_returns [of i st s4] open_done_returns [of i v s3] gk
    have "\<exists>r s'. open_done st i s4 = Inr (r, s')" "\<exists>r s'. open_done v i s3 = Inr (r, s')" by auto
    then show ?thesis using d0 d g i v(1) st by (auto simp: ALT_OPEN_def Let_def)
  qed
qed

text \<open>C21: With proper device lists, opening any name returns as soon as the open callback of the device
  does: neither the search of the registry nor the search of the pool can run forever or leave the
  array of descriptors.\<close>

theorem open_returns:
  assumes "hal_inv s" "reg_wf s" "cstr file" "opens_return s file flags mode"
  shows "\<exists>r s'. ALT_OPEN file flags mode s = Inr (r, s') \<and> (r = -1 \<or> 2 < r)"
proof -
  from ALT_OPEN_returns [OF assms] obtain r s' where o: "ALT_OPEN file flags mode s = Inr (r, s')" by blast
  from ALT_OPEN_outcome [OF assms(1) o] o show ?thesis by (auto simp: open_outcome_def)
qed

lemma hal0_wf: "reg_wf hal0" "opens_return hal0 file flags mode"
proof -
  have "named hal0 [3, 2]" "named hal0 []" by (simp_all add: named_def hal0_def nul_def)
  then show "reg_wf hal0" using hal0_lists by (auto simp: reg_wf_def) (auto simp: hal0_def)
  show "opens_return hal0 file flags mode" by (simp add: opens_return_def hal0_def alt_dev_null_def)
qed

theorem open_returns_witness:
  "\<exists>r s'. ALT_OPEN ''/none'' O_RDWR 0 hal0 = Inr (r, s') \<and> (r = -1 \<or> 2 < r)"
  using open_returns [OF hal0_inv hal0_wf(1) _ hal0_wf(2), of "''/none''"] by (simp add: nul_def)

lemma alt_open_fd_returns:
  assumes "hal_inv s" "reg_wf s" "cstr name" "opens_return s name flags mode"
  shows "\<exists>s'. alt_open_fd fd name flags mode s = Inr s'"
proof -
  from ALT_OPEN_returns [OF assms] obtain r s1 where o: "ALT_OPEN name flags mode s = Inr (r, s1)" by blast
  from ALT_OPEN_outcome [OF assms(1) o] have "r < int ALT_MAX_FD"
    by (auto simp: open_outcome_def first_free_def)
  with o alt_release_fd_returns show ?thesis by (auto simp: alt_open_fd_def Let_def)
qed

theorem io_redirect_streams_witness:
  "\<exists>s'. alt_io_redirect ''/dev/u'' ''/dev/u'' ''/none'' hal0 = Inr s' \<and> (\<forall>i > 2. owner s' i = owner hal0 i)"
proof -
  have step: "\<exists>s'. alt_open_fd fd n fl m s = Inr s' \<and> hal_inv s' \<and> same_reg hal0 s'"
    if "hal_inv s" "same_reg hal0 s" "fd \<le> 2" "cstr n" for s fd n fl m
  proof -
    have "opens_return s n fl m" "reg_wf s"
      using that(2) hal0_wf reg_wf_same_reg [OF that(2)] by (auto simp: opens_return_def same_reg_def)
    from alt_open_fd_returns [OF that(1) this(2) that(4) this(1), of fd] obtain s'
      where o: "alt_open_fd fd n fl m s = Inr s'" by blast
    from alt_open_fd_outcome [OF that(1,3) o] o that(2) show ?thesis by (auto simp: same_reg_def)
  qed
  have u: "cstr ''/dev/u''" "cstr ''/none''" by (simp_all add: nul_def)
  obtain s1 where 1: "alt_open_fd 1 ''/dev/u'' O_WRONLY 0x1FF hal0 = Inr s1" "hal_inv s1" "same_reg hal0 s1"
    using step [OF hal0_inv _ _ u(1), of 1] by (auto simp: same_reg_def)
  obtain s2 where 2: "alt_open_fd 0 ''/dev/u'' O_RDONLY 0x1FF s1 = Inr s2" "hal_inv s2" "same_reg hal0 s2"
    using step [OF 1(2,3) _ u(1), of 0] by auto
  obtain s3 where 3: "alt_open_fd 2 ''/none'' O_WRONLY 0x1FF s2 = Inr s3"
    using step [OF 2(2,3) _ u(2), of 2] by auto
  have "alt_io_redirect ''/dev/u'' ''/dev/u'' ''/none'' hal0 = Inr s3"
    using 1(1) 2(1) 3 by (simp add: alt_io_redirect_def)
  from io_redirect_streams [OF hal0_inv this] this show ?thesis by blast
qed

end
