(* ===== verification/JtagDev.thy ===== *)
theory JtagDev
  imports JtagUart Posix
begin

text \<open>
  The JTAG UART as a device of the POSIX layer (\<^verbatim>\<open>altera_avalon_jtag_uart_fd.c\<close>,
  \<^verbatim>\<open>altera_avalon_jtag_uart_fd.h\<close>): the callbacks of the device structure, which take the mode of the
  call from the flags of the descriptor, the device structures of both drivers, and their
  initialisation.  The properties are those of the polled driver, and what \<^verbatim>\<open>write\<close> and \<^verbatim>\<open>read\<close> on a
  descriptor of the interrupt-driven driver do to its queues.
\<close>

section \<open>The device callbacks\<close>

text \<open>
  Beside the state of the driver, the drivers' world has what is still to happen asynchronously and
  the \<^verbatim>\<open>int\<close>s in memory that \<^verbatim>\<open>ioctl\<close> is pointed at.
\<close>

record 'h uart_world =
  uw_events :: "'h events"
  uw_uart :: "'h uart"
  uw_mem :: "addr \<Rightarrow> int"

definition uart_read_fd :: "'h regs \<Rightarrow> int \<Rightarrow> (int \<times> u8 list, 'h uart_world) dev_op" where
  "uart_read_fd regs space fd w =
     andThen (uart_read regs space (fd_flags fd) (uw_events w) (uw_uart w)) (\<lambda>(r, es, s).
       Inr (r, fd, w\<lparr>uw_events := es, uw_uart := s\<rparr>))"

definition uart_write_fd :: "'h regs \<Rightarrow> u8 list \<Rightarrow> (int, 'h uart_world) dev_op" where
  "uart_write_fd regs buffer fd w =
     andThen (uart_write regs buffer (fd_flags fd) (uw_events w) (uw_uart w)) (\<lambda>(r, es, s).
       Inr (r, fd, w\<lparr>uw_events := es, uw_uart := s\<rparr>))"

definition uart_close_fd :: "(int, 'h uart_world) dev_op" where
  "uart_close_fd fd w =
     andThen (uart_close (fd_flags fd) (uw_events w) (uw_uart w)) (\<lambda>(r, es, s).
       Inr (r, fd, w\<lparr>uw_events := es, uw_uart := s\<rparr>))"

definition uart_ioctl_fd :: "int \<Rightarrow> addr \<Rightarrow> (int, 'h uart_world) dev_op" where
  "uart_ioctl_fd req arg fd w =
     (let ((r, v), s) = uart_ioctl req (uw_mem w arg) (uw_uart w)
      in Inr (r, fd, w\<lparr>uw_uart := s, uw_mem := (uw_mem w)(arg := v)\<rparr>))"

text \<open>\<^verbatim>\<open>ALTERA_AVALON_JTAG_UART_DEV_INSTANCE\<close> of the two drivers.\<close>

definition uart_dev :: "'h regs \<Rightarrow> 'h uart_world alt_dev" where
  "uart_dev regs = \<lparr>dev_open = None, dev_close = Some uart_close_fd, dev_read = Some (uart_read_fd regs),
     dev_write = Some (uart_write_fd regs), dev_lseek = None, dev_fstat = None,
     dev_ioctl = Some uart_ioctl_fd\<rparr>"

definition small_dev :: "'h regs \<Rightarrow> 'h alt_dev" where
  "small_dev regs = \<lparr>dev_open = None, dev_close = None,
     dev_read = Some (\<lambda>space fd h. returned (map_option (\<lambda>(r, h1). Inr (r, fd, h1))
                                    (uart_small_read regs space (fd_flags fd) h))),
     dev_write = Some (\<lambda>ptr fd h. returned (map_option (\<lambda>(r, h1). Inr (r, fd, h1))
                                    (uart_small_write regs ptr (fd_flags fd) h))),
     dev_lseek = None, dev_fstat = None, dev_ioctl = None\<rparr>"

text \<open>
  \<^verbatim>\<open>ALTERA_AVALON_JTAG_UART_DEV_INIT\<close>: with the fast driver the state is initialised, by way of
  \<^verbatim>\<open>ALTERA_AVALON_JTAG_UART_STATE_INIT\<close>, and the device registered; a UART whose interrupt is not
  connected does not link.
\<close>

abbreviation (input) ALT_IRQ_NOT_CONNECTED :: int where "ALT_IRQ_NOT_CONNECTED \<equiv> -1"

definition uart_dev_init ::
    "int \<Rightarrow> 'h regs \<Rightarrow> ('i \<Rightarrow> 'i) \<Rightarrow> addr \<Rightarrow> 'cb \<Rightarrow> addr \<Rightarrow> addr \<Rightarrow> 'h uart \<Rightarrow> 'i \<Rightarrow> ('cb, 'v) clock
     \<Rightarrow> 'w hal \<Rightarrow> stuck + ('h uart \<times> 'i \<times> ('cb, 'v) clock \<times> 'w hal)" where
  "uart_dev_init irq regs isr_register alarm callback sp dev s ic ck hal =
     (if irq = ALT_IRQ_NOT_CONNECTED then Inl LinkError
      else
        let (s1, ic1, ck1) = uart_init regs isr_register alarm callback sp s ic ck
        in Inr (s1, ic1, ck1, snd (alt_dev_reg (alt_dev_list hal) dev hal)))"

definition small_dev_init :: "addr \<Rightarrow> 'w hal \<Rightarrow> 'w hal" where
  "small_dev_init dev hal = snd (alt_dev_reg (alt_dev_list hal) dev hal)"

text \<open>Both devices keep to the contract of a driver.\<close>

lemma uart_dev_ok: "driver_ok (uart_dev regs)"
  by (auto simp: driver_ok_def keeps_dev_def uart_dev_def uart_read_fd_def uart_write_fd_def uart_close_fd_def
      uart_ioctl_fd_def andThen_Inr_iff split: prod.splits)

lemma returned_Inr: "returned m = Inr r \<longleftrightarrow> m = Some (Inr r)"
  by (cases m) auto

lemma small_dev_ok: "driver_ok (small_dev regs)"
  by (auto simp: driver_ok_def keeps_dev_def small_dev_def returned_Inr)

section \<open>The polled driver\<close>

lemma logged_access:
  "iord_data regs h = (v, h1) \<Longrightarrow> iord_data (logged regs) (h, l) = (v, h1, l @ [RdData v])"
  "iord_control regs h = (v, h1) \<Longrightarrow> iord_control (logged regs) (h, l) = (v, h1, l @ [RdControl v])"
  "iowr_data (logged regs) v (h, l) = (iowr_data regs v h, l @ [WrData v])"
  by (simp_all add: logged_def)

text \<open>A poll of a register that is repeated until its value has a bit set.\<close>

fun polls :: "('h \<Rightarrow> u32 \<times> 'h) \<Rightarrow> u32 \<Rightarrow> nat \<Rightarrow> 'h \<Rightarrow> bool" where
  "polls rd msk 0 h \<longleftrightarrow> fst (rd h) AND msk \<noteq> 0"
| "polls rd msk (Suc k) h \<longleftrightarrow> fst (rd h) AND msk \<noteq> 0 \<or> polls rd msk k (snd (rd h))"

lemma polls_now: "fst (rd h) AND msk \<noteq> 0 \<Longrightarrow> polls rd msk k h"
  by (cases k) auto

text \<open>Every byte is written right after a poll that found room for it.\<close>

fun room_polled :: "uart_access list \<Rightarrow> bool" where
  "room_polled [] = True"
| "room_polled (RdControl c # WrData v # l) \<longleftrightarrow> c AND CONTROL_WSPACE_MSK \<noteq> 0 \<and> room_polled l"
| "room_polled (WrData v # l) = False"
| "room_polled (_ # l) = room_polled l"

lemma room_polled_retry: "room_polled l \<Longrightarrow> room_polled (RdControl c # l)"
  by (cases "(RdControl c # l)" rule: room_polled.cases) auto

lemma room_polled_append: "room_polled l \<Longrightarrow> room_polled m \<Longrightarrow> room_polled (l @ m)"
  by (induction l rule: room_polled.induct) (auto simp: room_polled_retry)

lemma small_write_loop_total:
  assumes "\<And>h. \<exists>k. polls (iord_control regs) CONTROL_WSPACE_MSK k h"
  shows "\<exists>h' m. small_write_loop (logged regs) ptr (h, l) = Some (h', l @ m) \<and> sent m = ptr \<and> received m = [] \<and>
                room_polled m"
proof (induction ptr arbitrary: h l)
  case Nil
  show ?case by (subst small_write_loop.simps) simp
next
  case (Cons c cs)
  let ?P = "\<lambda>h l. \<exists>h' m. small_write_loop (logged regs) (c # cs) (h, l) = Some (h', l @ m) \<and> sent m = c # cs \<and>
                       received m = [] \<and> room_polled m"
  have now: "?P h l" if "fst (iord_control regs h) AND CONTROL_WSPACE_MSK \<noteq> 0" for h l
  proof -
    obtain v h1 where v: "iord_control regs h = (v, h1)" by fastforce
    let ?a = "[RdControl v, WrData (ucast c)]"
    from Cons [of "iowr_data regs (ucast c) h1" "l @ ?a"] obtain h' m
      where m: "small_write_loop (logged regs) cs (iowr_data regs (ucast c) h1, l @ ?a) = Some (h', l @ ?a @ m)"
        "sent m = cs" "received m = []" "room_polled m" by auto
    from m(1) that v have "small_write_loop (logged regs) (c # cs) (h, l) = Some (h', l @ ?a @ m)"
      by (subst small_write_loop.simps) (simp add: logged_access)
    with m(2-4) that v show ?thesis by (intro exI [of _ h'] exI [of _ "?a @ m"]) (simp add: ucast_u8_u32)
  qed
  have "polls (iord_control regs) CONTROL_WSPACE_MSK k h \<Longrightarrow> ?P h l" for k
  proof (induction k arbitrary: h l)
    case 0
    then show ?case by (intro now) simp
  next
    case (Suc k)
    obtain v h1 where v: "iord_control regs h = (v, h1)" by fastforce
    show ?case
    proof (cases "v AND CONTROL_WSPACE_MSK = 0")
      case True
      with Suc.prems v have "polls (iord_control regs) CONTROL_WSPACE_MSK k h1" by simp
      from Suc.IH [OF this, of "l @ [RdControl v]"] obtain h' m
        where m: "small_write_loop (logged regs) (c # cs) (h1, l @ [RdControl v]) = Some (h', l @ [RdControl v] @ m)"
          "sent m = c # cs" "received m = []" "room_polled m" by auto
      from m(1) True v have "small_write_loop (logged regs) (c # cs) (h, l) = Some (h', l @ [RdControl v] @ m)"
        by (subst small_write_loop.simps) (simp add: logged_access)
      with m(2-4) room_polled_retry show ?thesis
        by (intro exI [of _ h'] exI [of _ "[RdControl v] @ m"]) simp
    next
      case False
      with v show ?thesis by (intro now) simp
    qed
  qed
  with assms show ?case by blast
qed

text \<open>The read loop returns what the device had, and stops only at the first empty poll or when full.\<close>

definition read_stop :: "int \<Rightarrow> u8 list \<Rightarrow> uart_access list \<Rightarrow> bool" where
  "read_stop space bytes m \<longleftrightarrow>
     space \<le> int (length bytes) \<or> (\<exists>l v. m = l @ [RdData v] \<and> v AND DATA_RVALID_MSK = 0)"

lemma read_stop_Cons: "read_stop space bytes m \<Longrightarrow> read_stop space bytes (a # m)"
  unfolding read_stop_def by (metis append_Cons)

text \<open>What a read that has \<open>acc\<close> already does from the state \<open>h\<close> of the device and its record \<open>l\<close> on.\<close>

definition read_ends :: "'h regs \<Rightarrow> int \<Rightarrow> u32 \<Rightarrow> u8 list \<Rightarrow> 'h \<Rightarrow> uart_access list \<Rightarrow> bool" where
  "read_ends regs space flags acc h l \<longleftrightarrow>
     (\<exists>h' m. small_read_loop (logged regs) space flags acc (h, l) = Some (acc @ received m, (h', l @ m)) \<and>
             sent m = [] \<and> length (acc @ received m) \<le> max (length acc) (nat space) \<and>
             read_stop space (acc @ received m) m \<and>
             (flags AND O_NONBLOCK = 0 \<and> 0 < space \<longrightarrow> acc @ received m \<noteq> []))"

text \<open>A poll with a byte, the last poll, and a poll without a byte before the first one.\<close>

lemma read_ends_valid:
  assumes "int (length acc) < space" "iord_data regs h = (v, h1)" "v AND DATA_RVALID_MSK \<noteq> 0"
    and "read_ends regs space flags (acc @ [data_byte v]) h1 (l @ [RdData v])"
  shows "read_ends regs space flags acc h l"
proof -
  let ?acc = "acc @ [data_byte v]"
  from assms(4) obtain h' m
    where m: "small_read_loop (logged regs) space flags ?acc (h1, l @ [RdData v]) =
          Some (?acc @ received m, (h', l @ [RdData v] @ m))"
      and m': "sent m = []" "length (?acc @ received m) \<le> max (length ?acc) (nat space)"
        "read_stop space (?acc @ received m) m" by (auto simp: read_ends_def)
  have "small_read_loop (logged regs) space flags acc (h, l) = Some (?acc @ received m, (h', l @ [RdData v] @ m))"
    using assms(1-3) by (subst small_read_loop.simps) (simp add: logged_access m [simplified])
  with m' assms(1-3) read_stop_Cons [OF m'(3)] show ?thesis
    unfolding read_ends_def by (intro exI [of _ h'] exI [of _ "[RdData v] @ m"]) auto
qed

lemma read_ends_stop:
  assumes "int (length acc) < space" "iord_data regs h = (v, h1)" "v AND DATA_RVALID_MSK = 0"
    and "acc \<noteq> [] \<or> flags AND O_NONBLOCK \<noteq> 0"
  shows "read_ends regs space flags acc h l"
proof -
  have "small_read_loop (logged regs) space flags acc (h, l) = Some (acc, (h1, l @ [RdData v]))"
    using assms by (subst small_read_loop.simps) (simp add: logged_access)
  with assms show ?thesis
    unfolding read_ends_def by (intro exI [of _ h1] exI [of _ "[RdData v]"]) (auto simp: read_stop_def)
qed

lemma read_ends_wait:
  assumes "0 < space" "iord_data regs h = (v, h1)" "v AND DATA_RVALID_MSK = 0" "flags AND O_NONBLOCK = 0"
    and "read_ends regs space flags [] h1 (l @ [RdData v])"
  shows "read_ends regs space flags [] h l"
proof -
  from assms(5) obtain h' m
    where m: "small_read_loop (logged regs) space flags [] (h1, l @ [RdData v]) =
          Some (received m, (h', l @ [RdData v] @ m))"
      and m': "sent m = []" "length (received m) \<le> max 0 (nat space)" "read_stop space (received m) m"
        "received m \<noteq> []"
    using assms(1,4) by (auto simp: read_ends_def)
  have "small_read_loop (logged regs) space flags [] (h, l) = Some (received m, (h', l @ [RdData v] @ m))"
    using assms(1-4) m by (subst small_read_loop.simps) (simp add: logged_access)
  with m' assms(3) read_stop_Cons [OF m'(3)] show ?thesis
    unfolding read_ends_def by (intro exI [of _ h'] exI [of _ "[RdData v] @ m"]) auto
qed

lemma small_read_loop_total:
  assumes "flags AND O_NONBLOCK \<noteq> 0 \<or> (\<forall>h. \<exists>k. polls (iord_data regs) DATA_RVALID_MSK k h)"
  shows "read_ends regs space flags acc h l"
proof (induction "nat space - length acc" arbitrary: acc h l rule: less_induct)
  case (less acc h l)
  show ?case
  proof (cases "int (length acc) < space")
    case False
    then show ?thesis unfolding read_ends_def
      by (intro exI [of _ h] exI [of _ "[]"], subst small_read_loop.simps) (auto simp: read_stop_def)
  next
    case space: True
    have valid: "read_ends regs space flags acc h l"
      if "iord_data regs h = (v, h1)" "v AND DATA_RVALID_MSK \<noteq> 0" for h l v h1
      using space by (intro read_ends_valid [OF space that] less) simp
    have wait: "polls (iord_data regs) DATA_RVALID_MSK k h \<Longrightarrow> acc = [] \<Longrightarrow> flags AND O_NONBLOCK = 0 \<Longrightarrow>
        read_ends regs space flags acc h l" for k
    proof (induction k arbitrary: h l)
      case 0
      obtain v h1 where v: "iord_data regs h = (v, h1)" by fastforce
      with 0 valid [OF v] show ?case by simp
    next
      case (Suc k)
      obtain v h1 where v: "iord_data regs h = (v, h1)" by fastforce
      with Suc space valid [OF v] read_ends_wait [OF _ v] show ?case by (cases "v AND DATA_RVALID_MSK = 0") auto
    qed
    obtain v h1 where v: "iord_data regs h = (v, h1)" by fastforce
    show ?thesis
    proof (cases "v AND DATA_RVALID_MSK = 0 \<and> acc = [] \<and> flags AND O_NONBLOCK = 0")
      case True
      with assms obtain k where "polls (iord_data regs) DATA_RVALID_MSK k h" by auto
      from wait [OF this] True show ?thesis by simp
    next
      case False
      then show ?thesis using valid [OF v] read_ends_stop [OF space v] by auto
    qed
  qed
qed

text \<open>The polled driver's write, on a device that a poll eventually finds with room, returns with all
  the bytes written to the device, in order and nothing else, each right after a poll that found
  room.\<close>

lemma small_write_all:
  assumes "\<forall>h. \<exists>k. polls (iord_control regs) CONTROL_WSPACE_MSK k h"
  shows "\<exists>h' m. uart_small_write (logged regs) ptr flags (h, l) = Some (int (length ptr), (h', l @ m)) \<and>
                sent m = ptr \<and> received m = [] \<and> room_polled m"
  using small_write_loop_total [of regs ptr h l] assms by (auto simp: uart_small_write_def)

text \<open>The polled driver's read, in non-blocking mode or on a device that a poll eventually finds with
  data, returns exactly the bytes it took from the device, in order and at most as many as there is
  space for; it stops only when full or at a poll that finds no data, and returns an error exactly
  when it has no byte, which a blocking read with space never does.\<close>

lemma small_read_stream:
  assumes "flags AND O_NONBLOCK \<noteq> 0 \<or> (\<forall>h. \<exists>k. polls (iord_data regs) DATA_RVALID_MSK k h)"
  shows "\<exists>r bytes h' m. uart_small_read (logged regs) space flags (h, l) = Some ((r, bytes), (h', l @ m)) \<and>
           received m = bytes \<and> sent m = [] \<and> length bytes \<le> nat space \<and> read_stop space bytes m \<and>
           r = (if bytes \<noteq> [] then int (length bytes)
                else if flags AND O_NONBLOCK \<noteq> 0 then - EWOULDBLOCK else - EIO) \<and>
           (flags AND O_NONBLOCK = 0 \<and> 0 < space \<longrightarrow> bytes \<noteq> [])"
proof -
  from small_read_loop_total [OF assms, of space "[]" h l] obtain h' m
    where m: "small_read_loop (logged regs) space flags [] (h, l) = Some (received m, (h', l @ m))"
      "sent m = []" "length (received m) \<le> nat space" "read_stop space (received m) m"
      "flags AND O_NONBLOCK = 0 \<and> 0 < space \<longrightarrow> received m \<noteq> []" by (auto simp: read_ends_def)
  then show ?thesis
    by (intro exI [of _ "received m"] exI [of _ h'] exI [of _ m] exI) (simp add: uart_small_read_def)
qed

section \<open>The interrupt-driven driver behind a descriptor\<close>

lemma fd_device_uart:
  assumes "owner s fd \<noteq> 0" "hal_devs s (owner s fd) = d" "fd < ALT_MAX_FD"
  shows "fd_device fd s = Inr d"
  using assms by (simp add: fd_device_def owner_def)

lemma fd_slot_nat: "fd < ALT_MAX_FD \<Longrightarrow> fd_slot (int fd) bad k = k fd"
  by (simp add: fd_slot_def)

lemma ALT_WRITE_uart:
  assumes "fd < ALT_MAX_FD" "owner s fd \<noteq> 0" "hal_devs s (owner s fd) = uart_dev regs"
    and "fd_flags (alt_fd_list s ! fd) AND O_ACCMODE \<noteq> O_RDONLY"
  shows "ALT_WRITE (int fd) ptr s = andThen (dev_call fd (uart_write_fd regs ptr) s) (\<lambda>(rval, s1).
           if rval < 0 then Inr (-1, s1\<lparr>rg_errno := - rval\<rparr>) else Inr (rval, s1))"
  using assms(4) fd_device_uart [OF assms(2,3,1)] by (simp add: ALT_WRITE_def fd_slot_nat [OF assms(1)] uart_dev_def)

lemma ALT_READ_uart:
  assumes "fd < ALT_MAX_FD" "owner s fd \<noteq> 0" "hal_devs s (owner s fd) = uart_dev regs"
    and "fd_flags (alt_fd_list s ! fd) AND O_ACCMODE \<noteq> O_WRONLY"
  shows "ALT_READ (int fd) len s = andThen (dev_call fd (uart_read_fd regs len) s) (\<lambda>((rval, bytes), s1).
           if rval < 0 then Inr ((-1, bytes), s1\<lparr>rg_errno := - rval\<rparr>) else Inr ((rval, bytes), s1))"
  using assms(4) fd_device_uart [OF assms(2,3,1)] by (simp add: ALT_READ_def fd_slot_nat [OF assms(1)] uart_dev_def)

text \<open>Writing to a descriptor of the UART accepts a prefix of the caller's bytes, as long as the result
  says, and appends it to the transmit stream, whatever the handler and the timer do meanwhile; no byte is lost
  in either direction and no descriptor changes hands.  A write that accepts nothing returns -1 and sets errno by the mode of the
  descriptor.  The call returns in non-blocking mode, and when the bytes fit into the buffer, and then
  accepts them all; otherwise it can only wait.\<close>

lemma uart_fd_write:
  assumes "fd < ALT_MAX_FD" and "hal_inv s" and "owner s fd \<noteq> 0"
    and "hal_devs s (owner s fd) = uart_dev regs"
    and "fd_flags (alt_fd_list s ! fd) AND O_ACCMODE \<noteq> O_RDONLY"
    and "rings_ok (uw_uart (hal_world s))" and "async_events tr (uw_events (hal_world s))" and "control_quiet tr regs"
    and "fits \<longleftrightarrow> length (ring_queue (ju_tx (uw_uart (hal_world s)))) + length ptr < BUF_LEN"
    and "nonblock \<longleftrightarrow> fd_flags (alt_fd_list s ! fd) AND O_NONBLOCK \<noteq> 0"
  shows "case ALT_WRITE (int fd) ptr s of
           Inl e \<Rightarrow> e = Spins \<and> \<not> nonblock \<and> \<not> fits
         | Inr (r, s') \<Rightarrow> same_fds s s' \<and> alt_fd_list s' = alt_fd_list s \<and>
             async_events tr (uw_events (hal_world s')) \<and>
             (\<exists>n. n \<le> length ptr \<and> (fits \<longrightarrow> n = length ptr) \<and>
               flow tr (uw_uart (hal_world s)) (uw_uart (hal_world s')) [] (take n ptr) \<and>
               (if 0 < n then r = int n
                else r = -1 \<and> rg_errno s' = (if nonblock then EWOULDBLOCK else EIO)))"
proof -
  let ?u = "uw_uart (hal_world s)" and ?es = "uw_events (hal_world s)" and ?fl = "fd_flags (alt_fd_list s ! fd)"
  note W = ALT_WRITE_uart [OF assms(1,3-5)] andThen_Inr_iff dev_call_def uart_write_fd_def
  show ?thesis
  proof (cases "uart_write regs ptr ?fl ?es ?u")
    case (Inl e)
    with uart_write_returns [of ?fl ?u ptr tr ?es regs] assms(6-10) have "\<not> nonblock" "\<not> fits" by auto
    with uart_write_stuck [OF Inl] Inl show ?thesis by (simp add: W)
  next
    case (Inr res)
    then obtain r1 es u where w: "uart_write regs ptr ?fl ?es ?u = Inr (r1, es, u)" by (cases res) auto
    from uart_write_stream [OF assms(6,7,8) w] obtain n where n: "n \<le> length ptr"
      and q: "flow tr ?u u [] (take n ptr)" "async_events tr es"
      and r1: "r1 = (if 0 < n then int n else if ?fl AND O_NONBLOCK \<noteq> 0 then - EWOULDBLOCK else - EIO)"
      by blast
    have f: "fits \<longrightarrow> n = length ptr"
      using uart_write_returns [of ?fl ?u ptr tr ?es regs] assms(6,7,9) w r1 n by (cases "ptr = []") (auto split: if_splits)
    obtain s1 where c: "dev_call fd (uart_write_fd regs ptr) s = Inr (r1, s1)"
      and u: "uw_uart (hal_world s1) = u" "uw_events (hal_world s1) = es" "alt_fd_list s1 = alt_fd_list s"
      using w by (simp add: W set_fd_def)
    have "keeps_dev (uart_write_fd regs ptr)"
      by (rule driver_okD(4) [OF uart_dev_ok]) (simp add: uart_dev_def)
    with dev_call_same [OF c assms(2,1)] have "same_fds s s1" by blast
    with n q r1 f u c assms(10) show ?thesis
      by (auto simp: W(1) intro!: exI [of _ n])
  qed
qed

text \<open>Reading from a descriptor of the UART returns the next bytes of the received stream, at most as
  many as were asked for; nothing that arrives before or during the call is lost, and no descriptor
  changes hands.  A read that finds nothing returns -1 and sets errno by the mode of the descriptor.
  The call returns in non-blocking mode, and when a byte has been received, and then it has one;
  otherwise it can only wait.\<close>

lemma uart_fd_read:
  assumes "fd < ALT_MAX_FD" and "hal_inv s" and "owner s fd \<noteq> 0"
    and "hal_devs s (owner s fd) = uart_dev regs"
    and "fd_flags (alt_fd_list s ! fd) AND O_ACCMODE \<noteq> O_WRONLY"
    and "rings_ok (uw_uart (hal_world s))" and "async_events tr (uw_events (hal_world s))" and "control_quiet tr regs"
    and "ready \<longleftrightarrow> ring_queue (ju_rx (uw_uart (hal_world s))) \<noteq> []"
    and "nonblock \<longleftrightarrow> fd_flags (alt_fd_list s ! fd) AND O_NONBLOCK \<noteq> 0"
  shows "case ALT_READ (int fd) len s of
           Inl e \<Rightarrow> e = Spins \<and> \<not> nonblock \<and> \<not> ready \<and> 0 < len
         | Inr ((r, bytes), s') \<Rightarrow> same_fds s s' \<and> alt_fd_list s' = alt_fd_list s \<and> (ready \<and> 0 < len \<longrightarrow> bytes \<noteq> []) \<and>
             flow tr (uw_uart (hal_world s)) (uw_uart (hal_world s')) bytes [] \<and>
             async_events tr (uw_events (hal_world s')) \<and>
             (if bytes \<noteq> [] then r = int (length bytes) \<and> r \<le> len
              else r = -1 \<and> rg_errno s' = (if nonblock then EWOULDBLOCK else EIO))"
proof -
  let ?u = "uw_uart (hal_world s)" and ?es = "uw_events (hal_world s)" and ?fl = "fd_flags (alt_fd_list s ! fd)"
  note R = ALT_READ_uart [OF assms(1,3-5)] andThen_Inr_iff dev_call_def uart_read_fd_def
  show ?thesis
  proof (cases "uart_read regs len ?fl ?es ?u")
    case (Inl e)
    with uart_read_returns [of ?fl len ?u tr ?es regs] assms(6-10) have "\<not> nonblock" "\<not> ready" "0 < len" by fastforce+
    with uart_read_stuck [OF Inl] Inl show ?thesis by (simp add: R)
  next
    case (Inr res)
    then obtain r1 bytes es u where w: "uart_read regs len ?fl ?es ?u = Inr ((r1, bytes), es, u)" by (cases res) auto
    have f: "ready \<and> 0 < len \<longrightarrow> bytes \<noteq> []"
      using uart_read_returns [of ?fl len ?u tr ?es regs] assms(6,7,9) w by auto
    obtain s1 where c: "dev_call fd (uart_read_fd regs len) s = Inr ((r1, bytes), s1)"
      and u: "uw_uart (hal_world s1) = u" "uw_events (hal_world s1) = es" "alt_fd_list s1 = alt_fd_list s"
      using w by (simp add: R set_fd_def)
    have "keeps_dev (uart_read_fd regs len)"
      by (rule driver_okD(3) [OF uart_dev_ok]) (simp add: uart_dev_def)
    with dev_call_same [OF c assms(2,1)] have "same_fds s s1" by blast
    with uart_read_stream [OF assms(6,7,8) w] f u c assms(10) show ?thesis
      by (cases "bytes = []") (auto simp: R(1))
  qed
qed

section \<open>Witnesses\<close>

lemma fifo_room: "polls (iord_control fifo_regs) CONTROL_WSPACE_MSK 0 h"
  by (cases h) (simp add: fifo_regs_def)

text \<open>A system whose standard streams are the UART, with a byte in its receive queue.\<close>

definition hal_uart :: "((u8 list \<times> u8 list) \<times> uart_access list) uart_world hal" where
  "hal_uart = \<lparr>rg_links = \<lparr>ll_next = \<lambda>_. 0, ll_prev = \<lambda>_. 0\<rparr>, rg_name = \<lambda>_. None, rg_errno = 0,
     alt_fd_list = (alt_fd_list_init 3)[1 := \<lparr>fd_dev = 3, fd_priv = 0, fd_flags = O_WRONLY\<rparr>], alt_max_fd = -1,
     hal_devs = \<lambda>_. uart_dev (logged fifo_regs), alt_dev_list = 10, alt_fs_list = 11,
     hal_world = \<lparr>uw_events = [timeout_event fifo_regs], uw_uart = uart2, uw_mem = \<lambda>_. 0\<rparr>\<rparr>"

lemma hal_uart_owner: "owner hal_uart i = (if i < 3 then 3 else 0)"
  by (cases "i = 1") (auto simp: owner_def hal_uart_def alt_fd_list_init_nth alt_dev_null_fd_def)

end
