(* ===== verification/Printf.thy ===== *)
theory Printf
  imports JtagDev
begin

text \<open>
  Formatted output without the C library: \<^verbatim>\<open>alt_printf\<close> (\<^verbatim>\<open>alt_printf.c\<close>) and the logging printer
  (\<^verbatim>\<open>alt_log_printf.c\<close>), a state machine over the format, with the echo of \<^verbatim>\<open>write\<close> and the heartbeat
  of the system clock.  A format is the list of its characters without the terminator; the variadic
  arguments are a list.  Both printers are functions from these to the characters put out.
\<close>

section \<open>Arguments\<close>

text \<open>
  Every integer argument of the formats is 32 bits wide.  Reading an argument that is not there, or
  not of the kind the format asks for, has no defined behaviour.
\<close>

datatype vararg = ArgWord u32 | ArgStr string

fun va_word :: "vararg list \<Rightarrow> (u32 \<Rightarrow> vararg list \<Rightarrow> stuck + 'a) \<Rightarrow> stuck + 'a" where
  "va_word (ArgWord v # args) k = k v args"
| "va_word _ k = Inl OutOfBounds"

fun va_string :: "vararg list \<Rightarrow> (string \<Rightarrow> vararg list \<Rightarrow> stuck + 'a) \<Rightarrow> stuck + 'a" where
  "va_string (ArgStr s # args) k = k s args"
| "va_string _ k = Inl OutOfBounds"

text \<open>Characters put out before the rest of the output.\<close>

definition emit :: "string \<Rightarrow> stuck + string \<Rightarrow> stuck + string" where
  "emit cs m = andThen m (\<lambda>out. Inr (cs @ out))"

lemma emit_Nil [simp]: "emit [] m = m"
  by (cases m) (auto simp: emit_def)

lemma emit_emit [simp]: "emit a (emit b m) = emit (a @ b) m"
  by (cases m) (auto simp: emit_def)

text \<open>The character a byte value is printed as.\<close>

definition out_char :: "u32 \<Rightarrow> char" where
  "out_char c = char_of (unat c)"

section \<open>The small printer\<close>

text \<open>
  The search for the first digit that is not zero, from digit \<open>k\<close> down (the shift is four times the
  digit's number), and the digits from \<open>k\<close> down.
\<close>

fun hex_first :: "u32 \<Rightarrow> nat \<Rightarrow> nat" where
  "hex_first v 0 = 0"
| "hex_first v (Suc k) = (if v AND push_bit (4 * Suc k) 0xF = 0 then hex_first v k else Suc k)"

definition hex_char :: "u32 \<Rightarrow> char" where
  "hex_char digit = out_char (if digit \<le> 9 then 48 + digit else 97 + digit - 10)"

fun hex_digits :: "u32 \<Rightarrow> nat \<Rightarrow> string" where
  "hex_digits v 0 = [hex_char (v AND 0xF)]"
| "hex_digits v (Suc k) =
     hex_char (drop_bit (4 * Suc k) (v AND push_bit (4 * Suc k) 0xF)) # hex_digits v k"

definition print_hex :: "u32 \<Rightarrow> string" where
  "print_hex v = (if v = 0 then ''0'' else hex_digits v (hex_first v 7))"

fun alt_printf :: "string \<Rightarrow> vararg list \<Rightarrow> stuck + string" where
  "alt_printf [] args = Inr []"
| "alt_printf (c # w) args =
     (if c \<noteq> CHR ''%'' then emit [c] (alt_printf w args)
      else case w of
          [] \<Rightarrow> Inr []
        | f # w1 \<Rightarrow>
            if f = CHR ''%'' then emit [f] (alt_printf w1 args)
            else if f = CHR ''c'' then va_word args (\<lambda>v args1. emit [out_char v] (alt_printf w1 args1))
            else if f = CHR ''x'' then va_word args (\<lambda>v args1. emit (print_hex v) (alt_printf w1 args1))
            else if f = CHR ''s'' then va_string args (\<lambda>s args1. emit s (alt_printf w1 args1))
            else alt_printf w1 args)"

section \<open>The logging printer\<close>

text \<open>The base is one of three, so that the loops that divide by it end.\<close>

datatype log_base = Base8 | Base10 | Base16

fun base_of :: "log_base \<Rightarrow> u32" where
  "base_of Base8 = 8"
| "base_of Base10 = 10"
| "base_of Base16 = 16"

datatype pfState = pfState_chars | pfState_firstFmtChar | pfState_otherFmtChar

record logfmt =
  fmtLeadingZero :: bool
  fmtLong :: bool
  fmtBeforeDecimal :: int
  fmtAfterDecimal :: int
  fmtBase :: log_base
  fmtSigned :: bool
  fmtCase :: bool

definition logfmt0 :: logfmt where
  "logfmt0 = \<lparr>fmtLeadingZero = False, fmtLong = False, fmtBeforeDecimal = -1, fmtAfterDecimal = -1,
     fmtBase = Base10, fmtSigned = True, fmtCase = False\<rparr>"

text \<open>Counting the digits, with the largest place value; the arguments are \<^verbatim>\<open>vShrink\<close>, \<^verbatim>\<open>p\<close> and the count.\<close>

lemma base_of_ge2: "2 \<le> unat (base_of b)"
  by (cases b) simp_all

lemma div_base_less: "v \<noteq> 0 \<Longrightarrow> unat (v div base_of b) < unat v"
  using base_of_ge2 [of b] by (simp add: unat_div word_unat_eq_iff)

function log_place :: "log_base \<Rightarrow> u32 \<Rightarrow> u32 \<Rightarrow> int \<Rightarrow> u32 \<times> int" where
  "log_place b vShrink p digitCount =
     (let v1 = vShrink div base_of b
      in if 0 < v1 then log_place b v1 (p * base_of b) (digitCount + 1) else (p, digitCount))"
  by pat_completeness auto
termination
  by (relation "measure (\<lambda>(_, v, _, _). unat v)") (auto intro: div_base_less)

definition log_digit :: "bool \<Rightarrow> u32 \<Rightarrow> char" where
  "log_digit upper q =
     (let d = (ucast q :: u8) + 48
      in char_of (unat (if 57 < d then d + (if upper then 65 else 97) - 48 - 10 else d)))"

function log_digits :: "log_base \<Rightarrow> bool \<Rightarrow> u32 \<Rightarrow> u32 \<Rightarrow> string" where
  "log_digits b upper p v =
     (if p \<noteq> 0 then log_digit upper (v div p) # log_digits b upper (p div base_of b) (v mod p) else [])"
  by pat_completeness auto
termination
  by (relation "measure (\<lambda>(_, _, p, _). unat p)") (auto intro: div_base_less)

declare log_place.simps [simp del] log_digits.simps [simp del]

definition alt_log_repchar :: "char \<Rightarrow> int \<Rightarrow> string" where
  "alt_log_repchar c r = replicate (nat r) c"

definition log_integer :: "logfmt \<Rightarrow> u32 \<Rightarrow> string" where
  "log_integer f v =
     (let sign = (fmtSigned f \<and> v AND 0x80000000 \<noteq> 0);
          v1 = (if sign then NOT v + 1 else v);
          (p, digitCount) = log_place (fmtBase f) v1 1 1;
          before = fmtBeforeDecimal f - digitCount - (if sign then 1 else 0);
          minus = (if sign then ''-'' else [])
      in (if fmtLeadingZero f then minus @ alt_log_repchar CHR ''0'' before
          else alt_log_repchar CHR '' '' before @ minus) @
         log_digits (fmtBase f) (fmtCase f) p v1)"

text \<open>
  The state machine.  A first format character that is neither a zero nor a percent sign is handled as
  a later one.
\<close>

function alt_log_private_printf :: "pfState \<Rightarrow> logfmt \<Rightarrow> string \<Rightarrow> vararg list \<Rightarrow> stuck + string" where
  "alt_log_private_printf st f [] args = Inr []"
| "alt_log_private_printf pfState_chars f (c # w) args =
     (if c = CHR ''%'' then alt_log_private_printf pfState_firstFmtChar logfmt0 w args
      else emit [c] (alt_log_private_printf pfState_chars f w args))"
| "alt_log_private_printf pfState_firstFmtChar f (c # w) args =
     (if c = CHR ''0'' then alt_log_private_printf pfState_otherFmtChar (f\<lparr>fmtLeadingZero := True\<rparr>) w args
      else if c = CHR ''%'' then emit [c] (alt_log_private_printf pfState_chars f w args)
      else alt_log_private_printf pfState_otherFmtChar f (c # w) args)"
| "alt_log_private_printf pfState_otherFmtChar f (c # w) args =
     (if c = CHR ''.'' then alt_log_private_printf pfState_otherFmtChar (f\<lparr>fmtAfterDecimal := 0\<rparr>) w args
      else if 48 \<le> (of_char c :: int) \<and> (of_char c :: int) \<le> 57 then
        let d = of_char c - 48
        in alt_log_private_printf pfState_otherFmtChar
             (if fmtAfterDecimal f < 0 then
                f\<lparr>fmtBeforeDecimal := (if fmtBeforeDecimal f < 0 then 0 else fmtBeforeDecimal f * 10) + d\<rparr>
              else f\<lparr>fmtAfterDecimal := fmtAfterDecimal f * 10 + d\<rparr>) w args
      else if c = CHR ''l'' then alt_log_private_printf pfState_otherFmtChar (f\<lparr>fmtLong := True\<rparr>) w args
      else if c = CHR ''d'' \<or> c = CHR ''i'' then
        va_word args (\<lambda>v args1. emit (log_integer f v) (alt_log_private_printf pfState_chars f w args1))
      else if c = CHR ''u'' then
        va_word args (\<lambda>v args1. emit (log_integer (f\<lparr>fmtSigned := False\<rparr>) v)
          (alt_log_private_printf pfState_chars f w args1))
      else if c = CHR ''o'' then
        va_word args (\<lambda>v args1. emit (log_integer (f\<lparr>fmtSigned := False, fmtBase := Base8\<rparr>) v)
          (alt_log_private_printf pfState_chars f w args1))
      else if c = CHR ''x'' then
        va_word args (\<lambda>v args1. emit (log_integer (f\<lparr>fmtSigned := False, fmtBase := Base16\<rparr>) v)
          (alt_log_private_printf pfState_chars f w args1))
      else if c = CHR ''X'' then
        va_word args (\<lambda>v args1. emit (log_integer (f\<lparr>fmtSigned := False, fmtBase := Base16, fmtCase := True\<rparr>) v)
          (alt_log_private_printf pfState_chars f w args1))
      else if c = CHR ''c'' then
        va_word args (\<lambda>v args1. emit (alt_log_repchar CHR '' '' (fmtBeforeDecimal f - 1) @ [out_char v])
          (alt_log_private_printf pfState_chars f w args1))
      else if c = CHR ''s'' then
        va_string args (\<lambda>s args1. emit (alt_log_repchar CHR '' '' (fmtBeforeDecimal f - int (length s)) @ s)
          (alt_log_private_printf pfState_chars f w args1))
      else alt_log_private_printf pfState_chars f w args)"
  by pat_completeness auto
termination
  by (relation "measure (\<lambda>(st, _, w, _). 2 * length w + (if st = pfState_firstFmtChar then 1 else 0))") auto

section \<open>Output of the log\<close>

text \<open>
  The log goes to the JTAG UART, one character after the other, each after a wait for room that may
  last for ever.  The output of a format is put out as a whole: a format that is stuck half way has
  put out the part before, which the model does not show.
\<close>

partial_function (option) alt_log_txchar :: "'h regs \<Rightarrow> char \<Rightarrow> 'h \<Rightarrow> 'h option" where
  "alt_log_txchar regs c h =
     (let (control, h1) = iord_control regs h
      in if control AND CONTROL_WSPACE_MSK = 0 then alt_log_txchar regs c h1
         else Some (iowr_data regs (ucast (of_char c :: u8)) h1))"

fun alt_log_puts :: "'h regs \<Rightarrow> string \<Rightarrow> 'h \<Rightarrow> 'h option" where
  "alt_log_puts regs [] h = Some h"
| "alt_log_puts regs (c # cs) h = Option.bind (alt_log_txchar regs c h) (alt_log_puts regs cs)"

definition alt_log_printf_proc :: "'h regs \<Rightarrow> string \<Rightarrow> vararg list \<Rightarrow> 'h \<Rightarrow> stuck + (int \<times> 'h)" where
  "alt_log_printf_proc regs fmt args h =
     andThen (alt_log_private_printf pfState_chars logfmt0 fmt args) (\<lambda>out.
       returned (map_option (\<lambda>h1. Inr (0, h1)) (alt_log_puts regs out h)))"

section \<open>What is logged\<close>

text \<open>The control register of the UART, with the format of the small driver.\<close>

definition alt_log_jtag_uart_print_control_reg :: "'h regs \<Rightarrow> string \<Rightarrow> 'h \<Rightarrow> stuck + 'h" where
  "alt_log_jtag_uart_print_control_reg regs header h =
     (let (control, h1) = iord_control regs h;
          space = drop_bit 16 (control AND CONTROL_WSPACE_MSK);
          we = drop_bit 1 (control AND CONTROL_WE_MSK);
          re = control AND CONTROL_RE_MSK;
          ri = drop_bit 8 (control AND CONTROL_RI_MSK);
          wi = drop_bit 9 (control AND CONTROL_WI_MSK);
          ac = drop_bit 10 (control AND CONTROL_AC_MSK)
      in andThen (alt_log_printf_proc regs (''%s HW FIFO wspace=%d AC=%d WI=%d RI=%d WE=%d RE=%d'' @ [CHR 0x0D, CHR 0x0A])
            [ArgStr header, ArgWord space, ArgWord ac, ArgWord wi, ArgWord ri, ArgWord we, ArgWord re] h1)
           (\<lambda>(_, h2). Inr h2))"

text \<open>The callback of the alarm that logs the register; \<open>ticks\<close> is \<^verbatim>\<open>ALT_LOG_JTAG_UART_TICKS\<close>.\<close>

definition altera_avalon_jtag_uart_report_log ::
    "'h regs \<Rightarrow> bool \<Rightarrow> u32 \<Rightarrow> 'h \<Rightarrow> stuck + (u32 \<times> 'h)" where
  "altera_avalon_jtag_uart_report_log regs alarm_on ticks h =
     (if alarm_on then
        andThen (alt_log_jtag_uart_print_control_reg regs ''JTAG Alarm:'' h) (\<lambda>h1. Inr (ticks, h1))
      else Inr (0, h))"

definition alt_log_jtag_uart_startup_info :: "'h regs \<Rightarrow> 'h \<Rightarrow> stuck + 'h" where
  "alt_log_jtag_uart_startup_info regs h = alt_log_jtag_uart_print_control_reg regs ''JTAG Startup Info:'' h"

definition alt_log_jtag_uart_isr_proc :: "'h regs \<Rightarrow> bool \<Rightarrow> 'h \<Rightarrow> stuck + 'h" where
  "alt_log_jtag_uart_isr_proc regs isr_on h =
     (if isr_on then alt_log_jtag_uart_print_control_reg regs ''JTAG IRQ:'' h else Inr h)"

text \<open>
  The echo of what is written: \<open>buf\<close> is the static buffer of 17 characters; the result has its contents
  afterwards.  The string printed ends at the first null character in the buffer.
\<close>

abbreviation (input) ALT_LOG_WRITE_ECHO_LEN :: nat where "ALT_LOG_WRITE_ECHO_LEN \<equiv> 15"

definition echo_buf :: "string \<Rightarrow> string \<Rightarrow> string" where
  "echo_buf buf ptr =
     (let n = (if length ptr < ALT_LOG_WRITE_ECHO_LEN then length ptr else ALT_LOG_WRITE_ECHO_LEN);
          b1 = take n ptr @ drop n buf;
          b2 = b1[n - 1 := CHR 0x0A, n := CHR 0x0D, n + 1 := nul]
      in map (\<lambda>c. if c = CHR 0x04 then CHR ''D'' else c) (take n b2) @ drop n b2)"

definition alt_log_write :: "'h regs \<Rightarrow> bool \<Rightarrow> string \<Rightarrow> string \<Rightarrow> 'h \<Rightarrow> stuck + (string \<times> 'h)" where
  "alt_log_write regs write_on buf ptr h =
     (if write_on \<and> 2 \<le> length ptr then
        let b = echo_buf buf ptr
        in andThen (alt_log_printf_proc regs ''Write Echo: %s'' [ArgStr (takeWhile (\<lambda>c. c \<noteq> nul) b)] h)
             (\<lambda>(_, h1). Inr (b, h1))
      else Inr (buf, h))"

text \<open>The heartbeat: the counter and the number of seconds printed are the state.\<close>

definition alt_log_system_clock ::
    "'h regs \<Rightarrow> bool \<Rightarrow> int \<Rightarrow> (int \<times> u32) \<times> 'h \<Rightarrow> stuck + ((int \<times> u32) \<times> 'h)" where
  "alt_log_system_clock regs clk_on interval s =
     (case s of ((count, sec), h) \<Rightarrow>
        if clk_on then
          if interval < count + 1 then
            andThen (alt_log_printf_proc regs (''System Clock On %u'' @ [CHR 0x0D, CHR 0x0A]) [ArgWord sec] h)
              (\<lambda>(_, h1). Inr ((0, sec + 1), h1))
          else Inr ((count + 1, sec), h)
        else Inr s)"

section \<open>Numbers in a base\<close>

text \<open>The reference: the digits of a number, most significant first, without leading zeros.\<close>

fun digits_of :: "nat \<Rightarrow> nat \<Rightarrow> nat list" where
  "digits_of b n = (if n < b \<or> b < 2 then [n] else digits_of b (n div b) @ [n mod b])"

declare digits_of.simps [simp del]

definition digit_char :: "bool \<Rightarrow> nat \<Rightarrow> char" where
  "digit_char upper d = char_of (if d < 10 then 48 + d else (if upper then 65 else 97) + d - 10)"

definition numeral_of :: "nat \<Rightarrow> bool \<Rightarrow> nat \<Rightarrow> string" where
  "numeral_of b upper n = map (digit_char upper) (digits_of b n)"

text \<open>The value of the digits is the number, and the first digit is not zero.\<close>

definition digits_value :: "nat \<Rightarrow> nat list \<Rightarrow> nat" where
  "digits_value b ds = foldl (\<lambda>v d. v * b + d) 0 ds"

lemma digits_value: "digits_value b (digits_of b n) = n"
proof (induction b n rule: digits_of.induct)
  case (1 b n)
  then show ?case by (subst digits_of.simps) (auto simp: digits_value_def)
qed

lemma digits_of_less: "2 \<le> b \<Longrightarrow> d \<in> set (digits_of b n) \<Longrightarrow> d < b"
proof (induction b n rule: digits_of.induct)
  case (1 b n)
  have "digits_of b n = (if n < b \<or> b < 2 then [n] else digits_of b (n div b) @ [n mod b])"
    by (rule digits_of.simps)
  with 1 show ?case by (auto split: if_splits)
qed

text \<open>The digits as quotients by the powers of the base.\<close>

lemma digits_of_place:
  "2 \<le> b \<Longrightarrow> n < b ^ Suc m \<Longrightarrow> m = 0 \<or> b ^ m \<le> n \<Longrightarrow>
   digits_of b n = map (\<lambda>i. n div b ^ i mod b) (rev [0..<Suc m])"
proof (induction m arbitrary: n)
  case 0
  then show ?case by (subst digits_of.simps) simp
next
  case (Suc m)
  have le: "b ^ Suc m \<le> n" using Suc.prems(3) by simp
  have "b \<le> b ^ Suc m" using Suc.prems(1) by simp
  with le have nb: "\<not> n < b" by linarith
  have 1: "n div b < b ^ Suc m"
    using Suc.prems(2) by (intro less_mult_imp_div_less) (simp add: mult.commute)
  have 2: "m = 0 \<or> b ^ m \<le> n div b"
    using le Suc.prems(1) by (simp add: less_eq_div_iff_mult_less_eq mult.commute)
  have "digits_of b n = digits_of b (n div b) @ [n mod b]"
    using nb Suc.prems(1) by (subst digits_of.simps) simp
  also have "digits_of b (n div b) = map (\<lambda>i. n div b ^ i mod b) (rev [1..<Suc (Suc m)])"
    unfolding Suc.IH [OF Suc.prems(1) 1 2] rev_map [symmetric] map_Suc_upt [symmetric] One_nat_def
    by (simp add: div_mult2_eq rev_map del: upt_Suc)
  finally show ?case
    using upt_conv_Cons [of 0 "Suc (Suc m)"] by (simp del: upt_Suc)
qed

text \<open>The digits below a power do not depend on the part above it.\<close>

lemma digit_below:
  assumes "i < m" "0 < b"
  shows "(n mod b ^ m) div b ^ i mod b = n div b ^ i mod (b :: nat)"
proof -
  from assms(1) obtain k where m: "m = i + Suc k" using less_imp_Suc_add by fastforce
  have "n mod b ^ m = b ^ i * (n div b ^ i mod b ^ Suc k) + n mod b ^ i"
    unfolding m power_add by (rule mod_mult2_eq)
  then have "n mod b ^ m div b ^ i = n div b ^ i mod b ^ Suc k"
    using assms(2) by (simp add: div_mult_self3 del: power_Suc)
  then show ?thesis by (simp add: mod_mult2_eq)
qed

section \<open>The small printer prints the reference\<close>

lemma unat_AND_15: "unat (x AND 0xF :: u32) = unat x mod 16"
proof -
  have "x AND 0xF = take_bit 4 x" by (simp add: take_bit_eq_mask mask_eq_exp_minus_1)
  then show ?thesis by (simp add: take_bit_eq_mod unat_mod)
qed

lemma hex_place:
  assumes "k \<le> 7"
  shows "unat (drop_bit (4 * k) (v AND push_bit (4 * k) 0xF) :: u32) = unat v div 16 ^ k mod 16"
    and "v AND push_bit (4 * k) 0xF = 0 \<longleftrightarrow> unat v div 16 ^ k mod 16 = 0"
proof -
  have d: "drop_bit (4 * k) (v AND push_bit (4 * k) 0xF) = drop_bit (4 * k) v AND 0xF"
    using assms by (intro bit_word_eqI) (auto simp: bit_simps dest: bit_imp_le_length)
  have p: "(2 :: nat) ^ (4 * k) = 16 ^ k" by (simp add: power_mult)
  show 1: "unat (drop_bit (4 * k) (v AND push_bit (4 * k) 0xF)) = unat v div 16 ^ k mod 16"
    by (simp only: d unat_AND_15 unat_drop_bit_eq) (simp add: drop_bit_eq_div p)
  have "push_bit (4 * k) (drop_bit (4 * k) (v AND push_bit (4 * k) 0xF)) = v AND push_bit (4 * k) 0xF"
    by (rule bit_word_eqI) (auto simp: bit_simps dest: bit_imp_le_length)
  then have "v AND push_bit (4 * k) 0xF = 0 \<longleftrightarrow> drop_bit (4 * k) (v AND push_bit (4 * k) 0xF) = 0"
    by (metis push_bit_of_0 drop_bit_of_0)
  then show "v AND push_bit (4 * k) 0xF = 0 \<longleftrightarrow> unat v div 16 ^ k mod 16 = 0"
    using 1 by (metis unat_eq_zero)
qed

lemma hex_first_place:
  "k \<le> 7 \<Longrightarrow> unat v < 16 ^ Suc k \<Longrightarrow> v \<noteq> 0 \<Longrightarrow>
   hex_first v k \<le> k \<and> unat v < 16 ^ Suc (hex_first v k) \<and> 16 ^ hex_first v k \<le> unat v"
proof (induction k)
  case 0
  then show ?case by (simp add: unat_gt_0 Suc_le_eq)
next
  case (Suc k)
  let ?d = "unat v div 16 ^ Suc k"
  have "?d < 16" using Suc.prems(2) by (intro less_mult_imp_div_less) simp
  then have z: "v AND push_bit (4 * Suc k) 0xF = 0 \<longleftrightarrow> unat v < 16 ^ Suc k"
    using hex_place(2) [OF Suc.prems(1), of v] by (simp add: div_eq_0_iff del: power_Suc)
  show ?case
  proof (cases "unat v < 16 ^ Suc k")
    case True
    with z have "hex_first v (Suc k) = hex_first v k" by simp
    with Suc.IH True Suc.prems show ?thesis by simp
  next
    case False
    with z have "hex_first v (Suc k) = Suc k" by simp
    with False Suc.prems show ?thesis by simp
  qed
qed

lemma hex_char_digit:
  assumes "unat d < 16"
  shows "hex_char d = digit_char False (unat d)"
proof (cases "unat d < 10")
  case True
  then have "d \<le> 9" by (simp add: word_le_nat_alt)
  with True show ?thesis
    by (simp add: hex_char_def digit_char_def out_char_def unat_word_ariths)
next
  case False
  then have "\<not> d \<le> 9" by (simp add: word_le_nat_alt)
  moreover have "unat (97 + d - 10) = 87 + unat d"
  proof -
    have "97 + d - 10 = 87 + d" by simp
    then show ?thesis using assms by (simp add: unat_word_ariths)
  qed
  ultimately show ?thesis using False by (simp add: hex_char_def digit_char_def out_char_def)
qed

lemma hex_digits_place:
  "k \<le> 7 \<Longrightarrow> hex_digits v k = map (\<lambda>i. digit_char False (unat v div 16 ^ i mod 16)) (rev [0..<Suc k])"
proof (induction k)
  case 0
  then show ?case by (simp add: hex_char_digit unat_AND_15)
next
  case (Suc k)
  have "hex_char (drop_bit (4 * Suc k) (v AND push_bit (4 * Suc k) 0xF)) =
        digit_char False (unat v div 16 ^ Suc k mod 16)"
    using hex_char_digit hex_place(1) [OF Suc.prems, of v] by (simp del: power_Suc)
  with Suc show ?case by simp
qed

lemma print_hex_reference: "print_hex v = numeral_of 16 False (unat v)"
proof (cases "v = 0")
  case True
  then show ?thesis by (simp add: print_hex_def numeral_of_def digits_of.simps digit_char_def char_of_def bit_iff_odd)
next
  case False
  have "unat v < 16 ^ Suc 7" using unsigned_less [of v, where ?'a = nat] by simp
  from hex_first_place [OF _ this False] have h: "hex_first v 7 \<le> 7" "unat v < 16 ^ Suc (hex_first v 7)"
    "16 ^ hex_first v 7 \<le> unat v" by auto
  have "digits_of 16 (unat v) = map (\<lambda>i. unat v div 16 ^ i mod 16) (rev [0..<Suc (hex_first v 7)])"
    using h by (intro digits_of_place) auto
  with hex_digits_place [OF h(1), of v] False show ?thesis
    by (simp add: print_hex_def numeral_of_def comp_def rev_map del: upt_Suc)
qed

section \<open>The logging printer prints the reference\<close>

abbreviation (input) base_nat :: "log_base \<Rightarrow> nat" where "base_nat b \<equiv> unat (base_of b)"

lemma unat_power_le:
  "unat w ^ m < 2 ^ 32 \<Longrightarrow> unat (w ^ m :: u32) = unat w ^ m"
proof (induction m)
  case (Suc m)
  show ?case
  proof (cases "unat w = 0")
    case False
    then have "unat w ^ m \<le> unat w ^ Suc m" by simp
    with Suc have "unat (w ^ m) = unat w ^ m" by linarith
    with Suc.prems show ?thesis by (simp add: unat_word_ariths)
  qed (simp add: unat_word_ariths)
qed simp

lemma log_place_power:
  "\<exists>m. log_place b v p c = (p * base_of b ^ m, c + int m) \<and> unat v < base_nat b ^ Suc m \<and>
       (m = 0 \<or> base_nat b ^ m \<le> unat v)"
proof (induction b v p c rule: log_place.induct)
  case (1 b v p c)
  let ?v1 = "v div base_of b"
  show ?case
  proof (cases "0 < ?v1")
    case True
    from "1.IH" [OF refl True] obtain m where m: "log_place b ?v1 (p * base_of b) (c + 1) =
        (p * base_of b * base_of b ^ m, c + 1 + int m)"
      "unat ?v1 < base_nat b ^ Suc m" "m = 0 \<or> base_nat b ^ m \<le> unat ?v1" by blast
    have d: "unat ?v1 = unat v div base_nat b" by (rule unat_div)
    have b2: "2 \<le> base_nat b" by (rule base_of_ge2)
    have "1 \<le> unat ?v1" using True by (simp add: word_less_nat_alt)
    with m(3) have "base_nat b ^ m \<le> unat v div base_nat b" unfolding d by auto
    then have "base_nat b ^ Suc m \<le> unat v"
      using b2 by (simp add: less_eq_div_iff_mult_less_eq mult.commute)
    moreover have "unat v < base_nat b ^ Suc (Suc m)"
      using m(2) b2 unfolding d by (simp add: div_less_iff_less_mult mult.commute)
    ultimately show ?thesis using m(1) True
      by (intro exI [of _ "Suc m"], subst log_place.simps) (simp add: Let_def mult.assoc)
  next
    case False
    then have "unat v div base_nat b = 0" by (simp add: unat_div [symmetric] word_less_nat_alt)
    then have "unat v < base_nat b" using base_of_ge2 [of b] by (simp add: div_eq_0_iff)
    with False show ?thesis by (intro exI [of _ 0], subst log_place.simps) (simp add: Let_def)
  qed
qed

lemma log_digit_char:
  assumes "unat q < 16"
  shows "log_digit upper q = digit_char upper (unat q)"
proof -
  have u: "unat (ucast q :: u8) = unat q" using assms by (simp add: unsigned_ucast_eq take_bit_nat_eq_self)
  have "57 < (ucast q :: u8) + 48 \<longleftrightarrow> \<not> unat q < 10"
    using assms u by (auto simp: word_less_nat_alt unat_word_ariths)
  moreover have "unat ((ucast q :: u8) + 48) = 48 + unat q" using assms u by (simp add: unat_word_ariths)
  moreover have "unat ((ucast q :: u8) + 48 + (if upper then 65 else 97) - 48 - 10) = (if upper then 65 else 97) + unat q - 10"
    if "\<not> unat q < 10"
  proof -
    have "(ucast q :: u8) + 48 + (if upper then 65 else 97) - 48 - 10 = (if upper then 55 else 87) + ucast q" by simp
    then show ?thesis using assms u that by (simp add: unat_word_ariths)
  qed
  ultimately show ?thesis by (simp add: log_digit_def digit_char_def Let_def)
qed

lemma base_nat_le: "base_nat b \<le> 16"
  by (cases b) simp_all

lemma log_digits_place:
  "unat p = base_nat b ^ m \<Longrightarrow> unat v < base_nat b ^ Suc m \<Longrightarrow>
   log_digits b upper p v = map (\<lambda>i. digit_char upper (unat v div base_nat b ^ i mod base_nat b)) (rev [0..<Suc m])"
proof (induction m arbitrary: p v)
  case 0
  then have p: "p = 1" by (simp add: word_unat_eq_iff)
  have "unat v < 16" using 0(2) base_nat_le [of b] by simp
  then have d: "log_digit upper v = digit_char upper (unat v)" by (rule log_digit_char)
  have "1 div base_of b = 0" by (cases b) simp_all
  with p d 0(2) show ?case
    by (subst log_digits.simps, subst log_digits.simps) simp
next
  case (Suc m)
  let ?B = "base_nat b"
  have b2: "2 \<le> ?B" by (rule base_of_ge2)
  have nz: "p \<noteq> 0" using Suc.prems(1) b2 by (auto simp: word_unat_eq_iff)
  have q: "unat (v div p) = unat v div ?B ^ Suc m" by (simp only: unat_div Suc.prems(1))
  have lt: "unat v div ?B ^ Suc m < ?B" using Suc.prems(2) by (intro less_mult_imp_div_less) (simp add: mult.commute)
  then have "unat (v div p) < 16" unfolding q using base_nat_le [of b] by linarith
  then have d: "log_digit upper (v div p) = digit_char upper (unat v div ?B ^ Suc m mod ?B)"
    using log_digit_char [of "v div p" upper] q lt by simp
  have p1: "unat (p div base_of b) = ?B ^ m" using Suc.prems(1) b2 by (simp add: unat_div)
  have r: "unat (v mod p) = unat v mod ?B ^ Suc m" by (simp only: unat_mod Suc.prems(1))
  have "unat (v mod p) < ?B ^ Suc m" unfolding r using b2 by (intro mod_less_divisor) simp
  from Suc.IH [OF p1 this] have "log_digits b upper (p div base_of b) (v mod p) =
      map (\<lambda>i. digit_char upper (unat v div ?B ^ i mod ?B)) (rev [0..<Suc m])"
    unfolding r using b2 by (auto simp: digit_below simp del: power_Suc upt_Suc intro!: map_cong)
  then show ?case using nz d by (subst log_digits.simps) (simp del: power_Suc)
qed

lemma log_numeral:
  "\<exists>p. log_place b v 1 1 = (p, int (length (numeral_of (base_nat b) upper (unat v)))) \<and>
       log_digits b upper p v = numeral_of (base_nat b) upper (unat v)"
proof -
  from log_place_power [of b v 1 1] obtain m where m: "log_place b v 1 1 = (base_of b ^ m, 1 + int m)"
    "unat v < base_nat b ^ Suc m" "m = 0 \<or> base_nat b ^ m \<le> unat v" by auto
  have "base_nat b ^ m < 2 ^ 32" using m(3) unsigned_less [of v, where ?'a = nat] by (auto intro: le_less_trans)
  then have "unat (base_of b ^ m) = base_nat b ^ m" by (rule unat_power_le)
  from log_digits_place [OF this m(2), of upper] digits_of_place [OF base_of_ge2 m(2,3)] m(1)
  show ?thesis by (simp add: numeral_of_def comp_def rev_map del: upt_Suc)
qed

text \<open>A number padded on the left to a width, with the sign before zeros and after spaces.\<close>

definition padded :: "bool \<Rightarrow> int \<Rightarrow> bool \<Rightarrow> string \<Rightarrow> string" where
  "padded zero width neg ds =
     (let pad = nat (width - int (length ds) - (if neg then 1 else 0)); minus = (if neg then ''-'' else [])
      in if zero then minus @ replicate pad CHR ''0'' @ ds else replicate pad CHR '' '' @ minus @ ds)"

definition printed_value :: "bool \<Rightarrow> u32 \<Rightarrow> int" where
  "printed_value sgned v = (if sgned then sint v else uint v)"

lemma sign_bit: "(v :: u32) AND 0x80000000 \<noteq> 0 \<longleftrightarrow> sint v < 0"
proof -
  have "(0x80000000 :: u32) = 2 ^ 31" by simp
  then show ?thesis using and_exp_eq_0_iff_not_bit [of v 31] bit_last_iff [of v] by simp
qed

lemma magnitude:
  fixes v :: u32
  shows "sint v < 0 \<Longrightarrow> unat (NOT v + 1) = nat \<bar>sint v\<bar>" "\<not> sint v < 0 \<Longrightarrow> unat v = nat \<bar>sint v\<bar>"
proof -
  have "take_bit 32 (uint v) = uint v" by (rule take_bit_int_eq_self) (use unsigned_less [of v] in auto)
  then have s: "sint v = uint v - 2 ^ 32 * of_bool (bit v 31)"
    by (simp add: sint_uint signed_take_bit_eq_take_bit_minus bit_uint_iff)
  show "unat v = nat \<bar>sint v\<bar>" if "\<not> sint v < 0"
    using that bit_last_iff [of v] by (simp add: s)
  show "unat (NOT v + 1) = nat \<bar>sint v\<bar>" if "sint v < 0"
  proof -
    have b: "bit v 31" using that bit_last_iff [of v] by simp
    have nz: "v \<noteq> 0" using that by auto
    have "NOT v + 1 = - v" by (simp add: minus_eq_not_plus_1)
    moreover have "uint (- v) = 2 ^ 32 - uint v"
      using nz unsigned_less [of v, where ?'a = int]
      by (simp add: uint_word_ariths zmod_zminus1_eq_if word_uint_eq_iff)
    ultimately show ?thesis using b unsigned_less [of v, where ?'a = int]
      by (simp add: s unat_eq_nat_uint)
  qed
qed

lemma log_integer_reference:
  "log_integer f v = padded (fmtLeadingZero f) (fmtBeforeDecimal f) (printed_value (fmtSigned f) v < 0)
     (numeral_of (base_nat (fmtBase f)) (fmtCase f) (nat \<bar>printed_value (fmtSigned f) v\<bar>))"
proof -
  let ?sign = "fmtSigned f \<and> v AND 0x80000000 \<noteq> 0" let ?v = "if ?sign then NOT v + 1 else v"
  let ?ds = "numeral_of (base_nat (fmtBase f)) (fmtCase f) (unat ?v)"
  have sg: "?sign \<longleftrightarrow> printed_value (fmtSigned f) v < 0" by (auto simp: printed_value_def sign_bit)
  have mag: "unat ?v = nat \<bar>printed_value (fmtSigned f) v\<bar>"
    using magnitude [of v] by (auto simp: printed_value_def sign_bit)
  obtain p where p: "log_place (fmtBase f) ?v 1 1 = (p, int (length ?ds))" "log_digits (fmtBase f) (fmtCase f) p ?v = ?ds"
    using log_numeral by blast
  have "log_integer f v = padded (fmtLeadingZero f) (fmtBeforeDecimal f) ?sign ?ds"
    unfolding log_integer_def padded_def alt_log_repchar_def Let_def p(1) prod.case p(2) by simp
  with sg mag show ?thesis by simp
qed

section \<open>Properties\<close>

text \<open>
  The reference for the small printer: the format as a list of pieces, each printed by itself.  A letter
  that is not one of the four prints nothing and takes no argument.
\<close>

datatype piece = Literal char | Character | Hexadecimal | Text | Ignored

fun pieces :: "string \<Rightarrow> piece list" where
  "pieces [] = []"
| "pieces [c] = (if c = CHR ''%'' then [] else [Literal c])"
| "pieces (c # f # w) =
     (if c \<noteq> CHR ''%'' then Literal c # pieces (f # w)
      else (if f = CHR ''%'' then Literal f else if f = CHR ''c'' then Character
            else if f = CHR ''x'' then Hexadecimal else if f = CHR ''s'' then Text else Ignored) # pieces w)"

fun print_pieces :: "piece list \<Rightarrow> vararg list \<Rightarrow> stuck + string" where
  "print_pieces [] args = Inr []"
| "print_pieces (Literal c # ps) args = emit [c] (print_pieces ps args)"
| "print_pieces (Character # ps) args = va_word args (\<lambda>v rest. emit [char_of (unat v)] (print_pieces ps rest))"
| "print_pieces (Hexadecimal # ps) args =
     va_word args (\<lambda>v rest. emit (numeral_of 16 False (unat v)) (print_pieces ps rest))"
| "print_pieces (Text # ps) args = va_string args (\<lambda>s rest. emit s (print_pieces ps rest))"
| "print_pieces (Ignored # ps) args = print_pieces ps args"

text \<open>C27: The small printer is equivalent to the reference that cuts the format into pieces and prints
  hexadecimal numbers as the digits of repeated division by sixteen, without leading zeros.\<close>

theorem alt_printf_reference: "alt_printf fmt args = print_pieces (pieces fmt) args"
proof (induction fmt arbitrary: args rule: pieces.induct)
  case (3 c f w)
  then show ?case by (auto simp: print_hex_reference out_char_def)
qed auto

text \<open>Reading the width of a conversion.\<close>

lemma chars_fmt: "alt_log_private_printf pfState_chars f w args = alt_log_private_printf pfState_chars g w args"
proof (induction w arbitrary: args)
  case (Cons c w)
  show ?case using Cons by (cases "c = CHR ''%''") simp_all
qed simp

lemma digit_char_code: "d < 10 \<Longrightarrow> of_char (digit_char up d) = (48 + int d)"
  using of_nat_of_char [where ?'a = int, of "digit_char up d", symmetric] by (simp add: digit_char_def)

lemma digit_char_neq:
  "d < 10 \<Longrightarrow> of_char c < (48 :: int) \<or> (57 :: int) < of_char c \<Longrightarrow> digit_char up d \<noteq> c"
  using digit_char_code [of d up] by auto

lemma read_digit:
  assumes "d < 10" "fmtAfterDecimal f < 0"
  shows "alt_log_private_printf pfState_otherFmtChar f (digit_char False d # w) args =
         alt_log_private_printf pfState_otherFmtChar
           (f\<lparr>fmtBeforeDecimal := (if fmtBeforeDecimal f < 0 then 0 else fmtBeforeDecimal f * 10) + int d\<rparr>) w args"
  using assms digit_char_code [OF assms(1), of False] digit_char_neq [OF assms(1), of "CHR ''.''" False]
  by (simp add: Let_def)

lemma read_digits:
  "\<forall>d \<in> set ds. d < 10 \<Longrightarrow> fmtAfterDecimal f < 0 \<Longrightarrow>
   alt_log_private_printf pfState_otherFmtChar (f\<lparr>fmtBeforeDecimal := int n\<rparr>) (map (digit_char False) ds @ w) args =
   alt_log_private_printf pfState_otherFmtChar
     (f\<lparr>fmtBeforeDecimal := int (foldl (\<lambda>v d. v * 10 + d) n ds)\<rparr>) w args"
proof (induction ds arbitrary: n)
  case (Cons d ds)
  then show ?case using read_digit [of d "f\<lparr>fmtBeforeDecimal := int n\<rparr>"] Cons.IH [of "n * 10 + d"] by simp
qed simp

lemma digits_of_hd: "2 \<le> b \<Longrightarrow> 0 < n \<Longrightarrow> \<exists>d ds. digits_of b n = d # ds \<and> 0 < d"
proof (induction b n rule: digits_of.induct)
  case (1 b n)
  have e: "digits_of b n = (if n < b \<or> b < 2 then [n] else digits_of b (n div b) @ [n mod b])"
    by (rule digits_of.simps)
  show ?case
  proof (cases "n < b")
    case False
    with 1 obtain d ds where "digits_of b (n div b) = d # ds" "0 < d" by (auto simp: div_greater_zero_iff)
    with e False 1 show ?thesis by simp
  qed (use e 1 in simp)
qed

lemma read_width:
  assumes "0 < w" "fmtBeforeDecimal f = -1" "fmtAfterDecimal f < 0"
  shows "alt_log_private_printf pfState_otherFmtChar f (numeral_of 10 False w @ rest) args =
         alt_log_private_printf pfState_otherFmtChar (f\<lparr>fmtBeforeDecimal := int w\<rparr>) rest args"
proof -
  from digits_of_hd [of 10 w] assms(1) obtain d ds where ds: "digits_of 10 w = d # ds" by auto
  have lt: "\<forall>e \<in> set (d # ds). e < 10" using digits_of_less [of 10 _ w] by (simp add: ds)
  have v: "foldl (\<lambda>v d. v * 10 + d) d ds = w" using digits_value [of 10 w] by (simp add: digits_value_def ds)
  show ?thesis
    using lt assms read_digit [of d f] read_digits [of ds f d rest args] by (simp add: numeral_of_def ds v)
qed

lemma first_char:
  assumes "0 < w"
  shows "alt_log_private_printf pfState_firstFmtChar f (numeral_of 10 False w @ rest) args =
         alt_log_private_printf pfState_otherFmtChar f (numeral_of 10 False w @ rest) args"
proof -
  from digits_of_hd [of 10 w] assms obtain d ds where ds: "digits_of 10 w = d # ds" "0 < d" by auto
  then have d: "d < 10" using digits_of_less [of 10 d w] by simp
  have "digit_char False d \<noteq> CHR ''0''"
    using digit_char_code [OF d, of False] ds(2) by auto
  moreover have "digit_char False d \<noteq> CHR ''%''" using digit_char_neq [OF d, of "CHR ''%''"] by simp
  ultimately show ?thesis
    by (simp add: numeral_of_def ds del: alt_log_private_printf.simps(4))
qed

text \<open>The integer conversions: base, whether the argument is signed, whether the digits are upper case.\<close>

fun conversion :: "char \<Rightarrow> (nat \<times> bool \<times> bool) option" where
  "conversion c =
     (if c = CHR ''d'' \<or> c = CHR ''i'' then Some (10, True, False) else if c = CHR ''u'' then Some (10, False, False)
      else if c = CHR ''o'' then Some (8, False, False) else if c = CHR ''x'' then Some (16, False, False)
      else if c = CHR ''X'' then Some (16, False, True) else None)"

text \<open>C29: An integer conversion with a width prints the number with its sign, as the digits of repeated
  division by its base padded to the width with zeros or spaces, whatever the number, the smallest
  included; then the rest of the format is printed with the rest of the arguments.\<close>

theorem log_printf_integer:
  assumes "0 < w" and "conversion c = Some (b, sgned, upper)"
  shows "alt_log_private_printf pfState_chars f
           (''%'' @ (if zero then ''0'' else []) @ numeral_of 10 False w @ c # rest) (ArgWord v # args) =
         emit (padded zero (int w) (printed_value sgned v < 0) (numeral_of b upper (nat \<bar>printed_value sgned v\<bar>)))
           (alt_log_private_printf pfState_chars logfmt0 rest args)"
proof -
  let ?f = "logfmt0\<lparr>fmtLeadingZero := zero\<rparr>" let ?g = "?f\<lparr>fmtBeforeDecimal := int w\<rparr>"
  have "alt_log_private_printf pfState_firstFmtChar logfmt0
           ((if zero then ''0'' else []) @ numeral_of 10 False w @ c # rest) (ArgWord v # args) =
        alt_log_private_printf pfState_otherFmtChar ?f (numeral_of 10 False w @ c # rest) (ArgWord v # args)"
  proof (cases zero)
    case False
    moreover have "logfmt0\<lparr>fmtLeadingZero := False\<rparr> = logfmt0" by (simp add: logfmt0_def)
    ultimately show ?thesis using first_char [OF assms(1), of logfmt0 "c # rest"] by simp
  qed simp
  also have "\<dots> = alt_log_private_printf pfState_otherFmtChar ?g (c # rest) (ArgWord v # args)"
    by (rule read_width [OF assms(1)]) (simp_all add: logfmt0_def)
  also have "\<dots> = emit (padded zero (int w) (printed_value sgned v < 0)
       (numeral_of b upper (nat \<bar>printed_value sgned v\<bar>))) (alt_log_private_printf pfState_chars logfmt0 rest args)"
    using assms(2) chars_fmt [of ?g rest args logfmt0]
    by (auto simp: log_integer_reference logfmt0_def split: if_splits)
  finally show ?thesis by simp
qed

text \<open>The format of the wait for room: every character goes to the device as in the polled driver.\<close>

lemma alt_log_txchar_small:
  "alt_log_txchar regs c h = Some h1 \<Longrightarrow>
   small_write_loop regs (of_char c # cs) h = small_write_loop regs cs h1"
proof (induction rule: alt_log_txchar.raw_induct [rotated, consumes 1, case_names step])
  case (step tx regs c h h1)
  obtain v h' where v: "iord_control regs h = (v, h')" by fastforce
  show ?case
  proof (cases "v AND CONTROL_WSPACE_MSK = 0")
    case True
    with step v have "small_write_loop regs (of_char c # cs) h' = small_write_loop regs cs h1" by simp
    with True v show ?thesis by (subst small_write_loop.simps) simp
  next
    case False
    with step.hyps v show ?thesis by (subst small_write_loop.simps) auto
  qed
qed

lemma alt_log_txchar_returns:
  "polls (iord_control regs) CONTROL_WSPACE_MSK k h \<Longrightarrow> \<exists>h1. alt_log_txchar regs c h = Some h1"
proof (induction k arbitrary: h)
  case 0
  then show ?case by (cases "iord_control regs h") (subst alt_log_txchar.simps, simp)
next
  case (Suc k)
  then show ?case by (cases "iord_control regs h") (subst alt_log_txchar.simps, auto)
qed

lemma alt_log_puts_small:
  assumes "\<And>h. \<exists>k. polls (iord_control regs) CONTROL_WSPACE_MSK k h"
  shows "alt_log_puts regs cs h = small_write_loop regs (map of_char cs) h"
proof (induction cs arbitrary: h)
  case Nil
  show ?case by (subst small_write_loop.simps) simp
next
  case (Cons c cs)
  from assms obtain k where "polls (iord_control regs) CONTROL_WSPACE_MSK k h" by blast
  from alt_log_txchar_returns [OF this] obtain h1 where h1: "alt_log_txchar regs c h = Some h1" by blast
  with alt_log_txchar_small [OF h1] Cons show ?case by simp
qed

lemma polls_logged: "polls (iord_control regs) msk k (fst h) \<Longrightarrow> polls (iord_control (logged regs)) msk k h"
proof (induction k arbitrary: h)
  case 0
  then show ?case by (cases h, cases "iord_control regs (fst h)") (simp add: logged_def)
next
  case (Suc k)
  obtain v h1 where "iord_control regs (fst h) = (v, h1)" by fastforce
  with Suc.prems Suc.IH [of "(h1, snd h @ [RdControl v])"] show ?case
    by (cases h) (auto simp: logged_def)
qed

text \<open>On a device that a poll eventually finds with room, logging a format that prints returns with
  exactly the printed characters written to the device, in order, each right after a poll that found
  room.\<close>

lemma log_printf_uart:
  assumes "\<forall>h. \<exists>k. polls (iord_control regs) CONTROL_WSPACE_MSK k h"
    and "alt_log_private_printf pfState_chars logfmt0 fmt args = Inr out"
  shows "\<exists>h' m. alt_log_printf_proc (logged regs) fmt args (h, l) = Inr (0, (h', l @ m)) \<and>
                sent m = map of_char out \<and> received m = [] \<and> room_polled m"
proof -
  have "\<And>h. \<exists>k. polls (iord_control (logged regs)) CONTROL_WSPACE_MSK k h"
    using assms(1) polls_logged by blast
  note p = alt_log_puts_small [OF this]
  from small_write_loop_total [of regs "map of_char out" h l] assms(1) obtain h' m
    where "small_write_loop (logged regs) (map of_char out) (h, l) = Some (h', l @ m)" "sent m = map of_char out"
      "received m = []" "room_polled m" by auto
  with p [of out "(h, l)"] assms(2) show ?thesis by (auto simp: alt_log_printf_proc_def)
qed

text \<open>What the echo of a write shows.\<close>

definition echo_text :: "string \<Rightarrow> string" where
  "echo_text ptr = map (\<lambda>c. if c = CHR 0x04 then CHR ''D'' else c)
     (take (min (length ptr) ALT_LOG_WRITE_ECHO_LEN - 1) ptr) @ [CHR 0x0A, CHR 0x0D]"

lemma echo_buf_text:
  assumes "2 \<le> length ptr" "length buf = 17"
  shows "echo_buf buf ptr = echo_text ptr @ nul # drop (min (length ptr) ALT_LOG_WRITE_ECHO_LEN + 2) buf"
proof -
  let ?n = "min (length ptr) ALT_LOG_WRITE_ECHO_LEN"
  obtain k where k: "?n = Suc k" "k < 15" "k < length ptr" using assms(1) by (cases ?n) auto
  have n: "(if length ptr < ALT_LOG_WRITE_ECHO_LEN then length ptr else ALT_LOG_WRITE_ECHO_LEN) = Suc k"
    using k(1) by (auto simp: min_def split: if_splits)
  let ?b = "(take (Suc k) ptr @ drop (Suc k) buf)[k := CHR 0x0A, Suc k := CHR 0x0D, Suc (Suc k) := nul]"
  have d: "drop (Suc k) buf = buf ! Suc k # buf ! Suc (Suc k) # drop (Suc (Suc (Suc k))) buf"
    using k(2) assms(2) by (simp add: Cons_nth_drop_Suc)
  have e: "echo_buf buf ptr = map (\<lambda>c. if c = CHR 0x04 then CHR ''D'' else c) (take (Suc k) ?b) @ drop (Suc k) ?b"
    unfolding echo_buf_def Let_def n by simp
  have b: "?b = take k ptr @ [CHR 0x0A, CHR 0x0D, nul] @ drop (Suc (Suc (Suc k))) buf"
    using k(3) by (simp add: d take_Suc_conv_app_nth list_update_append)
  show ?thesis unfolding e b using k by (simp add: echo_text_def)
qed

text \<open>The echo of a write prints the characters written up to the fourteenth, but never the last one,
  with every Ctrl-D as a D, and a line end; the buffer keeps its size.\<close>

lemma alt_log_write_echo:
  assumes "2 \<le> length ptr" and "length buf = 17" and "nul \<notin> set (take 14 ptr)"
  shows "alt_log_write regs True buf ptr h =
           andThen (returned (map_option Inr (alt_log_puts regs (''Write Echo: '' @ echo_text ptr) h)))
             (\<lambda>h1. Inr (echo_buf buf ptr, h1)) \<and>
         length (echo_buf buf ptr) = 17 \<and>
         (\<forall>c \<in> set (echo_text ptr). c \<noteq> CHR 0x04)"
proof -
  have "set (take (min (length ptr) ALT_LOG_WRITE_ECHO_LEN - 1) ptr) \<subseteq> set (take 14 ptr)"
    by (rule set_take_subset_set_take) simp
  then have "\<forall>c \<in> set (echo_text ptr). c \<noteq> nul"
    using assms(3) by (auto simp: echo_text_def nul_def)
  then have tw: "takeWhile (\<lambda>c. c \<noteq> nul) (echo_buf buf ptr) = echo_text ptr"
    unfolding echo_buf_text [OF assms(1,2)] by (subst takeWhile_append2) auto
  have "alt_log_private_printf pfState_chars logfmt0 ''Write Echo: %s'' [ArgStr (echo_text ptr)] =
        Inr (''Write Echo: '' @ echo_text ptr)"
    by (simp add: alt_log_repchar_def emit_def logfmt0_def)
  moreover have "length (echo_buf buf ptr) = 17"
    using assms(1,2) by (auto simp: echo_buf_text echo_text_def min_def)
  ultimately show ?thesis using assms(1)
    by (cases "alt_log_puts regs (''Write Echo: '' @ echo_text ptr) h")
      (auto simp: alt_log_write_def tw alt_log_printf_proc_def echo_text_def Let_def)
qed

theorem log_printf_integer_witness:
  "alt_log_private_printf pfState_chars logfmt0 (''%'' @ ''0'' @ numeral_of 10 False 5 @ ''d'') [ArgWord (- 42)] =
   emit (padded True 5 True (numeral_of 10 False 42)) (Inr [])"
  using log_printf_integer [of 5 "CHR ''d''" 10 True False logfmt0 True "[]" "- 42" "[]"]
  by (simp add: printed_value_def)


end
