(* ===== verification/CharIo.thy ===== *)
theory CharIo
  imports Printf
begin

text \<open>
  Single characters and strings on the standard streams (\<^verbatim>\<open>alt_getchar.c\<close>, \<^verbatim>\<open>alt_putchar.c\<close>,
  \<^verbatim>\<open>alt_putstr.c\<close>, \<^verbatim>\<open>alt_putcharbuf.c\<close>, with the macros of \<^verbatim>\<open>sys/alt_driver.h\<close>), in the three ways
  they can be built: through the system calls for semihosting, straight to a driver, or by the C library.
\<close>

section \<open>Drivers without descriptors\<close>

text \<open>
  The macros call the driver's functions on its state: \<open>drv_read\<close> and \<open>drv_write\<close> are
  \<^verbatim>\<open>ALT_DRIVER_FUNC_NAME(instance, read)\<close> and \<^verbatim>\<open>write\<close>, and \<open>drv_ioctl\<close> is the one for \<^verbatim>\<open>ioctl\<close>, if the driver has
  it; a call of a function that is missing does not link.
\<close>

record 'w driver =
  drv_read :: "int \<Rightarrow> u32 \<Rightarrow> 'w \<Rightarrow> stuck + ((int \<times> u8 list) \<times> 'w)"
  drv_write :: "u8 list \<Rightarrow> u32 \<Rightarrow> 'w \<Rightarrow> stuck + (int \<times> 'w)"
  drv_ioctl :: "(int \<Rightarrow> addr \<Rightarrow> 'w \<Rightarrow> stuck + (int \<times> 'w)) option"

definition ALT_DRIVER_READ :: "'w driver \<Rightarrow> int \<Rightarrow> u32 \<Rightarrow> 'w hal \<Rightarrow> stuck + ((int \<times> u8 list) \<times> 'w hal)" where
  "ALT_DRIVER_READ d len flags s =
     andThen (drv_read d len flags (hal_world s)) (\<lambda>(r, w). Inr (r, s\<lparr>hal_world := w\<rparr>))"

definition ALT_DRIVER_WRITE :: "'w driver \<Rightarrow> u8 list \<Rightarrow> u32 \<Rightarrow> 'w hal \<Rightarrow> stuck + (int \<times> 'w hal)" where
  "ALT_DRIVER_WRITE d buffer flags s =
     andThen (drv_write d buffer flags (hal_world s)) (\<lambda>(r, w). Inr (r, s\<lparr>hal_world := w\<rparr>))"

definition ALT_DRIVER_IOCTL :: "'w driver \<Rightarrow> int \<Rightarrow> addr \<Rightarrow> 'w hal \<Rightarrow> stuck + (int \<times> 'w hal)" where
  "ALT_DRIVER_IOCTL d req arg s =
     (case drv_ioctl d of
        None \<Rightarrow> Inl LinkError
      | Some f \<Rightarrow> andThen (f req arg (hal_world s)) (\<lambda>(r, w). Inr (r, s\<lparr>hal_world := w\<rparr>)))"

text \<open>The drivers of the UART: the one with queues, and the polled one, which has no \<^verbatim>\<open>ioctl\<close>.\<close>

definition uart_driver :: "'h regs \<Rightarrow> 'h uart_world driver" where
  "uart_driver regs = \<lparr>
     drv_read = (\<lambda>len flags w. andThen (uart_read regs len flags (uw_events w) (uw_uart w)) (\<lambda>(r, es, s).
                   Inr (r, w\<lparr>uw_events := es, uw_uart := s\<rparr>))),
     drv_write = (\<lambda>buf flags w. andThen (uart_write regs buf flags (uw_events w) (uw_uart w)) (\<lambda>(r, es, s).
                   Inr (r, w\<lparr>uw_events := es, uw_uart := s\<rparr>))),
     drv_ioctl = Some (\<lambda>req arg w.
       let ((r, v), s) = uart_ioctl req (uw_mem w arg) (uw_uart w)
       in Inr (r, w\<lparr>uw_uart := s, uw_mem := (uw_mem w)(arg := v)\<rparr>))\<rparr>"

definition small_driver :: "'h regs \<Rightarrow> 'h driver" where
  "small_driver regs = \<lparr>
     drv_read = (\<lambda>len flags h. returned (map_option Inr (uart_small_read regs len flags h))),
     drv_write = (\<lambda>buf flags h. returned (map_option Inr (uart_small_write regs buf flags h))),
     drv_ioctl = None\<rparr>"

section \<open>Characters\<close>

text \<open>
  The three builds; for the last the C library's functions are given.  A \<^verbatim>\<open>char\<close> is unsigned on this
  processor.  When a read fails the variable \<^verbatim>\<open>c\<close> keeps the value \<open>c0\<close> it happens to have.
\<close>

datatype 'w char_io =
    Semihosting
  | DirectDriver "'w driver"
  | CLibrary "'w hal \<Rightarrow> stuck + (int \<times> 'w hal)" "int \<Rightarrow> 'w hal \<Rightarrow> stuck + (int \<times> 'w hal)"
      "u8 list \<Rightarrow> 'w hal \<Rightarrow> stuck + (int \<times> 'w hal)"

definition first_byte :: "u8 \<Rightarrow> u8 list \<Rightarrow> int" where
  "first_byte c0 bytes = uint (case bytes of [] \<Rightarrow> c0 | b # _ \<Rightarrow> b)"

fun alt_getchar :: "'w char_io \<Rightarrow> u8 \<Rightarrow> 'w hal \<Rightarrow> stuck + (int \<times> 'w hal)" where
  "alt_getchar Semihosting c0 s =
     andThen (ALT_READ (int STDIN_FILENO) 1 s) (\<lambda>((_, bytes), s1). Inr (first_byte c0 bytes, s1))"
| "alt_getchar (DirectDriver d) c0 s =
     andThen (ALT_DRIVER_READ d 1 (fd_flags (alt_fd_list s ! STDIN_FILENO)) s) (\<lambda>((r, bytes), s1).
       Inr (if r \<le> 0 then -1 else first_byte c0 bytes, s1))"
| "alt_getchar (CLibrary getchar putchar fputs) c0 s = getchar s"

fun alt_putchar :: "'w char_io \<Rightarrow> int \<Rightarrow> 'w hal \<Rightarrow> stuck + (int \<times> 'w hal)" where
  "alt_putchar Semihosting c s = ALT_WRITE (int STDOUT_FILENO) [of_int c] s"
| "alt_putchar (DirectDriver d) c s =
     andThen (ALT_DRIVER_WRITE d [of_int c] 0 s) (\<lambda>(r, s1). Inr (if r = -1 then -1 else c, s1))"
| "alt_putchar (CLibrary getchar putchar fputs) c s = putchar c s"

fun alt_putstr :: "'w char_io \<Rightarrow> u8 list \<Rightarrow> 'w hal \<Rightarrow> stuck + (int \<times> 'w hal)" where
  "alt_putstr Semihosting str s = ALT_WRITE (int STDOUT_FILENO) str s"
| "alt_putstr (DirectDriver d) str s = ALT_DRIVER_WRITE d str 0 s"
| "alt_putstr (CLibrary getchar putchar fputs) str s = fputs str s"

text \<open>
  The drivers report errors as negative error numbers, of which -1 is none: a character that the UART
  refuses is reported as written.
\<close>

lemma putchar_hides_error:
  assumes "drv_write d [of_int c] 0 (hal_world s) = Inr (- EIO, w)"
  shows "alt_putchar (DirectDriver d) c s = Inr (c, s\<lparr>hal_world := w\<rparr>)"
  using assms by (simp add: ALT_DRIVER_WRITE_def)

text \<open>With semihosting a failed read returns what the variable held.\<close>

lemma getchar_semihosting_error:
  assumes "fd_flags (alt_fd_list s ! 0) AND O_ACCMODE = O_WRONLY" and "fd_dev (alt_fd_list s ! 0) \<noteq> 0"
  shows "\<exists>s'. alt_getchar Semihosting c0 s = Inr (uint c0, s')"
  using assms by (auto simp: ALT_READ_def fd_slot_def fd_device_def first_byte_def split: option.splits)

section \<open>The character buffer\<close>

text \<open>
  The buffer and the number of characters in it; \<open>put\<close> is \<^verbatim>\<open>write\<close> on the standard output.  The
  results of the writes are not looked at.
\<close>

abbreviation (input) ALT_PUTBUF_SIZE :: nat where "ALT_PUTBUF_SIZE \<equiv> 64"

record putbuf =
  pb_buf :: "u8 list"
  pb_fill :: nat

definition putbuf_init :: putbuf where
  "putbuf_init = \<lparr>pb_buf = replicate ALT_PUTBUF_SIZE 0, pb_fill = 0\<rparr>"

definition alt_putbufflush ::
    "(u8 list \<Rightarrow> 's \<Rightarrow> stuck + (int \<times> 's)) \<Rightarrow> putbuf \<times> 's \<Rightarrow> stuck + (int \<times> putbuf \<times> 's)" where
  "alt_putbufflush put s =
     (case s of (b, w) \<Rightarrow>
        andThen (put (take (pb_fill b) (pb_buf b)) w) (\<lambda>(r, w1). Inr (r, b\<lparr>pb_fill := 0\<rparr>, w1)))"

definition alt_putcharbuf ::
    "(u8 list \<Rightarrow> 's \<Rightarrow> stuck + (int \<times> 's)) \<Rightarrow> int \<Rightarrow> putbuf \<times> 's \<Rightarrow> stuck + (int \<times> putbuf \<times> 's)" where
  "alt_putcharbuf put c s =
     (case s of (b, w) \<Rightarrow>
        if pb_fill b < length (pb_buf b) then
          let b1 = b\<lparr>pb_buf := (pb_buf b)[pb_fill b := of_int c], pb_fill := pb_fill b + 1\<rparr>
          in if ALT_PUTBUF_SIZE \<le> pb_fill b1 then andThen (alt_putbufflush put (b1, w)) (\<lambda>(_, s2). Inr (c, s2))
             else Inr (c, b1, w)
        else Inl OutOfBounds)"

text \<open>Characters put one after the other, and the small printer built for semihosting.\<close>

fun put_chars ::
    "(u8 list \<Rightarrow> 's \<Rightarrow> stuck + (int \<times> 's)) \<Rightarrow> int list \<Rightarrow> putbuf \<times> 's \<Rightarrow> stuck + (putbuf \<times> 's)" where
  "put_chars put [] s = Inr s"
| "put_chars put (c # cs) s = andThen (alt_putcharbuf put c s) (\<lambda>(_, s1). put_chars put cs s1)"

definition alt_printf_semihosting ::
    "(u8 list \<Rightarrow> 's \<Rightarrow> stuck + (int \<times> 's)) \<Rightarrow> string \<Rightarrow> vararg list \<Rightarrow> putbuf \<times> 's \<Rightarrow> stuck + (putbuf \<times> 's)" where
  "alt_printf_semihosting put fmt args s =
     andThen (alt_printf fmt args) (\<lambda>out.
     andThen (put_chars put (map of_char out) s) (\<lambda>s1.
     andThen (alt_putbufflush put s1) (\<lambda>(_, s2). Inr s2)))"

text \<open>A standard output that records what is written; what it reports, even an error, is arbitrary.\<close>

definition recording :: "(u8 list \<Rightarrow> int) \<Rightarrow> u8 list \<Rightarrow> u8 list list \<Rightarrow> stuck + (int \<times> u8 list list)" where
  "recording report bs w = Inr (report bs, w @ [bs])"

definition putbuf_ok :: "putbuf \<Rightarrow> bool" where
  "putbuf_ok b \<longleftrightarrow> length (pb_buf b) = ALT_PUTBUF_SIZE \<and> pb_fill b < ALT_PUTBUF_SIZE"

definition pending :: "putbuf \<Rightarrow> u8 list" where
  "pending b = take (pb_fill b) (pb_buf b)"

lemma putcharbuf_step:
  assumes "putbuf_ok b"
  shows "\<exists>b' ws. alt_putcharbuf (recording report) c (b, w) = Inr (c, b', w @ ws) \<and> putbuf_ok b' \<and>
                 pending b @ [of_int c] = concat ws @ pending b' \<and> (\<forall>x \<in> set ws. length x = ALT_PUTBUF_SIZE)"
proof -
  let ?b = "b\<lparr>pb_buf := (pb_buf b)[pb_fill b := of_int c], pb_fill := pb_fill b + 1\<rparr>"
  have l: "length (pb_buf b) = 64" "pb_fill b < 64" using assms by (simp_all add: putbuf_ok_def)
  then have t: "take (Suc (pb_fill b)) ((pb_buf b)[pb_fill b := of_int c]) = pending b @ [of_int c]"
    by (simp add: pending_def take_Suc_conv_app_nth)
  show ?thesis
  proof (cases "ALT_PUTBUF_SIZE \<le> pb_fill b + 1")
    case True
    with l t show ?thesis
      by (intro exI [of _ "?b\<lparr>pb_fill := 0\<rparr>"] exI [of _ "[pending b @ [of_int c]]"])
        (auto simp: alt_putcharbuf_def alt_putbufflush_def recording_def putbuf_ok_def pending_def)
  next
    case False
    with l t show ?thesis
      by (intro exI [of _ ?b] exI [of _ "[]"]) (auto simp: alt_putcharbuf_def putbuf_ok_def pending_def)
  qed
qed

lemma put_chars_stream:
  "putbuf_ok b \<Longrightarrow>
   \<exists>b' ws. put_chars (recording report) cs (b, w) = Inr (b', w @ ws) \<and> putbuf_ok b' \<and>
           pending b @ map of_int cs = concat ws @ pending b' \<and> (\<forall>x \<in> set ws. length x = ALT_PUTBUF_SIZE)"
proof (induction cs arbitrary: b w)
  case Nil
  then show ?case by auto
next
  case (Cons c cs)
  from putcharbuf_step [OF Cons.prems, of report c w] obtain b1 ws1
    where 1: "alt_putcharbuf (recording report) c (b, w) = Inr (c, b1, w @ ws1)" "putbuf_ok b1"
      "pending b @ [of_int c] = concat ws1 @ pending b1" "\<forall>x \<in> set ws1. length x = ALT_PUTBUF_SIZE" by blast
  from Cons.IH [OF 1(2), of "w @ ws1"] obtain b2 ws2
    where 2: "put_chars (recording report) cs (b1, w @ ws1) = Inr (b2, (w @ ws1) @ ws2)" "putbuf_ok b2"
      "pending b1 @ map of_int cs = concat ws2 @ pending b2" "\<forall>x \<in> set ws2. length x = ALT_PUTBUF_SIZE" by blast
  have "pending b @ map of_int (c # cs) = (pending b @ [of_int c]) @ map of_int cs" by simp
  also have "\<dots> = concat (ws1 @ ws2) @ pending b2" by (simp add: 1(3) 2(3))
  finally show ?case using 1 2 by (intro exI [of _ b2] exI [of _ "ws1 @ ws2"]) auto
qed

text \<open>Built for semihosting the small printer writes exactly the text it prints otherwise, in order and
  without loss, in full buffers of 64 characters and a rest, and leaves the buffer empty.\<close>

lemma semihosting_printf_writes:
  assumes "putbuf_ok b" and "pending b = []" and "alt_printf fmt args = Inr out"
  shows "\<exists>b' ws rest. alt_printf_semihosting (recording report) fmt args (b, w) = Inr (b', w @ ws @ [rest]) \<and>
           putbuf_ok b' \<and> pending b' = [] \<and> concat ws @ rest = map of_char out \<and>
           (\<forall>x \<in> set ws. length x = ALT_PUTBUF_SIZE) \<and> length rest < ALT_PUTBUF_SIZE"
proof -
  from put_chars_stream [OF assms(1), of report "map of_char out" w] obtain b1 ws
    where p: "put_chars (recording report) (map of_char out) (b, w) = Inr (b1, w @ ws)" "putbuf_ok b1"
      "pending b @ map of_int (map of_char out) = concat ws @ pending b1" "\<forall>x \<in> set ws. length x = ALT_PUTBUF_SIZE"
    by blast
  have "alt_putbufflush (recording report) (b1, w @ ws) =
        Inr (report (pending b1), b1\<lparr>pb_fill := 0\<rparr>, (w @ ws) @ [pending b1])"
    by (simp add: alt_putbufflush_def recording_def pending_def)
  moreover have "putbuf_ok (b1\<lparr>pb_fill := 0\<rparr>)" "pending (b1\<lparr>pb_fill := 0\<rparr>) = []"
    using p(2) by (simp_all add: putbuf_ok_def pending_def)
  moreover have "length (pending b1) < ALT_PUTBUF_SIZE" using p(2) by (simp add: putbuf_ok_def pending_def)
  moreover have "concat ws @ pending b1 = map of_char out" using p(3) assms(2) by (simp add: comp_def of_int_of_char)
  ultimately show ?thesis using p(1,4) assms(3)
    by (intro exI [of _ "b1\<lparr>pb_fill := 0\<rparr>"] exI [of _ ws] exI [of _ "pending b1"])
      (simp add: alt_printf_semihosting_def)
qed

end
