(* ===== verification/Boot.thy ===== *)
theory Boot
  imports Irq CharIo
begin

text \<open>
  Start-up (\<^verbatim>\<open>alt_main.c\<close>, \<^verbatim>\<open>alt_sys_init.c\<close>, \<^verbatim>\<open>alt_do_ctors.c\<close>, \<^verbatim>\<open>alt_do_dtors.c\<close>) as it is configured
  for this system: the UART driver without queues, the standard streams redirected to it, constructors,
  \<^verbatim>\<open>main\<close>, and \<^verbatim>\<open>exit\<close>.
\<close>

section \<open>Constructors and destructors\<close>

fun run_in_order :: "('s \<Rightarrow> stuck + 's) list \<Rightarrow> 's \<Rightarrow> stuck + 's" where
  "run_in_order [] s = Inr s"
| "run_in_order (f # fs) s = andThen (f s) (run_in_order fs)"

text \<open>Up through the array of constructors, down through that of destructors.\<close>

definition do_ctors :: "('s \<Rightarrow> stuck + 's) list \<Rightarrow> 's \<Rightarrow> stuck + 's" where
  "do_ctors init_array s = run_in_order init_array s"

definition do_dtors :: "('s \<Rightarrow> stuck + 's) list \<Rightarrow> 's \<Rightarrow> stuck + 's" where
  "do_dtors fini_array s = run_in_order (rev fini_array) s"

section \<open>The HAL at reset\<close>

text \<open>
  The initialised data of \<^verbatim>\<open>alt_dev.c\<close>, and the structure of the UART: the null device at address 2 and the UART at 3,
  the head of the list of devices at 10, which links the null device and nothing else, the head of the list of
  file systems at 11, which is empty, and the pool of descriptors.
\<close>

abbreviation (input) JTAG_UART_NAME :: string where "JTAG_UART_NAME \<equiv> ''/dev/jtag_uart_0''"

definition reset_links :: llheap where
  "reset_links = \<lparr>ll_next = (\<lambda>_. 0)(2 := 10, 10 := 2, 11 := 11), ll_prev = (\<lambda>_. 0)(2 := 10, 10 := 2, 11 := 11)\<rparr>"

definition reset_hal :: "'h regs \<Rightarrow> 'h \<Rightarrow> 'h hal" where
  "reset_hal regs h = \<lparr>
     rg_links = reset_links,
     rg_name = (\<lambda>_. None)(2 := Some ''/dev/null'', 3 := Some JTAG_UART_NAME), rg_errno = 0,
     alt_fd_list = alt_fd_list_init 2, alt_max_fd = -1,
     hal_devs = (\<lambda>_. alt_dev_null)(3 := small_dev regs), alt_dev_list = 10, alt_fs_list = 11, hal_world = h\<rparr>"

section \<open>The entry point\<close>

definition alt_irq_init :: "csrs \<Rightarrow> bool \<Rightarrow> csrs \<Rightarrow> csrs" where
  "alt_irq_init wr irqs c = alt_irq_cpu_enable_interrupts wr irqs c"

text \<open>The initialisation of the processor core is empty.\<close>

definition alt_sys_init :: "'h hal \<Rightarrow> 'h hal" where
  "alt_sys_init s = small_dev_init 3 s"

text \<open>
  The constructors, \<^verbatim>\<open>main\<close> and the destructors work on the registers and the HAL.  \<^verbatim>\<open>exit\<close> runs what
  \<^verbatim>\<open>atexit\<close> was given, the destructors, and ends in \<^verbatim>\<open>_exit\<close>; there are no semaphores in the
  single-threaded HAL, and the arguments of \<^verbatim>\<open>main\<close> are empty.
\<close>

type_synonym 'h machine = "csrs \<times> 'h hal"

definition exit_program ::
    "('h machine \<Rightarrow> stuck + 'h machine) list \<Rightarrow> int \<Rightarrow> 'h machine \<Rightarrow> stuck + 'h machine" where
  "exit_program fini_array result m = andThen (do_dtors fini_array m) (\<lambda>_. ALT_EXIT result)"

definition alt_main ::
    "csrs \<Rightarrow> bool \<Rightarrow> ('h machine \<Rightarrow> stuck + 'h machine) list \<Rightarrow> ('h machine \<Rightarrow> stuck + 'h machine) list \<Rightarrow>
     ('h machine \<Rightarrow> stuck + (int \<times> 'h machine)) \<Rightarrow> 'h machine \<Rightarrow> stuck + 'h machine" where
  "alt_main wr irqs init_array fini_array main m =
     (case m of (c, s) \<Rightarrow>
        let c1 = alt_irq_init wr irqs c; s1 = alt_sys_init s
        in andThen (alt_io_redirect JTAG_UART_NAME JTAG_UART_NAME JTAG_UART_NAME s1) (\<lambda>s2.
           andThen (do_ctors init_array (c1, s2)) (\<lambda>m3.
           andThen (main m3) (\<lambda>(result, (c4, s4)).
           andThen (ALT_CLOSE (int STDOUT_FILENO) s4) (\<lambda>(_, s5).
             exit_program fini_array result (c4, s5))))))"

section \<open>Redirecting the standard streams at start-up\<close>

text \<open>
  What holds before each of the three redirections: the UART is the first device and the null device the only other one, no descriptor above the
  standard streams is in use and none is locked.
\<close>

definition booting :: "'h regs \<Rightarrow> 'h \<Rightarrow> 'h hal \<Rightarrow> bool" where
  "booting regs h s \<longleftrightarrow>
     llist_at (rg_links s) 10 [3, 2] \<and> rg_name s 3 = Some JTAG_UART_NAME \<and> rg_name s 2 = Some ''/dev/null'' \<and>
     alt_dev_list s = 10 \<and> hal_devs s 3 = small_dev regs \<and> hal_world s = h \<and>
     length (alt_fd_list s) = ALT_MAX_FD \<and> alt_max_fd s \<in> {-1, 3} \<and>
     (\<forall>i < 3. owner s i \<noteq> 0) \<and> (\<forall>i \<ge> 3. i < ALT_MAX_FD \<longrightarrow> owner s i = 0) \<and>
     (\<forall>i < ALT_MAX_FD. fd_flags (alt_fd_list s ! i) AND ALT_FD_EXCL = 0)"

text \<open>The effect of one redirection.\<close>

definition redirected :: "nat \<Rightarrow> u32 \<Rightarrow> 'h hal \<Rightarrow> 'h hal" where
  "redirected fd flags s = s\<lparr>alt_max_fd := 3, alt_fd_list := (alt_fd_list s)
     [3 := \<lparr>fd_dev = 0, fd_priv = fd_priv (alt_fd_list s ! 3), fd_flags = 0\<rparr>,
      fd := \<lparr>fd_dev = 3, fd_priv = fd_priv (alt_fd_list s ! 3), fd_flags = flags OR ALT_FD_DEV\<rparr>]\<rparr>"

lemma boot_find:
  assumes "booting regs h s"
  shows "alt_find_dev JTAG_UART_NAME (alt_dev_list s) s = Inr 3"
    and "alt_find_dev ''/dev/null'' (alt_dev_list s) s = Inr 2"
  using alt_find_dev_list [of s 10 "[3, 2]" JTAG_UART_NAME] alt_find_dev_list [of s 10 "[3, 2]" "''/dev/null''"] assms
  by (simp_all add: booting_def named_def first_named_def nul_def)

lemma boot_open:
  assumes "booting regs h s" and "flags AND ALT_FD_FLAGS_MASK = 0"
  shows "ALT_OPEN JTAG_UART_NAME flags mode s =
         Inr (3, s\<lparr>alt_max_fd := 3, alt_fd_list := (alt_fd_list s)
           [3 := \<lparr>fd_dev = 3, fd_priv = fd_priv (alt_fd_list s ! 3), fd_flags = flags OR ALT_FD_DEV\<rparr>]\<rparr>)"
proof -
  let ?s1 = "(set_fd 3 (\<lambda>e. e\<lparr>fd_dev := 3\<rparr>) s)\<lparr>alt_max_fd := 3\<rparr>"
  let ?s2 = "set_fd 3 (\<lambda>e. e\<lparr>fd_flags := flags AND NOT ALT_FD_FLAGS_MASK\<rparr>) ?s1"
  let ?s3 = "set_fd 3 (\<lambda>e. e\<lparr>fd_flags := fd_flags e OR ALT_FD_DEV\<rparr>) ?s2"
  let ?e = "\<lparr>fd_dev = 3, fd_priv = fd_priv (alt_fd_list s ! 3), fd_flags = flags OR ALT_FD_DEV\<rparr>"
  have b: "length (alt_fd_list s) = ALT_MAX_FD" "\<forall>j < 3. owner s j \<noteq> 0" "owner s 3 = 0" "max (alt_max_fd s) 3 = 3"
    "\<forall>i < ALT_MAX_FD. fd_flags (alt_fd_list s ! i) AND ALT_FD_EXCL = 0" "hal_devs s 3 = small_dev regs"
    using assms(1) by (auto simp: booting_def)
  have g: "alt_get_fd 3 s = (3, ?s1)"
    using alt_get_fd_from_first [of 0 3 s 3] b(1-4) by (simp add: alt_get_fd_def)
  have fl: "flags AND NOT ALT_FD_FLAGS_MASK = flags"
  proof (rule bit_word_eqI)
    fix n assume "n < LENGTH(32)"
    then show "bit (flags AND NOT ALT_FD_FLAGS_MASK) n = bit flags n"
      using arg_cong [OF assms(2), of "\<lambda>w. bit w n"] unfolding bit_and_iff bit_not_iff_eq by auto
  qed
  have s3: "?s3 = s\<lparr>alt_max_fd := 3, alt_fd_list := (alt_fd_list s)[3 := ?e]\<rparr>"
    using b(1) fl by (cases "alt_fd_list s ! 3") (simp add: set_fd_def)
  have "fd_locked_from 3 0 ?s3 = Inr False"
    using fd_locked_from_iff [of ?s3 3 0] b(1,5) unfolding s3 by (auto simp: nth_list_update)
  then have "alt_file_locked 3 ?s2 = Inr (0, ?s3)" by (simp add: alt_file_locked_def)
  moreover have "dev_open (hal_devs ?s3 3) = None" by (simp add: b(6) small_dev_def)
  ultimately have "ALT_OPEN JTAG_UART_NAME flags mode s = Inr (3, ?s3)"
    using boot_find(1) [OF assms(1)] g by (simp add: ALT_OPEN_def Let_def open_done_def)
  then show ?thesis unfolding s3 .
qed

lemma update_twice: "i \<noteq> j \<Longrightarrow> xs[i := a, j := b, i := c] = xs[i := c, j := b]"
  by (metis list_update_overwrite list_update_swap)

lemma boot_open_fd:
  assumes "booting regs h s" and "fd < 3" and "flags AND ALT_FD_FLAGS_MASK = 0"
  shows "alt_open_fd fd JTAG_UART_NAME flags mode s = Inr (redirected fd flags s)"
proof -
  have "length (alt_fd_list s) = ALT_MAX_FD" using assms(1) by (simp add: booting_def)
  with assms(2) boot_open [OF assms(1,3), of mode] show ?thesis
    by (simp add: alt_open_fd_def alt_release_fd_def fd_slot_def redirected_def set_fd_def update_twice)
qed

lemma booting_redirected:
  assumes "booting regs h s" and "fd < 3" and "flags AND ALT_FD_EXCL = 0"
  shows "booting regs h (redirected fd flags s)"
proof -
  let ?t = "redirected fd flags s"
  have l: "length (alt_fd_list s) = ALT_MAX_FD" using assms(1) by (simp add: booting_def)
  have o: "owner ?t i = (if i = fd then 3 else if i = 3 then 0 else owner s i)" for i
    using l assms(2) by (auto simp: owner_def redirected_def nth_list_update)
  have f: "fd_flags (alt_fd_list ?t ! i) =
      (if i = fd then flags OR ALT_FD_DEV else if i = 3 then 0 else fd_flags (alt_fd_list s ! i))"
    if "i < ALT_MAX_FD" for i
    using l assms(2) that by (simp add: redirected_def nth_list_update)
  have "(flags OR ALT_FD_DEV) AND ALT_FD_EXCL = 0" using assms(3) by (simp add: bit.conj_disj_distrib2)
  then show ?thesis using assms(1,2) l unfolding booting_def by (simp add: o f) (auto simp: redirected_def)
qed

lemma reset_lists: "llist_at reset_links 10 [2]" "llist_at reset_links 11 []"
  by (simp_all add: reset_links_def llist_at_def)

lemma booting_reset: "booting regs h (alt_sys_init (reset_hal regs h))"
proof -
  have "rg_links (alt_sys_init (reset_hal regs h)) = alt_llist_insert 10 3 (rg_links (reset_hal regs h))"
    by (simp add: alt_sys_init_def small_dev_init_def alt_dev_reg_def alt_dev_llist_insert_def reset_hal_def)
  moreover have "llist_at (alt_llist_insert 10 3 (rg_links (reset_hal regs h))) 10 [3, 2]"
    by (rule llist_at_insert) (simp_all add: reset_hal_def reset_lists)
  moreover have "\<forall>i < 3. owner (reset_hal regs h) i \<noteq> 0" "\<forall>i \<ge> 3. i < ALT_MAX_FD \<longrightarrow> owner (reset_hal regs h) i = 0"
    by (simp_all add: owner_def reset_hal_def alt_fd_list_init_nth alt_dev_null_fd_def)
  moreover have "\<forall>i < ALT_MAX_FD. fd_flags (alt_fd_list (reset_hal regs h) ! i) = 0"
    by (simp add: reset_hal_def alt_fd_list_init_nth alt_dev_null_fd_def)
  ultimately show ?thesis
    by (simp add: booting_def alt_sys_init_def small_dev_init_def alt_dev_reg_def alt_dev_llist_insert_def owner_def)
      (simp add: reset_hal_def)
qed

text \<open>The HAL \<^verbatim>\<open>main\<close> finds.\<close>

definition boot_hal :: "'h regs \<Rightarrow> 'h \<Rightarrow> 'h hal" where
  "boot_hal regs h =
     redirected 2 O_WRONLY (redirected 0 O_RDONLY (redirected 1 O_WRONLY (alt_sys_init (reset_hal regs h))))"

lemma boot_redirect:
  "alt_io_redirect JTAG_UART_NAME JTAG_UART_NAME JTAG_UART_NAME (alt_sys_init (reset_hal regs h)) = Inr (boot_hal regs h)"
proof -
  note b0 = booting_reset [of regs h]
  have b1: "booting regs h (redirected 1 O_WRONLY (alt_sys_init (reset_hal regs h)))"
    by (rule booting_redirected [OF b0]) simp_all
  have b2: "booting regs h (redirected 0 O_RDONLY (redirected 1 O_WRONLY (alt_sys_init (reset_hal regs h))))"
    by (rule booting_redirected [OF b1]) simp_all
  show ?thesis
    using boot_open_fd [OF b0, of 1 O_WRONLY "0x1FF"] boot_open_fd [OF b1, of 0 O_RDONLY "0x1FF"]
      boot_open_fd [OF b2, of 2 O_WRONLY "0x1FF"]
    by (simp add: alt_io_redirect_def boot_hal_def)
qed

lemma boot_hal_booting: "booting regs h (boot_hal regs h)"
  unfolding boot_hal_def by (intro booting_redirected booting_reset) simp_all

lemma boot_hal_fds:
  "\<exists>p. alt_fd_list (boot_hal regs h) ! 0 = \<lparr>fd_dev = 3, fd_priv = p, fd_flags = O_RDONLY OR ALT_FD_DEV\<rparr>"
  "\<exists>p. alt_fd_list (boot_hal regs h) ! 1 = \<lparr>fd_dev = 3, fd_priv = p, fd_flags = O_WRONLY OR ALT_FD_DEV\<rparr>"
  "\<exists>p. alt_fd_list (boot_hal regs h) ! 2 = \<lparr>fd_dev = 3, fd_priv = p, fd_flags = O_WRONLY OR ALT_FD_DEV\<rparr>"
proof -
  have "length (alt_fd_list (alt_sys_init (reset_hal regs h))) = ALT_MAX_FD"
    using booting_reset [of regs h] by (simp add: booting_def)
  then show
    "\<exists>p. alt_fd_list (boot_hal regs h) ! 0 = \<lparr>fd_dev = 3, fd_priv = p, fd_flags = O_RDONLY OR ALT_FD_DEV\<rparr>"
    "\<exists>p. alt_fd_list (boot_hal regs h) ! 1 = \<lparr>fd_dev = 3, fd_priv = p, fd_flags = O_WRONLY OR ALT_FD_DEV\<rparr>"
    "\<exists>p. alt_fd_list (boot_hal regs h) ! 2 = \<lparr>fd_dev = 3, fd_priv = p, fd_flags = O_WRONLY OR ALT_FD_DEV\<rparr>"
    by (simp_all add: boot_hal_def redirected_def nth_list_update)
qed

text \<open>A write on such a stream is a write of the driver, in blocking mode.\<close>

lemma boot_write:
  assumes "alt_fd_list s ! i = \<lparr>fd_dev = 3, fd_priv = p, fd_flags = O_WRONLY OR ALT_FD_DEV\<rparr>" and "i < ALT_MAX_FD"
    and "hal_devs s 3 = small_dev regs" and "uart_small_write regs bytes (O_WRONLY OR ALT_FD_DEV) (hal_world s) = Some (r, h1)"
    and "0 \<le> r" and "length (alt_fd_list s) = ALT_MAX_FD"
  shows "ALT_WRITE (int i) bytes s = Inr (r, s\<lparr>hal_world := h1\<rparr>)"
proof -
  have "set_fd i (\<lambda>_. alt_fd_list s ! i) s = s" by (cases s) (simp add: set_fd_def)
  with assms show ?thesis
    by (simp add: ALT_WRITE_def fd_slot_def fd_device_def small_dev_def dev_call_def)
qed

lemma alt_main_boot:
  "alt_main wr irqs init_array fini_array main (c, reset_hal regs h) =
     andThen (do_ctors init_array (alt_irq_cpu_enable_interrupts wr irqs c, boot_hal regs h)) (\<lambda>m.
       andThen (main m) (\<lambda>(result, (c4, s4)).
         andThen (ALT_CLOSE (int STDOUT_FILENO) s4) (\<lambda>(_, s5). exit_program fini_array result (c4, s5))))"
  by (simp add: alt_main_def boot_redirect alt_irq_init_def)

lemma alt_main_no_return: "alt_main wr irqs init_array fini_array main m \<noteq> Inr m'"
  by (auto simp: alt_main_def exit_program_def ALT_EXIT_def andThen_Inr_iff Let_def split: prod.splits)

text \<open>C5: From reset start-up reaches the constructors and then \<^verbatim>\<open>main\<close>, whatever the hardware does, without
  having touched the UART.  The control registers are as \<^verbatim>\<open>alt_irq_init\<close> leaves them: with CSR based interrupts
  (\<open>irqs\<close>) the enable bit of \<^verbatim>\<open>mstatus\<close> has been set; without them, as in the configured system, this is
  no operation and they are unchanged.  The UART and the null device are found by their names,
  the three standard streams are the UART, each with its direction, and no other descriptor is in use, so that what
  \<^verbatim>\<open>main\<close> writes to the standard output or error is written by the driver; and the entry point never
  returns.\<close>

theorem boot_reaches_main:
  fixes regs :: "'h regs"
  shows "\<exists>c1 s1. alt_main wr irqs init_array fini_array main (c, reset_hal regs h) =
                   andThen (do_ctors init_array (c1, s1)) (\<lambda>m. andThen (main m) (\<lambda>(result, (c4, s4)).
                     andThen (ALT_CLOSE (int STDOUT_FILENO) s4) (\<lambda>(_, s5). exit_program fini_array result (c4, s5)))) \<and>
                 c1 = alt_irq_cpu_enable_interrupts wr irqs c \<and> hal_world s1 = h \<and>
                 alt_find_dev JTAG_UART_NAME (alt_dev_list s1) s1 = Inr 3 \<and>
                 alt_find_dev ''/dev/null'' (alt_dev_list s1) s1 = Inr 2 \<and>
                 (\<forall>i < ALT_MAX_FD. owner s1 i = (if i < 3 then 3 else 0)) \<and>
                 (\<forall>i \<in> {1, 2}. \<forall>bytes r h1.
                    uart_small_write regs bytes (O_WRONLY OR ALT_FD_DEV) h = Some (r, h1) \<and> 0 \<le> r \<longrightarrow>
                    ALT_WRITE (int i) bytes s1 = Inr (r, s1\<lparr>hal_world := h1\<rparr>)) \<and>
                 (\<forall>m'. alt_main wr irqs init_array fini_array main (c, reset_hal regs h) \<noteq> Inr m')"
proof -
  let ?s = "boot_hal regs h"
  have b: "booting regs h ?s" by (rule boot_hal_booting)
  have l: "length (alt_fd_list ?s) = ALT_MAX_FD" "hal_devs ?s 3 = small_dev regs" "hal_world ?s = h"
    using b by (simp_all add: booting_def)
  have "owner ?s i = (if i < 3 then 3 else 0)" if "i < ALT_MAX_FD" for i
  proof (cases "i < 3")
    case True
    then have "i = 0 \<or> i = 1 \<or> i = 2" by auto
    then show ?thesis using boot_hal_fds [of regs h] l(1) by (auto simp: owner_def)
  qed (use b that in \<open>simp add: booting_def\<close>)
  moreover have "ALT_WRITE (int i) bytes ?s = Inr (r, ?s\<lparr>hal_world := h1\<rparr>)"
    if "i \<in> {1, 2}" "uart_small_write regs bytes (O_WRONLY OR ALT_FD_DEV) h = Some (r, h1)" "0 \<le> r" for i bytes r h1
  proof -
    from that(1) boot_hal_fds [of regs h]
    obtain p where "alt_fd_list ?s ! i = \<lparr>fd_dev = 3, fd_priv = p, fd_flags = O_WRONLY OR ALT_FD_DEV\<rparr>" by blast
    from boot_write [OF this _ l(2) _ that(3) l(1)] that(1,2) l(3) show ?thesis by auto
  qed
  moreover note alt_main_boot [of wr irqs init_array fini_array main c regs h] boot_find [OF b]
  moreover have "\<forall>m'. alt_main wr irqs init_array fini_array main (c, reset_hal regs h) \<noteq> Inr m'"
    using alt_main_no_return by blast
  ultimately show ?thesis using l(3)
    by (intro exI [of _ "alt_irq_cpu_enable_interrupts wr irqs c"] exI [of _ ?s]) blast
qed

theorem boot_reaches_main_witness:
  "\<exists>s1. alt_main (\<lambda>_. 0) False [] [] (\<lambda>(c, s). andThen (ALT_WRITE 1 [65] s) (\<lambda>(r, t). Inr (r, (c, t))))
           ((\<lambda>_. 0), reset_hal fifo_regs ([], [])) =
         andThen (ALT_CLOSE (int STDOUT_FILENO) (s1\<lparr>hal_world := ([], [65])\<rparr>))
           (\<lambda>(_, s5). exit_program [] 1 ((\<lambda>_. 0), s5)) \<and>
         owner s1 1 = 3"
proof -
  let ?main = "\<lambda>(c :: csrs, s). andThen (ALT_WRITE 1 [65] s) (\<lambda>(r, t). Inr (r, (c, t)))"
  have w: "uart_small_write fifo_regs [65] (O_WRONLY OR ALT_FD_DEV) ([], []) = Some (1, ([], [65]))"
    by (simp add: uart_small_write_def small_write_loop.simps fifo_regs_def)
  from boot_reaches_main [of "\<lambda>_. 0" False "[]" "[]" ?main "\<lambda>_. 0" fifo_regs "([], [])"] obtain c1 s1
    where 1: "alt_main (\<lambda>_. 0) False [] [] ?main ((\<lambda>_. 0), reset_hal fifo_regs ([], [])) =
              andThen (do_ctors [] (c1, s1)) (\<lambda>m. andThen (?main m) (\<lambda>(result, (c4, s4)).
                andThen (ALT_CLOSE (int STDOUT_FILENO) s4) (\<lambda>(_, s5). exit_program [] result (c4, s5))))"
      "c1 = alt_irq_cpu_enable_interrupts (\<lambda>_. 0) False (\<lambda>_. 0)" "owner s1 1 = 3"
      and a: "\<forall>i \<in> {1, 2}. \<forall>bytes r h1.
                uart_small_write fifo_regs bytes (O_WRONLY OR ALT_FD_DEV) ([], []) = Some (r, h1) \<and> 0 \<le> r \<longrightarrow>
                ALT_WRITE (int i) bytes s1 = Inr (r, s1\<lparr>hal_world := h1\<rparr>)"
    by auto
  from a w have "ALT_WRITE 1 [65] s1 = Inr (1, s1\<lparr>hal_world := ([], [65])\<rparr>)" by force
  with 1 show ?thesis
    by (intro exI [of _ s1]) (simp add: do_ctors_def alt_irq_cpu_enable_interrupts_def)
qed

end
