(* ===== verification/DirectIo.thy ===== *)
theory DirectIo
  imports CharIo
begin

text \<open>
  The system calls built for direct drivers (\<^verbatim>\<open>ALT_USE_DIRECT_DRIVERS\<close> in \<^verbatim>\<open>alt_read.c\<close>, \<^verbatim>\<open>alt_write.c\<close>, \<^verbatim>\<open>alt_ioctl.c\<close>,
  \<^verbatim>\<open>alt_fstat.c\<close>, \<^verbatim>\<open>alt_isatty.c\<close>, \<^verbatim>\<open>alt_open.c\<close>, \<^verbatim>\<open>alt_close.c\<close>, \<^verbatim>\<open>alt_lseek.c\<close>): there are no descriptors beyond the three
  standard streams, and a call on one of these goes straight to the driver of its device.
\<close>

section \<open>The system calls\<close>

text \<open>
  Which streams are present (\<^verbatim>\<open>ALT_STDIN_PRESENT\<close> and so on) and the drivers of their devices.  \<open>stdio_case\<close>
  is one case of the switch over the descriptor; the case of a stream that is not present is not compiled.
\<close>

record 'w streams =
  st_in :: "'w driver option"
  st_out :: "'w driver option"
  st_err :: "'w driver option"

definition stdio_case :: "int \<Rightarrow> 'd option \<Rightarrow> int \<Rightarrow> ('d \<Rightarrow> 'r) \<Rightarrow> 'r \<Rightarrow> 'r" where
  "stdio_case n stream file k otherwise =
     (case stream of Some d \<Rightarrow> if file = n then k d else otherwise | None \<Rightarrow> otherwise)"

definition direct_read :: "'w streams \<Rightarrow> int \<Rightarrow> int \<Rightarrow> 'w hal \<Rightarrow> stuck + ((int \<times> u8 list) \<times> 'w hal)" where
  "direct_read c file len s =
     stdio_case 0 (st_in c) file (\<lambda>d. ALT_DRIVER_READ d len 0 s)
       (Inr ((-1, []), s\<lparr>rg_errno := EBADFD\<rparr>))"

definition direct_write :: "'w streams \<Rightarrow> int \<Rightarrow> u8 list \<Rightarrow> 'w hal \<Rightarrow> stuck + (int \<times> 'w hal)" where
  "direct_write c file ptr s =
     stdio_case 1 (st_out c) file (\<lambda>d. ALT_DRIVER_WRITE d ptr 0 s)
       (stdio_case 2 (st_err c) file (\<lambda>d. ALT_DRIVER_WRITE d ptr 0 s)
          (Inr (-1, s\<lparr>rg_errno := EBADFD\<rparr>)))"

definition direct_ioctl :: "'w streams \<Rightarrow> int \<Rightarrow> int \<Rightarrow> addr \<Rightarrow> 'w hal \<Rightarrow> stuck + (int \<times> 'w hal)" where
  "direct_ioctl c file req arg s =
     stdio_case 0 (st_in c) file (\<lambda>d. ALT_DRIVER_IOCTL d req arg s)
       (stdio_case 1 (st_out c) file (\<lambda>d. ALT_DRIVER_IOCTL d req arg s)
          (stdio_case 2 (st_err c) file (\<lambda>d. ALT_DRIVER_IOCTL d req arg s)
             (Inr (-1, s\<lparr>rg_errno := EBADFD\<rparr>))))"

definition direct_fstat :: "'w streams \<Rightarrow> int \<Rightarrow> nat \<Rightarrow> int \<times> nat" where
  "direct_fstat c file st_mode =
     stdio_case 0 (st_in c) file (\<lambda>_. (0, S_IFCHR))
       (stdio_case 1 (st_out c) file (\<lambda>_. (0, S_IFCHR))
          (stdio_case 2 (st_err c) file (\<lambda>_. (0, S_IFCHR)) (-1, st_mode)))"

definition direct_isatty :: "'w streams \<Rightarrow> int \<Rightarrow> int" where
  "direct_isatty c file =
     stdio_case 0 (st_in c) file (\<lambda>_. 1)
       (stdio_case 1 (st_out c) file (\<lambda>_. 1) (stdio_case 2 (st_err c) file (\<lambda>_. 1) 0))"

text \<open>No file can be opened, and none can be closed or positioned.\<close>

definition direct_open :: "string \<Rightarrow> u32 \<Rightarrow> int \<Rightarrow> 'w hal \<Rightarrow> int \<times> 'w hal" where
  "direct_open file flags mode s = (-1, s\<lparr>rg_errno := ENOSYS\<rparr>)"

definition direct_close :: "int \<Rightarrow> 'w hal \<Rightarrow> int \<times> 'w hal" where
  "direct_close fildes s = (-1, s\<lparr>rg_errno := ENOSYS\<rparr>)"

definition direct_lseek :: "int \<Rightarrow> int \<Rightarrow> int \<Rightarrow> 'w hal \<Rightarrow> int \<times> 'w hal" where
  "direct_lseek file ptr dir s = (-1, s\<lparr>rg_errno := ENOSYS\<rparr>)"

section \<open>A device and its driver\<close>

text \<open>
  The interface between the two builds: the callbacks of the device are the driver's functions with the flags of
  the descriptor, of which they look at \<^verbatim>\<open>O_NONBLOCK\<close> only.
\<close>

locale wrapped_driver =
  fixes d :: "'w driver" and dev :: "'w alt_dev"
  assumes dev_read: "dev_read dev =
      Some (\<lambda>len fd w. andThen (drv_read d len (fd_flags fd) w) (\<lambda>(r, w1). Inr (r, fd, w1)))"
    and dev_write: "dev_write dev =
      Some (\<lambda>ptr fd w. andThen (drv_write d ptr (fd_flags fd) w) (\<lambda>(r, w1). Inr (r, fd, w1)))"
    and dev_ioctl: "dev_ioctl dev =
      map_option (\<lambda>f req arg fd w. andThen (f req arg w) (\<lambda>(r, w1). Inr (r, fd, w1))) (drv_ioctl d)"
    and no_fstat: "dev_fstat dev = None"
    and read_blocking: "fl AND O_NONBLOCK = 0 \<Longrightarrow> drv_read d len fl w = drv_read d len 0 w"
    and write_blocking: "fl AND O_NONBLOCK = 0 \<Longrightarrow> drv_write d ptr fl w = drv_write d ptr 0 w"
begin

lemma dev_call_driver:
  "dev_call i (\<lambda>fd w. andThen (f (fd_flags fd) w) (\<lambda>(r, w1). Inr (r, fd, w1))) s =
   andThen (f (fd_flags (alt_fd_list s ! i)) (hal_world s)) (\<lambda>(r, w). Inr (r, s\<lparr>hal_world := w\<rparr>))"
proof -
  have "set_fd i (\<lambda>_. alt_fd_list s ! i) s = s" by (simp add: set_fd_def)
  then show ?thesis by (simp add: dev_call_def andThen_assoc split_def)
qed

lemma alt_read:
  assumes "fd < ALT_MAX_FD" "owner s fd \<noteq> 0" "hal_devs s (owner s fd) = dev"
    "fd_flags (alt_fd_list s ! fd) AND O_ACCMODE \<noteq> O_WRONLY" "fd_flags (alt_fd_list s ! fd) AND O_NONBLOCK = 0"
  shows "ALT_READ (int fd) len s = andThen (ALT_DRIVER_READ d len 0 s) (\<lambda>((r, bytes), s1).
           if r < 0 then Inr ((-1, bytes), s1\<lparr>rg_errno := - r\<rparr>) else Inr ((r, bytes), s1))"
  using assms(4) fd_device_uart [OF assms(2,3,1)] dev_call_driver [of fd "drv_read d len" s]
    read_blocking [OF assms(5)]
  by (simp add: ALT_READ_def fd_slot_nat [OF assms(1)] dev_read ALT_DRIVER_READ_def)

lemma alt_write:
  assumes "fd < ALT_MAX_FD" "owner s fd \<noteq> 0" "hal_devs s (owner s fd) = dev"
    "fd_flags (alt_fd_list s ! fd) AND O_ACCMODE \<noteq> O_RDONLY" "fd_flags (alt_fd_list s ! fd) AND O_NONBLOCK = 0"
  shows "ALT_WRITE (int fd) ptr s = andThen (ALT_DRIVER_WRITE d ptr 0 s) (\<lambda>(r, s1).
           if r < 0 then Inr (-1, s1\<lparr>rg_errno := - r\<rparr>) else Inr (r, s1))"
  using assms(4) fd_device_uart [OF assms(2,3,1)] dev_call_driver [of fd "drv_write d ptr" s]
    write_blocking [OF assms(5)]
  by (simp add: ALT_WRITE_def fd_slot_nat [OF assms(1)] dev_write ALT_DRIVER_WRITE_def)

lemma alt_ioctl:
  assumes "fd < ALT_MAX_FD" "owner s fd \<noteq> 0" "hal_devs s (owner s fd) = dev" "drv_ioctl d = Some f"
    "req \<notin> {TIOCEXCL, TIOCNXCL}"
  shows "ALT_IOCTL (int fd) req arg s = andThen (ALT_DRIVER_IOCTL d req arg s) (\<lambda>(r, s1).
           Inr (r, if r < 0 then s1\<lparr>rg_errno := - r\<rparr> else s1))"
  using assms(5) fd_device_uart [OF assms(2,3,1)] dev_call_driver [of fd "\<lambda>_. f req arg" s]
  by (simp add: ALT_IOCTL_def fd_slot_nat [OF assms(1)] dev_ioctl ALT_DRIVER_IOCTL_def assms(4))

lemma alt_status:
  assumes "fd < ALT_MAX_FD" "owner s fd \<noteq> 0" "hal_devs s (owner s fd) = dev"
  shows "ALT_FSTAT (int fd) m s = Inr ((0, S_IFCHR), s)" "ALT_ISATTY (int fd) s = Inr (1, s)"
  using fd_device_uart [OF assms(2,3,1)]
  by (simp_all add: ALT_FSTAT_def ALT_ISATTY_def fd_slot_nat [OF assms(1)] no_fstat)

end

text \<open>Both drivers of the UART look at \<^verbatim>\<open>O_NONBLOCK\<close> only.\<close>

lemma read_loop_flags:
  "fl AND O_NONBLOCK = 0 \<Longrightarrow> read_loop space fl es s = read_loop space 0 es s"
proof (induction space fl es s rule: read_loop.induct)
  case (1 space fl es s)
  obtain i b space1 es1 s1 where r: "read_chunks space es s = (i, b, space1, es1, s1)" by (rule prod_cases5)
  show ?case
  proof (cases "0 < space \<and> b = []")
    case False
    then show ?thesis
      by (subst read_loop.simps, subst (2) read_loop.simps) (auto simp: r Let_def)
  next
    case True
    then show ?thesis
      by (subst read_loop.simps, subst (2) read_loop.simps)
        (auto simp: r Let_def "1.prems" "1.IH" [OF _ r [symmetric] refl refl refl refl] split: sum.split)
  qed
qed

lemma write_loop_flags:
  "fl AND O_NONBLOCK = 0 \<Longrightarrow> write_loop regs prev ptr fl es s = write_loop regs prev ptr 0 es s"
proof (induction regs prev ptr fl es s rule: write_loop.induct)
  case (1 regs prev ptr fl es s)
  obtain out b es1 s1 where w: "write_chunks prev ptr es s = (out, b, es1, s1)" by (rule prod_cases4)
  show ?case
  proof (cases "b = []")
    case True
    then show ?thesis by (subst write_loop.simps, subst (2) write_loop.simps) (auto simp: w Let_def)
  next
    case False
    then show ?thesis
      by (subst write_loop.simps, subst (2) write_loop.simps)
        (auto simp: w Let_def "1.prems" "1.IH" [OF w [symmetric] refl refl refl refl refl] split: sum.split)
  qed
qed

lemma small_read_loop_flags:
  "small_read_loop regs space fl acc h = Some r \<Longrightarrow> fl AND O_NONBLOCK = 0 \<longleftrightarrow> fl' AND O_NONBLOCK = 0 \<Longrightarrow>
   small_read_loop regs space fl' acc h = Some r"
proof (induction rule: small_read_loop.raw_induct [rotated, consumes 1, case_names step])
  case (step loop regs space fl acc h r)
  obtain v h1 where v: "iord_data regs h = (v, h1)" by fastforce
  obtain bs h2 where r: "r = (bs, h2)" by fastforce
  show ?case
    using step.hyps step.prems step.IH [of regs space fl "acc @ [data_byte v]" h1 r] step.IH [of regs space fl acc h1 r]
    by (subst small_read_loop.simps) (auto simp: v r split: if_splits)
qed

lemma small_read_flags:
  assumes "fl AND O_NONBLOCK = 0"
  shows "uart_small_read regs space fl h = uart_small_read regs space 0 h"
proof -
  have "fl AND O_NONBLOCK = 0 \<longleftrightarrow> (0 :: u32) AND O_NONBLOCK = 0" using assms by simp
  then have "small_read_loop regs space fl [] h = small_read_loop regs space 0 [] h"
    using small_read_loop_flags [of regs space fl "[]" h _ 0] small_read_loop_flags [of regs space 0 "[]" h _ fl]
    by (metis not_None_eq)
  with assms show ?thesis by (simp add: uart_small_read_def)
qed

lemma uart_read_flags:
  assumes "fl AND O_NONBLOCK = 0"
  shows "uart_read regs space fl es s = uart_read regs space 0 es s"
  using assms by (simp add: uart_read_def read_loop_flags [OF assms])

lemma uart_write_flags:
  assumes "fl AND O_NONBLOCK = 0"
  shows "uart_write regs ptr fl es s = uart_write regs ptr 0 es s"
  using assms by (simp add: uart_write_def write_loop_flags [OF assms])

interpretation uart: wrapped_driver "uart_driver regs" "uart_dev regs" for regs
proof
  fix fl :: u32 and len ptr w
  assume fl: "fl AND O_NONBLOCK = 0"
  show "drv_read (uart_driver regs) len fl w = drv_read (uart_driver regs) len 0 w"
    by (simp add: uart_driver_def uart_read_flags [OF fl])
  show "drv_write (uart_driver regs) ptr fl w = drv_write (uart_driver regs) ptr 0 w"
    by (simp add: uart_driver_def uart_write_flags [OF fl])
qed (simp_all add: uart_driver_def uart_dev_def uart_read_fd_def uart_write_fd_def uart_ioctl_fd_def
      andThen_assoc split_def Let_def fun_eq_iff)

lemma returned_andThen:
  "andThen (returned (map_option Inr m)) (\<lambda>(r, h1). Inr (r, x, h1)) = returned (map_option (\<lambda>(r, h1). Inr (r, x, h1)) m)"
  by (cases m) auto

interpretation small: wrapped_driver "small_driver regs" "small_dev regs" for regs
proof
  fix fl :: u32 and len w
  assume fl: "fl AND O_NONBLOCK = 0"
  show "drv_read (small_driver regs) len fl w = drv_read (small_driver regs) len 0 w"
    by (simp add: small_driver_def small_read_flags [OF fl])
qed (simp_all add: small_driver_def small_dev_def returned_andThen uart_small_write_def)

section \<open>Properties\<close>

text \<open>The standard streams as they are after start-up: open for what they are, and blocking.\<close>

definition streams_on :: "'w alt_dev \<Rightarrow> 'w hal \<Rightarrow> bool" where
  "streams_on dev s \<longleftrightarrow>
     (\<forall>fd < 3. owner s fd \<noteq> 0 \<and> hal_devs s (owner s fd) = dev \<and> fd_flags (alt_fd_list s ! fd) AND O_NONBLOCK = 0) \<and>
     fd_flags (alt_fd_list s ! 0) AND O_ACCMODE \<noteq> O_WRONLY \<and>
     (\<forall>fd \<in> {1, 2}. fd_flags (alt_fd_list s ! fd) AND O_ACCMODE \<noteq> O_RDONLY)"

text \<open>C25: On the standard streams the system calls with descriptors and the ones built for direct drivers do the
  same to the UART and return the same, but for errors: with descriptors a call returns -1 (ioctl the error) and
  sets errno, and with direct drivers read, write and ioctl return the negative error number of the driver and
  leave errno alone.  This does not include requests for exclusive access, which direct drivers do not know.\<close>

theorem direct_streams_agree:
  assumes "streams_on (uart_dev regs) s" and "d = uart_driver regs"
    and "c = \<lparr>st_in = Some d, st_out = Some d, st_err = Some d\<rparr>" and "fd < 3"
  shows "ALT_READ 0 len s = andThen (direct_read c 0 len s) (\<lambda>((r, bytes), s1).
           if r < 0 then Inr ((-1, bytes), s1\<lparr>rg_errno := - r\<rparr>) else Inr ((r, bytes), s1)) \<and>
         (0 < fd \<longrightarrow> ALT_WRITE (int fd) ptr s = andThen (direct_write c (int fd) ptr s) (\<lambda>(r, s1).
           if r < 0 then Inr (-1, s1\<lparr>rg_errno := - r\<rparr>) else Inr (r, s1))) \<and>
         (req \<notin> {TIOCEXCL, TIOCNXCL} \<longrightarrow> ALT_IOCTL (int fd) req arg s =
           andThen (direct_ioctl c (int fd) req arg s) (\<lambda>(r, s1). Inr (r, if r < 0 then s1\<lparr>rg_errno := - r\<rparr> else s1))) \<and>
         ALT_FSTAT (int fd) m s = Inr (direct_fstat c (int fd) m, s) \<and>
         ALT_ISATTY (int fd) s = Inr (direct_isatty c (int fd), s)"
proof -
  have o: "owner s i \<noteq> 0" "hal_devs s (owner s i) = uart_dev regs" "fd_flags (alt_fd_list s ! i) AND O_NONBLOCK = 0"
    "i < ALT_MAX_FD" if "i < 3" for i using assms(1) that by (auto simp: streams_on_def)
  have cases: "fd = 0 \<or> fd = 1 \<or> fd = 2" using assms(4) by auto
  have "ALT_READ 0 len s = andThen (direct_read c 0 len s) (\<lambda>((r, bytes), s1).
           if r < 0 then Inr ((-1, bytes), s1\<lparr>rg_errno := - r\<rparr>) else Inr ((r, bytes), s1))"
    using uart.alt_read [of 0 s regs len] o [of 0] assms(1)
    by (simp add: direct_read_def stdio_case_def assms(2,3) streams_on_def)
  moreover have "0 < fd \<longrightarrow> ALT_WRITE (int fd) ptr s = andThen (direct_write c (int fd) ptr s) (\<lambda>(r, s1).
           if r < 0 then Inr (-1, s1\<lparr>rg_errno := - r\<rparr>) else Inr (r, s1))"
    using uart.alt_write [of fd s regs ptr] o [OF assms(4)] cases assms(1)
    by (auto simp: direct_write_def stdio_case_def assms(2,3) streams_on_def)
  moreover have "req \<notin> {TIOCEXCL, TIOCNXCL} \<longrightarrow> ALT_IOCTL (int fd) req arg s =
           andThen (direct_ioctl c (int fd) req arg s) (\<lambda>(r, s1). Inr (r, if r < 0 then s1\<lparr>rg_errno := - r\<rparr> else s1))"
    using uart.alt_ioctl [of fd s regs _ req arg] o [OF assms(4)] cases
    by (auto simp: direct_ioctl_def stdio_case_def assms(2,3) uart_driver_def)
  moreover have "ALT_FSTAT (int fd) m s = Inr (direct_fstat c (int fd) m, s)"
    using uart.alt_status [of fd s regs] o [OF assms(4)] cases
    by (auto simp: direct_fstat_def stdio_case_def assms(3))
  moreover have "ALT_ISATTY (int fd) s = Inr (direct_isatty c (int fd), s)"
    using uart.alt_status [of fd s regs] o [OF assms(4)] cases
    by (auto simp: direct_isatty_def stdio_case_def assms(3))
  ultimately show ?thesis by blast
qed

definition hal_streams :: "((u8 list \<times> u8 list) \<times> uart_access list) uart_world hal" where
  "hal_streams = hal_uart\<lparr>alt_fd_list := (alt_fd_list hal_uart)[2 := \<lparr>fd_dev = 3, fd_priv = 0, fd_flags = O_WRONLY\<rparr>]\<rparr>"

lemma all_less_3: "(\<forall>i < (3 :: nat). P i) \<longleftrightarrow> P 0 \<and> P 1 \<and> P 2"
  by (auto simp: numeral_3_eq_3 less_Suc_eq numeral_2_eq_2)

lemma hal_streams_on: "streams_on (uart_dev (logged fifo_regs)) hal_streams"
  by (simp add: streams_on_def hal_streams_def hal_uart_def owner_def alt_fd_list_init_nth alt_dev_null_fd_def
      all_less_3)

theorem direct_streams_agree_witness:
  "\<exists>c. ALT_WRITE (int 1) [7] hal_streams = andThen (direct_write c (int 1) [7] hal_streams) (\<lambda>(r, s1).
         if r < 0 then Inr (-1, s1\<lparr>rg_errno := - r\<rparr>) else Inr (r, s1)) \<and>
       ALT_ISATTY (int 1) hal_streams = Inr (1, hal_streams)"
  using direct_streams_agree [OF hal_streams_on refl refl, of 1]
  by (auto simp: direct_isatty_def stdio_case_def)

end
