(* ===== verification/Console.thy ===== *)
theory Console
  imports Boot DirectIo
begin

text \<open>
  The standard streams of the running system as a console: what a program writes and reads on them, from start-up
  through the system calls and the polled driver to the registers of the UART.
\<close>

section \<open>Operations on the console\<close>

datatype console_op = Put nat "u8 list" | Get nat

text \<open>A program that does these operations; a result is the one of the call, with the bytes read.\<close>

fun run_console :: "console_op list \<Rightarrow> 'w hal \<Rightarrow> stuck + ((int \<times> u8 list) list \<times> 'w hal)" where
  "run_console [] s = Inr ([], s)"
| "run_console (Put fd bytes # ops) s =
     andThen (ALT_WRITE (int fd) bytes s) (\<lambda>(r, s1).
     andThen (run_console ops s1) (\<lambda>(rs, s2). Inr ((r, []) # rs, s2)))"
| "run_console (Get n # ops) s =
     andThen (ALT_READ 0 (int n) s) (\<lambda>((r, bytes), s1).
     andThen (run_console ops s1) (\<lambda>(rs, s2). Inr ((r, bytes) # rs, s2)))"

fun console_ok :: "console_op \<Rightarrow> bool" where
  "console_ok (Put fd bytes) \<longleftrightarrow> fd \<in> {1, 2}"
| "console_ok (Get n) \<longleftrightarrow> 0 < n"

text \<open>
  What a driver promises of one operation carries over to all sequences: \<open>ok\<close> is an invariant, \<open>result\<close> and
  \<open>accepted\<close> tell what an operation may return and which bytes it has put out, and \<open>moves s s' got put\<close> what it
  does to the driver when it reads the bytes \<open>got\<close> and puts out \<open>put\<close>.  A call may only fail to return where
  \<open>wait\<close> says so.
\<close>

locale console_driver =
  fixes ok :: "'w hal \<Rightarrow> bool" and wait :: bool
    and result :: "console_op \<Rightarrow> int \<times> u8 list \<Rightarrow> bool" and accepted :: "console_op \<Rightarrow> int \<times> u8 list \<Rightarrow> u8 list"
    and moves :: "'w hal \<Rightarrow> 'w hal \<Rightarrow> u8 list \<Rightarrow> u8 list \<Rightarrow> bool"
  assumes put: "ok s \<Longrightarrow> fd \<in> {1, 2} \<Longrightarrow>
      (case ALT_WRITE (int fd) out s of Inl e \<Rightarrow> e = Spins \<and> wait
       | Inr (r, s') \<Rightarrow> ok s' \<and> result (Put fd out) (r, []) \<and> moves s s' [] (accepted (Put fd out) (r, [])))"
    and get: "ok s \<Longrightarrow> 0 < n \<Longrightarrow>
      (case ALT_READ 0 (int n) s of Inl e \<Rightarrow> e = Spins \<and> wait
       | Inr ((r, bytes), s') \<Rightarrow> ok s' \<and> result (Get n) (r, bytes) \<and> moves s s' bytes [])"
    and get_accepts: "accepted (Get n) res = []"
    and moves_none: "ok s \<Longrightarrow> moves s s [] []"
    and moves_trans: "moves s t b p \<Longrightarrow> moves t u c q \<Longrightarrow> moves s u (b @ c) (p @ q)"
begin

lemma runs:
  "ok s \<Longrightarrow> list_all console_ok ops \<Longrightarrow>
   (case run_console ops s of Inl e \<Rightarrow> e = Spins \<and> wait
    | Inr (rs, s') \<Rightarrow> ok s' \<and> list_all2 result ops rs \<and>
        moves s s' (concat (map snd rs)) (concat (map2 accepted ops rs)))"
proof (induction ops arbitrary: s)
  case Nil
  then show ?case by (simp add: moves_none)
next
  case (Cons a ops)
  then have ops: "list_all console_ok ops" by simp
  show ?case
  proof (cases a)
    case (Put fd out)
    with Cons.prems have fd: "fd \<in> {1, 2}" by simp
    show ?thesis
    proof (cases "ALT_WRITE (int fd) out s")
      case (Inl e)
      with put [OF Cons.prems(1) fd, of out] show ?thesis by (simp add: Put)
    next
      case (Inr p)
      obtain r s1 where p: "p = (r, s1)" by fastforce
      from put [OF Cons.prems(1) fd, of out]
      have 1: "ok s1" "result (Put fd out) (r, [])" "moves s s1 [] (accepted (Put fd out) (r, []))"
        by (simp_all add: Inr p)
      from Cons.IH [OF 1(1) ops] moves_trans [OF 1(3)] 1(2) show ?thesis
        by (auto simp: Put Inr p split: sum.splits)
    qed
  next
    case (Get n)
    with Cons.prems have n: "0 < n" by simp
    show ?thesis
    proof (cases "ALT_READ 0 (int n) s")
      case (Inl e)
      with get [OF Cons.prems(1) n] show ?thesis by (simp add: Get)
    next
      case (Inr p)
      obtain r bytes s1 where p: "p = ((r, bytes), s1)" by (metis prod.exhaust)
      from get [OF Cons.prems(1) n]
      have 1: "ok s1" "result (Get n) (r, bytes)" "moves s s1 bytes []" by (simp_all add: Inr p)
      from Cons.IH [OF 1(1) ops] moves_trans [OF 1(3)] 1(2) show ?thesis
        by (auto simp: Get Inr p get_accepts split: sum.splits)
    qed
  qed
qed

end

text \<open>What the polled driver promises of each result, and what it puts out: all of it.\<close>

fun console_result :: "console_op \<Rightarrow> int \<times> u8 list \<Rightarrow> bool" where
  "console_result (Put fd out) (r, bytes) \<longleftrightarrow> r = int (length out) \<and> bytes = []"
| "console_result (Get n) (r, bytes) \<longleftrightarrow> bytes \<noteq> [] \<and> length bytes \<le> n \<and> r = int (length bytes)"

fun console_out :: "console_op \<Rightarrow> u8 list" where
  "console_out (Put fd bytes) = bytes"
| "console_out (Get n) = []"

section \<open>One operation\<close>

lemma streams_world: "streams_on dev (s\<lparr>hal_world := w\<rparr>) \<longleftrightarrow> streams_on dev s"
  by (simp add: streams_on_def owner_def)

lemma console_put:
  assumes "streams_on (small_dev (logged regs)) s" and "fd \<in> {1, 2}" and "hal_world s = (h, l)"
    and "\<forall>h. \<exists>k. polls (iord_control regs) CONTROL_WSPACE_MSK k h"
  shows "\<exists>h' m. ALT_WRITE (int fd) bytes s = Inr (int (length bytes), s\<lparr>hal_world := (h', l @ m)\<rparr>) \<and>
           sent m = bytes \<and> received m = []"
proof -
  have fd: "fd < 3" "fd < ALT_MAX_FD" using assms(2) by auto
  with assms(1,2) have s: "owner s fd \<noteq> 0" "hal_devs s (owner s fd) = small_dev (logged regs)"
    "fd_flags (alt_fd_list s ! fd) AND O_NONBLOCK = 0" "fd_flags (alt_fd_list s ! fd) AND O_ACCMODE \<noteq> O_RDONLY"
    unfolding streams_on_def by blast+
  from small_write_loop_total [of regs bytes h l] assms(4) obtain h' m
    where "small_write_loop (logged regs) bytes (h, l) = Some (h', l @ m)" "sent m = bytes" "received m = []" by auto
  with small.alt_write [OF fd(2) s(1,2,4,3), of bytes] assms(3) show ?thesis
    by (auto simp: ALT_DRIVER_WRITE_def small_driver_def uart_small_write_def)
qed

lemma console_get:
  assumes "streams_on (small_dev (logged regs)) s" and "0 < n" and "hal_world s = (h, l)"
    and "\<forall>h. \<exists>k. polls (iord_data regs) DATA_RVALID_MSK k h"
  shows "\<exists>h' m. ALT_READ 0 (int n) s = Inr ((int (length (received m)), received m), s\<lparr>hal_world := (h', l @ m)\<rparr>) \<and>
           sent m = [] \<and> received m \<noteq> [] \<and> length (received m) \<le> n"
proof -
  from assms(1) have s: "owner s 0 \<noteq> 0" "hal_devs s (owner s 0) = small_dev (logged regs)"
    "fd_flags (alt_fd_list s ! 0) AND O_NONBLOCK = 0" "fd_flags (alt_fd_list s ! 0) AND O_ACCMODE \<noteq> O_WRONLY"
    unfolding streams_on_def by auto
  have "(0 :: u32) AND O_NONBLOCK \<noteq> 0 \<or> (\<forall>h. \<exists>k. polls (iord_data regs) DATA_RVALID_MSK k h)" using assms(4) by simp
  from small_read_loop_total [OF this, of "int n" "[]" h l] assms(2) obtain h' m
    where "small_read_loop (logged regs) (int n) 0 [] (h, l) = Some (received m, (h', l @ m))"
      "sent m = []" "received m \<noteq> []" "length (received m) \<le> n" by (auto simp: read_ends_def)
  with small.alt_read [of 0 s "logged regs" "int n", OF _ s(1,2,4,3)] assms(3) show ?thesis
    by (auto simp: ALT_DRIVER_READ_def small_driver_def uart_small_read_def)
qed

section \<open>The streams of the small C library\<close>

text \<open>
  With picolibc the three streams are one, which puts characters to the standard output and gets them from the
  standard input (\<^verbatim>\<open>alt_io_redirect.c\<close>).  \<open>c0\<close> is what the variable of \<^verbatim>\<open>getc_wrapper\<close> happens to
  hold.
\<close>

definition putc_wrapper :: "u8 \<Rightarrow> 'w hal \<Rightarrow> stuck + (int \<times> 'w hal)" where
  "putc_wrapper c s = ALT_WRITE (int STDOUT_FILENO) [c] s"

definition getc_wrapper :: "u8 \<Rightarrow> 'w hal \<Rightarrow> stuck + (u8 \<times> 'w hal)" where
  "getc_wrapper c0 s =
     andThen (ALT_READ (int STDIN_FILENO) 1 s) (\<lambda>((r, bytes), s1).
       Inr (case bytes of [] \<Rightarrow> c0 | c # _ \<Rightarrow> c, s1))"

lemma putc_console:
  assumes "streams_on (small_dev (logged regs)) s" and "hal_world s = (h, l)"
    and "\<forall>h. \<exists>k. polls (iord_control regs) CONTROL_WSPACE_MSK k h"
  shows "\<exists>h' m. putc_wrapper c s = Inr (1, s\<lparr>hal_world := (h', l @ m)\<rparr>) \<and> sent m = [c] \<and> received m = []"
  using console_put [OF assms(1) _ assms(2,3), of 1 "[c]"] by (simp add: putc_wrapper_def)

lemma getc_console:
  assumes "streams_on (small_dev (logged regs)) s" and "hal_world s = (h, l)"
    and "\<forall>h. \<exists>k. polls (iord_data regs) DATA_RVALID_MSK k h"
  shows "\<exists>c h' m. getc_wrapper c0 s = Inr (c, s\<lparr>hal_world := (h', l @ m)\<rparr>) \<and> sent m = [] \<and> received m = [c]"
proof -
  from console_get [OF assms(1) _ assms(2,3), of 1] obtain h' m
    where m: "ALT_READ 0 1 s = Inr ((int (length (received m)), received m), s\<lparr>hal_world := (h', l @ m)\<rparr>)"
      "sent m = []" "received m \<noteq> []" "length (received m) \<le> 1" by auto
  then obtain c where "received m = [c]" by (cases "received m") auto
  with m show ?thesis by (intro exI [of _ c] exI [of _ h'] exI [of _ m]) (simp add: getc_wrapper_def)
qed

text \<open>A read that fails is not noticed: the character is whatever was there.\<close>

lemma getc_hides_error:
  "ALT_READ (int STDIN_FILENO) 1 s = Inr ((r, []), s1) \<Longrightarrow> getc_wrapper c0 s = Inr (c0, s1)"
  by (simp add: getc_wrapper_def)

section \<open>Any sequence of operations\<close>

definition polled_ok :: "'h regs \<Rightarrow> ('h \<times> uart_access list) hal \<Rightarrow> bool" where
  "polled_ok regs s \<longleftrightarrow> streams_on (small_dev (logged regs)) s \<and>
     (\<forall>h. \<exists>k. polls (iord_control regs) CONTROL_WSPACE_MSK k h) \<and> (\<forall>h. \<exists>k. polls (iord_data regs) DATA_RVALID_MSK k h)"

definition polled_moves ::
    "('h \<times> uart_access list) hal \<Rightarrow> ('h \<times> uart_access list) hal \<Rightarrow> u8 list \<Rightarrow> u8 list \<Rightarrow> bool" where
  "polled_moves s s' got put \<longleftrightarrow>
     (\<exists>h' m. s' = s\<lparr>hal_world := (h', snd (hal_world s) @ m)\<rparr> \<and> received m = got \<and> sent m = put)"

lemma polled_movesI:
  "s' = s\<lparr>hal_world := (h', snd (hal_world s) @ m)\<rparr> \<Longrightarrow> received m = got \<Longrightarrow> sent m = put \<Longrightarrow> polled_moves s s' got put"
  unfolding polled_moves_def by blast

lemma polled_moves_trans: "polled_moves s t b p \<Longrightarrow> polled_moves t u c q \<Longrightarrow> polled_moves s u (b @ c) (p @ q)"
proof -
  assume "polled_moves s t b p" "polled_moves t u c q"
  then obtain h1 m1 h2 m2 where "t = s\<lparr>hal_world := (h1, snd (hal_world s) @ m1)\<rparr>" "received m1 = b" "sent m1 = p"
    "u = t\<lparr>hal_world := (h2, snd (hal_world t) @ m2)\<rparr>" "received m2 = c" "sent m2 = q"
    unfolding polled_moves_def by blast
  then show ?thesis by (intro polled_movesI [where h' = h2 and m = "m1 @ m2"]) simp_all
qed

lemma polled_put:
  assumes "polled_ok regs s" "fd \<in> {1, 2}"
  shows "\<exists>s'. ALT_WRITE (int fd) out s = Inr (int (length out), s') \<and> polled_ok regs s' \<and> polled_moves s s' [] out"
proof -
  from assms console_put [of regs s fd "fst (hal_world s)" "snd (hal_world s)" out] obtain h' m
    where "ALT_WRITE (int fd) out s = Inr (int (length out), s\<lparr>hal_world := (h', snd (hal_world s) @ m)\<rparr>)"
      "sent m = out" "received m = []" by (auto simp: polled_ok_def)
  with assms(1) show ?thesis by (auto simp: polled_ok_def streams_world intro!: polled_movesI)
qed

lemma polled_get:
  assumes "polled_ok regs s" "0 < n"
  shows "\<exists>bytes s'. ALT_READ 0 (int n) s = Inr ((int (length bytes), bytes), s') \<and> bytes \<noteq> [] \<and> length bytes \<le> n \<and>
    polled_ok regs s' \<and> polled_moves s s' bytes []"
proof -
  from assms console_get [of regs s n "fst (hal_world s)" "snd (hal_world s)"] obtain h' m
    where "ALT_READ 0 (int n) s = Inr ((int (length (received m)), received m), s\<lparr>hal_world := (h', snd (hal_world s) @ m)\<rparr>)"
      "sent m = []" "received m \<noteq> []" "length (received m) \<le> n" by (auto simp: polled_ok_def)
  with assms(1) show ?thesis by (auto simp: polled_ok_def streams_world intro!: polled_movesI)
qed

interpretation polled: console_driver "polled_ok regs" False console_result "\<lambda>a _. console_out a" polled_moves for regs
proof (unfold_locales, goal_cases)
  case (1 s fd out)
  then show ?case using polled_put [of regs s fd out] by auto
next
  case (2 s n)
  then show ?case using polled_get [of regs s n] by auto
next
  case (4 s)
  show ?case by (rule polled_movesI [where h' = "fst (hal_world s)" and m = "[]"]) simp_all
next
  case (5 s t b p u c q)
  then show ?case by (rule polled_moves_trans)
qed simp

lemma map2_fst: "length xs = length ys \<Longrightarrow> map2 (\<lambda>x _. f x) xs ys = map f xs"
  by (induction xs ys rule: list_induct2) simp_all

lemma console_runs:
  assumes "\<forall>h. \<exists>k. polls (iord_control regs) CONTROL_WSPACE_MSK k h"
    and "\<forall>h. \<exists>k. polls (iord_data regs) DATA_RVALID_MSK k h"
    and "streams_on (small_dev (logged regs)) s" "hal_world s = (h, l)" "list_all console_ok ops"
  shows "\<exists>rs h' m. run_console ops s = Inr (rs, s\<lparr>hal_world := (h', l @ m)\<rparr>) \<and>
    list_all2 console_result ops rs \<and> sent m = concat (map console_out ops) \<and> received m = concat (map snd rs)"
proof -
  have "polled_ok regs s" using assms(1-3) by (simp add: polled_ok_def)
  from polled.runs [OF this assms(5)] obtain rs h' m
    where r: "run_console ops s = Inr (rs, s\<lparr>hal_world := (h', snd (hal_world s) @ m)\<rparr>)"
      "list_all2 console_result ops rs" "received m = concat (map snd rs)"
      "sent m = concat (map2 (\<lambda>a _. console_out a) ops rs)"
    by (auto simp: polled_moves_def split: sum.splits)
  with list_all2_lengthD [OF r(2)] assms(4) show ?thesis
    by (intro exI [of _ rs] exI [of _ h'] exI [of _ m]) (simp add: map2_fst)
qed

section \<open>The console after start-up\<close>

lemma boot_streams: "streams_on (small_dev regs) (boot_hal regs h)"
proof -
  from boot_hal_booting [of regs h] have l: "length (alt_fd_list (boot_hal regs h)) = ALT_MAX_FD"
    "hal_devs (boot_hal regs h) 3 = small_dev regs" by (simp_all add: booting_def)
  have o: "owner (boot_hal regs h) i = 3" if "i \<in> {0, 1, 2}" for i
    using boot_hal_fds [of regs h] that l(1) by (auto simp: owner_def)
  have f: "fd_flags (alt_fd_list (boot_hal regs h) ! 0) = O_RDONLY OR ALT_FD_DEV"
    "fd_flags (alt_fd_list (boot_hal regs h) ! 1) = O_WRONLY OR ALT_FD_DEV"
    "fd_flags (alt_fd_list (boot_hal regs h) ! 2) = O_WRONLY OR ALT_FD_DEV"
    using boot_hal_fds [of regs h] by auto
  show ?thesis unfolding streams_on_def all_less_3 by (simp add: o l(2) f f [unfolded One_nat_def])
qed

lemma boot_hal_inv: "hal_inv (boot_hal regs h)"
proof -
  from boot_hal_booting [of regs h] have b: "length (alt_fd_list (boot_hal regs h)) = ALT_MAX_FD"
    "alt_max_fd (boot_hal regs h) \<in> {-1, 3}" "\<forall>i < 3. owner (boot_hal regs h) i \<noteq> 0"
    "\<forall>i \<ge> 3. i < ALT_MAX_FD \<longrightarrow> owner (boot_hal regs h) i = 0" by (simp_all add: booting_def)
  then have "fd_inv (boot_hal regs h)" by (auto simp: fd_inv_def owner_def)
  moreover have "\<forall>d. driver_ok (hal_devs (boot_hal regs h) d)"
    by (simp add: boot_hal_def redirected_def alt_sys_init_def small_dev_init_def alt_dev_reg_def
        alt_dev_llist_insert_def reset_hal_def small_dev_ok alt_dev_null_ok)
  ultimately show ?thesis by (simp add: hal_inv_def)
qed

end
