(* ===== verification/SystemMap.thy ===== *)
theory SystemMap
  imports HeapMem FpgaApi Console
begin

text \<open>
  The configured system (\<^verbatim>\<open>system.h\<close>, \<^verbatim>\<open>linker.h\<close>): where memory and devices are, where the heap
  lies, the registers of the UART on the bus, and the polled driver with the buffers of its callers in memory.  The
  bus itself is a parameter.
\<close>

section \<open>Addresses\<close>

text \<open>Memory or registers from a base address, with a number of bytes.\<close>

record area =
  area_base :: u32
  area_span :: u32

definition in_area :: "area \<Rightarrow> u32 \<Rightarrow> bool" where
  "in_area a x \<longleftrightarrow> unat (area_base a) \<le> unat x \<and> unat x < unat (area_base a) + unat (area_span a)"

definition HYPERRAM_CONTROLLER_0_S0 :: area where
  "HYPERRAM_CONTROLLER_0_S0 = \<lparr>area_base = 0x0, area_span = 16777216\<rparr>"

definition ONCHIP_MEMORY2_0 :: area where
  "ONCHIP_MEMORY2_0 = \<lparr>area_base = 0x1000000, area_span = 1024\<rparr>"

definition JTAG_UART_0 :: area where
  "JTAG_UART_0 = \<lparr>area_base = 0x1000400, area_span = 8\<rparr>"

definition HYPERRAM_CONTROLLER_0_CSR :: area where
  "HYPERRAM_CONTROLLER_0_CSR = \<lparr>area_base = 0x1001000, area_span = 4096\<rparr>"

text \<open>The regions of the linker: code starts at the reset address, everything else comes behind.\<close>

definition RESET_REGION :: area where
  "RESET_REGION = \<lparr>area_base = 0x0, area_span = 32\<rparr>"

definition HYPERRAM_CONTROLLER_0_S0_REGION :: area where
  "HYPERRAM_CONTROLLER_0_S0_REGION = \<lparr>area_base = 0x20, area_span = 16777184\<rparr>"

definition ONCHIP_MEMORY2_0_REGION :: area where
  "ONCHIP_MEMORY2_0_REGION = \<lparr>area_base = 0x1000000, area_span = 1024\<rparr>"

lemmas area_defs = HYPERRAM_CONTROLLER_0_S0_def ONCHIP_MEMORY2_0_def JTAG_UART_0_def HYPERRAM_CONTROLLER_0_CSR_def
  RESET_REGION_def HYPERRAM_CONTROLLER_0_S0_REGION_def ONCHIP_MEMORY2_0_REGION_def

text \<open>No address belongs to two devices, and the regions of the linker cover exactly the memories.\<close>

lemma devices_disjoint:
  "\<not> (in_area HYPERRAM_CONTROLLER_0_S0 x \<and> in_area ONCHIP_MEMORY2_0 x)"
  "\<not> (in_area HYPERRAM_CONTROLLER_0_S0 x \<and> in_area JTAG_UART_0 x)"
  "\<not> (in_area HYPERRAM_CONTROLLER_0_S0 x \<and> in_area HYPERRAM_CONTROLLER_0_CSR x)"
  "\<not> (in_area ONCHIP_MEMORY2_0 x \<and> in_area JTAG_UART_0 x)"
  "\<not> (in_area ONCHIP_MEMORY2_0 x \<and> in_area HYPERRAM_CONTROLLER_0_CSR x)"
  "\<not> (in_area JTAG_UART_0 x \<and> in_area HYPERRAM_CONTROLLER_0_CSR x)"
  by (auto simp: in_area_def area_defs)

lemma regions_cover:
  "in_area HYPERRAM_CONTROLLER_0_S0 x \<longleftrightarrow> in_area RESET_REGION x \<or> in_area HYPERRAM_CONTROLLER_0_S0_REGION x"
  "in_area ONCHIP_MEMORY2_0 x \<longleftrightarrow> in_area ONCHIP_MEMORY2_0_REGION x"
  "\<not> (in_area RESET_REGION x \<and> in_area HYPERRAM_CONTROLLER_0_S0_REGION x)"
  by (auto simp: in_area_def area_defs)

section \<open>The heap of the system\<close>

text \<open>
  The heap starts where the image ends and may grow up to the end of the HyperRAM, where the stack starts
  (\<^verbatim>\<open>linker.x\<close>).  No option of \<^verbatim>\<open>alt_sbrk.c\<close> is set.
\<close>

abbreviation (input) alt_data_end :: u32 where "alt_data_end \<equiv> 0x1000000"

definition system_heap :: "u32 \<Rightarrow> heap_config" where
  "system_heap image_end =
     \<lparr>max_heap_bytes = None, stack_check = False, exception_stack = False, heap_start = image_end,
      heap_limit = alt_data_end\<rparr>"

definition heap_at_reset :: "u32 \<Rightarrow> csrs \<Rightarrow> heap" where
  "heap_at_reset image_end c =
     \<lparr>heap_end = image_end, stack_limit_value = image_end, exception_old_stack_limit = 0, heap_csrs = c,
      overflow_reports = 0\<rparr>"

lemma system_heap_simps [simp]:
  "max_heap_bytes (system_heap e) = None" "heap_limit (system_heap e) = alt_data_end"
  "heap_end (heap_at_reset e c) = e" "heap_csrs (heap_at_reset e c) = c"
  by (simp_all add: system_heap_def heap_at_reset_def)

lemma system_heap_blocks:
  assumes "in_area HYPERRAM_CONTROLLER_0_S0_REGION image_end" and "\<forall>(sp, incr) \<in> set calls. unat incr < 2 ^ 31 - 8"
  shows "sorted_wrt (\<lambda>(a, n) (b, m). a + n \<le> b)
       (handed_out (fst (sbrk_run wr irqs (system_heap image_end) calls (heap_at_reset image_end c)))) \<and>
     (\<forall>(a, n) \<in> set (handed_out (fst (sbrk_run wr irqs (system_heap image_end) calls (heap_at_reset image_end c)))).
        4 dvd a \<and> unat image_end \<le> a \<and> a + n \<le> 0x1000000)"
proof -
  obtain rs s' where r: "sbrk_run wr irqs (system_heap image_end) calls (heap_at_reset image_end c) = (rs, s')"
    by fastforce
  have "unat (heap_end (heap_at_reset image_end c)) \<le> (unat (heap_limit (system_heap image_end)) + 3) div 4 * 4"
    using assms(1) by (simp add: in_area_def area_defs)
  with sbrk_run_blocks [OF _ _ assms(2) _ r] show ?thesis by (simp add: r)
qed

text \<open>
  Nothing keeps the heap from growing into the stack: one call hands out all of the memory above the image,
  wherever the stack pointer is.
\<close>

lemma heap_takes_stack:
  assumes "unat image_end \<le> 0x1000000 - 4" and "4 dvd unat image_end"
  shows "\<exists>s'. ALT_SBRK wr irqs (system_heap image_end) sp (alt_data_end - image_end) (heap_at_reset image_end c) = (image_end, s') \<and>
              heap_end s' = alt_data_end"
proof -
  let ?cfg = "system_heap image_end" and ?s = "heap_at_reset image_end c" and ?n = "alt_data_end - image_end"
  have a: "word_align image_end = image_end"
    using unat_word_align [of image_end] assms by (intro word_unat_eq_iff [THEN iffD2]) (auto elim!: dvdE)
  have n: "unat ?n = 0x1000000 - unat image_end"
    using assms(1) by (simp add: unat_sub word_le_nat_alt)
  obtain r s' where r: "ALT_SBRK wr irqs ?cfg sp ?n ?s = (r, s')" by fastforce
  from sbrk_result [OF _ _ _ _ r] assms(1) n a have "r = image_end \<and> unat (heap_end s') = 0x1000000"
    by simp
  then show ?thesis using r by (auto simp: word_unat_eq_iff)
qed

section \<open>The UART on the bus\<close>

text \<open>The registers of a UART at a base address: native accesses to register 0 and register 1.\<close>

definition uart_regs :: "'h bus \<Rightarrow> u32 \<Rightarrow> 'h regs" where
  "uart_regs bus base =
     \<lparr>iord_data = IORD bus base 0, iowr_data = IOWR bus base 0,
      iord_control = IORD bus base 1, iowr_control = IOWR bus base 1\<rparr>"

text \<open>The interrupt of the UART is not connected, so the interrupt-driven driver does not link in this system.\<close>

definition JTAG_UART_0_IRQ :: int where
  "JTAG_UART_0_IRQ = -1"

lemma polled_driver_needed: "uart_dev_init JTAG_UART_0_IRQ regs isr_register alarm callback sp dev s ic ck hal = Inl LinkError"
  by (simp add: uart_dev_init_def JTAG_UART_0_IRQ_def)

text \<open>
  The documented behaviour of the bus: an access belongs to one device, by its address.  \<open>view\<close> is what one
  device, or the memory, holds; only accesses in \<open>areas\<close> reach it.
\<close>

definition decoded :: "'h bus \<Rightarrow> ('h \<Rightarrow> 'v) \<Rightarrow> area list \<Rightarrow> bool" where
  "decoded bus view areas \<longleftrightarrow> (\<forall>x h. (\<forall>a \<in> set areas. \<not> in_area a x) \<longrightarrow>
     view (snd (lbu bus x h)) = view h \<and> view (snd (lhu bus x h)) = view h \<and> view (snd (lw bus x h)) = view h \<and>
     (\<forall>v. view (sb bus x v h) = view h) \<and> (\<forall>v. view (sh bus x v h) = view h) \<and> (\<forall>v. view (sw bus x v h) = view h))"

definition keeps_view :: "'h regs \<Rightarrow> ('h \<Rightarrow> 'v) \<Rightarrow> bool" where
  "keeps_view regs view \<longleftrightarrow> (\<forall>h. view (snd (iord_data regs h)) = view h \<and> view (snd (iord_control regs h)) = view h \<and>
     (\<forall>v. view (iowr_data regs v h) = view h \<and> view (iowr_control regs v h) = view h))"

lemma uart_0_registers: "in_area JTAG_UART_0 (area_base JTAG_UART_0)" "in_area JTAG_UART_0 (area_base JTAG_UART_0 + 4)"
  by (simp_all add: in_area_def area_defs)

lemma uart_keeps_memory:
  assumes "decoded bus mem [HYPERRAM_CONTROLLER_0_S0, ONCHIP_MEMORY2_0]"
  shows "keeps_view (uart_regs bus (area_base JTAG_UART_0)) mem"
proof -
  have "\<forall>a \<in> set [HYPERRAM_CONTROLLER_0_S0, ONCHIP_MEMORY2_0]. \<not> in_area a x" if "in_area JTAG_UART_0 x" for x
    using that devices_disjoint by auto
  with uart_0_registers assms show ?thesis by (simp add: keeps_view_def uart_regs_def decoded_def IORD_def IOWR_def)
qed

section \<open>The polled driver and the buffers of its callers\<close>

text \<open>
  In \<^verbatim>\<open>JtagUart\<close> a read returns the list of its bytes and a write is given one.  Here is the same code with the
  caller's buffer where it is, in memory: a byte is stored through the pointer when it has been received, and loaded
  when it is sent.  \<open>n\<close> is \<^verbatim>\<open>ptr - buffer\<close>; a buffer does not go round the end of the address space.
\<close>

partial_function (option) read_into :: "'h bus \<Rightarrow> 'h regs \<Rightarrow> u32 \<Rightarrow> int \<Rightarrow> u32 \<Rightarrow> nat \<Rightarrow> 'h \<Rightarrow> (nat \<times> 'h) option" where
  "read_into bus regs buffer space flags n h =
     (if int n < space then
        let (data, h1) = iord_data regs h
        in if data AND DATA_RVALID_MSK \<noteq> 0
           then read_into bus regs buffer space flags (n + 1) (sb bus (buffer + of_nat n) (data_byte data) h1)
           else if n \<noteq> 0 then Some (n, h1)
           else if flags AND O_NONBLOCK \<noteq> 0 then Some (n, h1)
           else read_into bus regs buffer space flags n h1
      else Some (n, h))"

definition uart_read_into :: "'h bus \<Rightarrow> 'h regs \<Rightarrow> u32 \<Rightarrow> int \<Rightarrow> u32 \<Rightarrow> 'h \<Rightarrow> (int \<times> 'h) option" where
  "uart_read_into bus regs buffer space flags h =
     map_option (\<lambda>(n, h1). (if n \<noteq> 0 then int n else if flags AND O_NONBLOCK \<noteq> 0 then - EWOULDBLOCK else - EIO, h1))
       (read_into bus regs buffer space flags 0 h)"

text \<open>Here \<open>n\<close> is \<^verbatim>\<open>end - ptr\<close>.\<close>

partial_function (option) write_from :: "'h bus \<Rightarrow> 'h regs \<Rightarrow> u32 \<Rightarrow> nat \<Rightarrow> 'h \<Rightarrow> 'h option" where
  "write_from bus regs ptr n h =
     (if n = 0 then Some h
      else let (control, h1) = iord_control regs h
           in if control AND CONTROL_WSPACE_MSK \<noteq> 0
              then let (c, h2) = lbu bus ptr h1 in write_from bus regs (ptr + 1) (n - 1) (iowr_data regs (ucast c) h2)
              else write_from bus regs ptr n h1)"

definition uart_write_from :: "'h bus \<Rightarrow> 'h regs \<Rightarrow> u32 \<Rightarrow> int \<Rightarrow> u32 \<Rightarrow> 'h \<Rightarrow> (int \<times> 'h) option" where
  "uart_write_from bus regs ptr count flags h = map_option (\<lambda>h1. (count, h1)) (write_from bus regs ptr (nat count) h)"

text \<open>A program that sends from buffers and receives into them, with the results of the calls.\<close>

datatype buffer_op = SendFrom u32 nat | ReadTo u32 nat

fun run_buffers :: "'h bus \<Rightarrow> 'h regs \<Rightarrow> buffer_op list \<Rightarrow> 'h \<Rightarrow> (int list \<times> 'h) option" where
  "run_buffers bus regs [] h = Some ([], h)"
| "run_buffers bus regs (SendFrom p n # ops) h =
     Option.bind (uart_write_from bus regs p (int n) 0 h) (\<lambda>(r, h1).
     map_option (\<lambda>(rs, h2). (r # rs, h2)) (run_buffers bus regs ops h1))"
| "run_buffers bus regs (ReadTo p n # ops) h =
     Option.bind (uart_read_into bus regs p (int n) 0 h) (\<lambda>(r, h1).
     map_option (\<lambda>(rs, h2). (r # rs, h2)) (run_buffers bus regs ops h1))"

text \<open>The bus beside the record of the accesses to the UART.\<close>

definition beside_log :: "'h bus \<Rightarrow> ('h \<times> uart_access list) bus" where
  "beside_log bus =
     \<lparr>lbu = (\<lambda>x (h, l). let (v, h1) = lbu bus x h in (v, (h1, l))), lhu = (\<lambda>x (h, l). let (v, h1) = lhu bus x h in (v, (h1, l))),
      lw = (\<lambda>x (h, l). let (v, h1) = lw bus x h in (v, (h1, l))),
      sb = (\<lambda>x v (h, l). (sb bus x v h, l)), sh = (\<lambda>x v (h, l). (sh bus x v h, l)), sw = (\<lambda>x v (h, l). (sw bus x v h, l))\<rparr>"

lemma beside_log_ops:
  "lbu bus x h = (v, h1) \<Longrightarrow> lbu (beside_log bus) x (h, l) = (v, (h1, l))"
  "sb (beside_log bus) x v (h, l) = (sb bus x v h, l)"
  by (simp_all add: beside_log_def)

text \<open>
  Bytes of memory: a load gives what the last store to the address has left, and a store changes only its address.
  The on-chip memory is documented so; the HyperRAM behind this repository's controller does not keep what is
  stored (\<^verbatim>\<open>HyperRamWrite\<close>).
\<close>

definition memory_at :: "'h bus \<Rightarrow> ('h \<Rightarrow> u32 \<Rightarrow> u8) \<Rightarrow> area \<Rightarrow> bool" where
  "memory_at bus mem A \<longleftrightarrow> (\<forall>x h. in_area A x \<longrightarrow>
     fst (lbu bus x h) = mem h x \<and> mem (snd (lbu bus x h)) = mem h \<and> (\<forall>v. mem (sb bus x v h) = (mem h)(x := v)))"

definition buffer_in :: "area \<Rightarrow> u32 \<Rightarrow> nat \<Rightarrow> bool" where
  "buffer_in A p n \<longleftrightarrow> unat (area_base A) \<le> unat p \<and> unat p + n \<le> unat (area_base A) + unat (area_span A) \<and>
     unat (area_base A) + unat (area_span A) < 2 ^ 32"

lemma buffer_in_area:
  assumes "buffer_in A p n" and "i < n"
  shows "in_area A (p + of_nat i)"
proof -
  have i: "unat p + i < 2 ^ 32" using assms by (simp add: buffer_in_def)
  then have "unat (of_nat i :: u32) = i" unfolding unat_of_nat by (intro mod_less) simp
  with i have "unat (p + of_nat i) = unat p + i" by (subst unat_add_no_overflow) simp_all
  with assms show ?thesis by (simp add: buffer_in_def in_area_def)
qed

lemma buffer_in_Suc: "buffer_in A p (Suc n) \<Longrightarrow> buffer_in A (p + 1) n"
proof -
  assume b: "buffer_in A p (Suc n)"
  then have "unat (p + 1) = unat p + 1" by (subst unat_add_no_overflow) (simp_all add: buffer_in_def)
  with b show ?thesis by (simp add: buffer_in_def)
qed

lemma store_bytes_Cons:
  "length bs + 1 < 2 ^ 32 \<Longrightarrow> store_bytes a (b # bs) m = store_bytes (a + 1) bs (m(a := b))"
proof -
  assume l: "length bs + 1 < 2 ^ 32"
  have "store_bytes a [b] m = m(a := b)" by (auto simp: store_bytes_def unat_eq_0)
  with l store_append [of "[b]" bs a m] show ?thesis by simp
qed

lemma load_bytes_Suc: "load_bytes a (Suc n) m = m a # load_bytes (a + 1) n m"
  using load_append [of a 1 n m] by (simp add: load_bytes_def)

section \<open>One call on a buffer\<close>

text \<open>
  A read that has stored \<open>n\<close> bytes stores the rest of what it takes from the device behind them, and changes
  nothing else in memory.
\<close>

definition fills :: "'h bus \<Rightarrow> 'h regs \<Rightarrow> ('h \<Rightarrow> u32 \<Rightarrow> u8) \<Rightarrow> u32 \<Rightarrow> nat \<Rightarrow> nat \<Rightarrow> 'h \<Rightarrow> uart_access list \<Rightarrow> bool" where
  "fills bus regs mem p space n h l \<longleftrightarrow>
     (\<exists>h' m. read_into (beside_log bus) (logged regs) p (int space) 0 n (h, l) = Some (n + length (received m), (h', l @ m)) \<and>
        sent m = [] \<and> n + length (received m) \<le> space \<and> 0 < n + length (received m) \<and>
        mem h' = store_bytes (p + of_nat n) (received m) (mem h))"

lemma fills_byte:
  assumes "memory_at bus mem A" "keeps_view regs mem" "buffer_in A p space" "n < space"
    and "iord_data regs h = (v, h1)" "v AND DATA_RVALID_MSK \<noteq> 0"
    and "fills bus regs mem p space (n + 1) (sb bus (p + of_nat n) (data_byte v) h1) (l @ [RdData v])"
  shows "fills bus regs mem p space n h l"
proof -
  let ?h = "sb bus (p + of_nat n) (data_byte v) h1"
  from assms(7) obtain h' m where m: "read_into (beside_log bus) (logged regs) p (int space) 0 (n + 1) (?h, l @ [RdData v]) =
      Some (n + 1 + length (received m), (h', l @ [RdData v] @ m))" "sent m = []" "n + 1 + length (received m) \<le> space"
    "mem h' = store_bytes (p + of_nat n + 1) (received m) (mem ?h)" by (auto simp: fills_def ac_simps)
  have "mem h1 = mem h" using assms(2,5) by (metis keeps_view_def snd_conv)
  then have M: "mem ?h = (mem h)(p + of_nat n := data_byte v)"
    using assms(1) buffer_in_area [OF assms(3,4)] by (simp add: memory_at_def)
  have "space < 2 ^ 32" using assms(3) by (simp add: buffer_in_def)
  with m(3) have "mem h' = store_bytes (p + of_nat n) (data_byte v # received m) (mem h)"
    unfolding m(4) M by (intro store_bytes_Cons [symmetric]) simp
  moreover have "read_into (beside_log bus) (logged regs) p (int space) 0 n (h, l) =
      Some (n + 1 + length (received m), (h', l @ [RdData v] @ m))"
    using assms(4,6) m(1) by (subst read_into.simps) (simp add: logged_access(1) [OF assms(5)] beside_log_ops)
  ultimately show ?thesis using m(2,3) assms(6)
    unfolding fills_def by (intro exI [of _ h'] exI [of _ "[RdData v] @ m"]) simp
qed

lemma fills_stop:
  assumes "keeps_view regs mem" "0 < n" "n < space" "iord_data regs h = (v, h1)" "v AND DATA_RVALID_MSK = 0"
  shows "fills bus regs mem p space n h l"
proof -
  have "mem h1 = mem h" using assms(1,4) by (metis keeps_view_def snd_conv)
  moreover have "read_into (beside_log bus) (logged regs) p (int space) 0 n (h, l) = Some (n, (h1, l @ [RdData v]))"
    using assms(2,3,5) by (subst read_into.simps) (simp add: logged_access(1) [OF assms(4)])
  ultimately show ?thesis using assms unfolding fills_def
    by (intro exI [of _ h1] exI [of _ "[RdData v]"]) (simp add: store_bytes_def)
qed

lemma fills_wait:
  assumes "keeps_view regs mem" "0 < space" "iord_data regs h = (v, h1)" "v AND DATA_RVALID_MSK = 0"
    and "fills bus regs mem p space 0 h1 (l @ [RdData v])"
  shows "fills bus regs mem p space 0 h l"
proof -
  from assms(5) obtain h' m where m: "read_into (beside_log bus) (logged regs) p (int space) 0 0 (h1, l @ [RdData v]) =
      Some (length (received m), (h', l @ [RdData v] @ m))" "sent m = []" "length (received m) \<le> space" "0 < length (received m)"
    "mem h' = store_bytes p (received m) (mem h1)" by (auto simp: fills_def)
  have "mem h1 = mem h" using assms(1,3) by (metis keeps_view_def snd_conv)
  moreover have "read_into (beside_log bus) (logged regs) p (int space) 0 0 (h, l) =
      Some (length (received m), (h', l @ [RdData v] @ m))"
    using assms(2,4) m(1) by (subst read_into.simps) (simp add: logged_access(1) [OF assms(3)])
  ultimately show ?thesis using m assms(4) unfolding fills_def
    by (intro exI [of _ h'] exI [of _ "[RdData v] @ m"]) simp
qed

lemma fills_all:
  assumes "memory_at bus mem A" "keeps_view regs mem" "buffer_in A p space" "n \<le> space" "0 < space"
    and "\<forall>h. \<exists>k. polls (iord_data regs) DATA_RVALID_MSK k h"
  shows "fills bus regs mem p space n h l"
  using assms(4)
proof (induction "space - n" arbitrary: n h l rule: less_induct)
  case (less n h l)
  show ?case
  proof (cases "n < space")
    case False
    with less.prems assms(5) show ?thesis unfolding fills_def
      by (intro exI [of _ h] exI [of _ "[]"], subst read_into.simps) (simp add: store_bytes_def)
  next
    case space: True
    have byte: "fills bus regs mem p space n h l" if "iord_data regs h = (v, h1)" "v AND DATA_RVALID_MSK \<noteq> 0" for h l v h1
      using space by (intro fills_byte [OF assms(1-3) space that] less) simp_all
    have wait: "polls (iord_data regs) DATA_RVALID_MSK k h \<Longrightarrow> fills bus regs mem p space n h l" for k
    proof (induction k arbitrary: h l)
      case 0
      obtain v h1 where v: "iord_data regs h = (v, h1)" by fastforce
      with 0 byte [OF v] show ?case by simp
    next
      case (Suc k)
      obtain v h1 where v: "iord_data regs h = (v, h1)" by fastforce
      show ?case
      proof (cases "v AND DATA_RVALID_MSK = 0")
        case True
        with Suc v fills_wait [OF assms(2,5) v True] fills_stop [OF assms(2) _ space v True]
        show ?thesis by (cases "n = 0") auto
      qed (use byte [OF v] in simp)
    qed
    from assms(6) obtain k where "polls (iord_data regs) DATA_RVALID_MSK k h" by blast
    from wait [OF this] show ?thesis .
  qed
qed

lemma read_into_buffer:
  assumes "memory_at bus mem A" "keeps_view regs mem" "buffer_in A p n" "0 < n"
    and "\<forall>h. \<exists>k. polls (iord_data regs) DATA_RVALID_MSK k h"
  shows "\<exists>h' m. uart_read_into (beside_log bus) (logged regs) p (int n) 0 (h, l) =
      Some (int (length (received m)), (h', l @ m)) \<and> sent m = [] \<and> received m \<noteq> [] \<and> length (received m) \<le> n \<and>
    mem h' = store_bytes p (received m) (mem h)"
  using fills_all [OF assms(1-3) _ assms(4,5), of 0 h l] by (auto simp: fills_def uart_read_into_def)

lemma write_from_buffer:
  assumes "memory_at bus mem A" "keeps_view regs mem"
    and "\<forall>h. \<exists>k. polls (iord_control regs) CONTROL_WSPACE_MSK k h"
  shows "buffer_in A p n \<Longrightarrow> \<exists>h' m. write_from (beside_log bus) (logged regs) p n (h, l) = Some (h', l @ m) \<and>
    sent m = load_bytes p n (mem h) \<and> received m = [] \<and> mem h' = mem h"
proof (induction n arbitrary: p h l)
  case 0
  show ?case by (subst write_from.simps) (simp add: load_bytes_def)
next
  case (Suc n)
  let ?P = "\<lambda>h l. \<exists>h' m. write_from (beside_log bus) (logged regs) p (Suc n) (h, l) = Some (h', l @ m) \<and>
    sent m = load_bytes p (Suc n) (mem h) \<and> received m = [] \<and> mem h' = mem h"
  have keep: "mem h1 = mem h" if "iord_control regs h = (v, h1)" for h v h1
    using assms(2) that by (metis keeps_view_def snd_conv)
  have now: "?P h l" if v: "iord_control regs h = (v, h1)" "v AND CONTROL_WSPACE_MSK \<noteq> 0" for h l v h1
  proof -
    obtain c h2 where c: "lbu bus p h1 = (c, h2)" by fastforce
    have "in_area A p" using buffer_in_area [OF Suc.prems, of 0] by simp
    with assms(1) c keep [OF v(1)] have M: "c = mem h p" "mem h2 = mem h"
      unfolding memory_at_def by (metis fst_conv snd_conv)+
    let ?h3 = "iowr_data regs (ucast c) h2" and ?a = "[RdControl v, WrData (ucast c)]"
    have M3: "mem ?h3 = mem h" using assms(2) M by (simp add: keeps_view_def)
    from Suc.IH [OF buffer_in_Suc [OF Suc.prems], of ?h3 "l @ ?a"] obtain h' m
      where m: "write_from (beside_log bus) (logged regs) (p + 1) n (?h3, l @ ?a) = Some (h', l @ ?a @ m)"
        "sent m = load_bytes (p + 1) n (mem h)" "received m = []" "mem h' = mem h" by (auto simp: M3)
    have "write_from (beside_log bus) (logged regs) p (Suc n) (h, l) = Some (h', l @ ?a @ m)"
      using v m(1) by (subst write_from.simps) (simp add: logged_access beside_log_ops(1) [OF c])
    with m v M show ?thesis
      by (intro exI [of _ h'] exI [of _ "?a @ m"]) (simp add: load_bytes_Suc ucast_u8_u32)
  qed
  have "polls (iord_control regs) CONTROL_WSPACE_MSK k h \<Longrightarrow> ?P h l" for k
  proof (induction k arbitrary: h l)
    case 0
    obtain v h1 where v: "iord_control regs h = (v, h1)" by fastforce
    with 0 now [OF v] show ?case by simp
  next
    case (Suc k)
    obtain v h1 where v: "iord_control regs h = (v, h1)" by fastforce
    show ?case
    proof (cases "v AND CONTROL_WSPACE_MSK = 0")
      case True
      with Suc.prems v have "polls (iord_control regs) CONTROL_WSPACE_MSK k h1" by simp
      from Suc.IH [OF this, of "l @ [RdControl v]"] keep [OF v] obtain h' m
        where m: "write_from (beside_log bus) (logged regs) p (Suc n) (h1, l @ [RdControl v]) = Some (h', l @ [RdControl v] @ m)"
          "sent m = load_bytes p (Suc n) (mem h)" "received m = []" "mem h' = mem h" by auto
      from m(1) True v have "write_from (beside_log bus) (logged regs) p (Suc n) (h, l) = Some (h', l @ [RdControl v] @ m)"
        by (subst write_from.simps) (simp add: logged_access)
      with m(2-4) show ?thesis by (intro exI [of _ h'] exI [of _ "[RdControl v] @ m"]) simp
    qed (use now [OF v] in simp)
  qed
  with assms(3) show ?case by blast
qed

section \<open>The list of bytes a read returns\<close>

text \<open>
  Where the UART does not notice stores in the buffer, a read does the same as the one of \<^verbatim>\<open>JtagUart\<close>
  followed by storing the bytes it returns: so the results of the console stand for buffers.
\<close>

fun stores :: "'h bus \<Rightarrow> u32 \<Rightarrow> u8 list \<Rightarrow> 'h \<Rightarrow> 'h" where
  "stores bus p [] h = h"
| "stores bus p (b # bs) h = stores bus (p + 1) bs (sb bus p b h)"

lemma stores_snoc: "stores bus p (bs @ [b]) h = sb bus (p + of_nat (length bs)) b (stores bus p bs h)"
  by (induction bs arbitrary: p h) (simp_all add: add.assoc)

definition unnoticed :: "'h bus \<Rightarrow> 'h regs \<Rightarrow> area \<Rightarrow> bool" where
  "unnoticed bus regs A \<longleftrightarrow> (\<forall>x v h. in_area A x \<longrightarrow>
     iord_data regs (sb bus x v h) = map_prod id (sb bus x v) (iord_data regs h))"

lemma unnoticed_stores:
  "unnoticed bus regs A \<Longrightarrow> buffer_in A p (length bs) \<Longrightarrow>
   iord_data regs (stores bus p bs h) = map_prod id (stores bus p bs) (iord_data regs h)"
proof (induction bs arbitrary: p h)
  case (Cons b bs)
  have "in_area A p" using buffer_in_area [OF Cons.prems(2), of 0] by simp
  with Cons.prems(1) have "iord_data regs (sb bus p b h) = map_prod id (sb bus p b) (iord_data regs h)"
    by (simp add: unnoticed_def)
  moreover have "buffer_in A (p + 1) (length bs)" using Cons.prems(2) by (intro buffer_in_Suc) simp
  ultimately show ?case using Cons.IH [OF Cons.prems(1)] by (cases "iord_data regs h") simp
next
  case Nil
  show ?case by (cases "iord_data regs h") simp
qed

lemma read_into_list:
  "small_read_loop regs space fl acc h = Some r \<Longrightarrow> unnoticed bus regs A \<Longrightarrow> buffer_in A p (nat space) \<Longrightarrow>
   int (length acc) \<le> space \<Longrightarrow>
   read_into bus regs p space fl (length acc) (stores bus p acc h) = Some (length (fst r), stores bus p (fst r) (snd r))"
proof (induction rule: small_read_loop.raw_induct [rotated, consumes 1, case_names step])
  case (step loop regs space fl acc h r)
  obtain v h1 where v: "iord_data regs h = (v, h1)" by fastforce
  show ?case
  proof (cases "int (length acc) < space")
    case False
    with step.hyps have "r = (acc, h)" by simp
    with False show ?thesis by (subst read_into.simps) simp
  next
    case True
    have b: "buffer_in A p (length acc)" using True step.prems(2) by (auto simp: buffer_in_def)
    have s: "iord_data regs (stores bus p acc h) = (v, stores bus p acc h1)"
      using unnoticed_stores [OF step.prems(1) b, of h] by (simp add: v)
    have more: "read_into bus regs p space fl (length acc') (stores bus p acc' h1) =
        Some (length (fst r), stores bus p (fst r) (snd r))"
      if "loop regs space fl acc' h1 = Some r" "int (length acc') \<le> space" for acc'
      using step.IH [OF that(1) step.prems(1,2) that(2)] .
    show ?thesis
    proof (cases "v AND DATA_RVALID_MSK = 0")
      case False
      with step.hyps True v have "loop regs space fl (acc @ [data_byte v]) h1 = Some r" by simp
      from more [OF this] True False show ?thesis
        by (subst read_into.simps) (simp add: s stores_snoc)
    next
      case no: True
      with step.hyps True v more [of acc] show ?thesis
        by (subst read_into.simps) (auto simp: s split: if_splits)
    qed
  qed
qed

section \<open>Any sequence of calls on buffers\<close>

text \<open>What has been sent, and what memory holds, after operations that have received the bytes \<open>gots\<close>.\<close>

fun buffers_spec :: "buffer_op list \<Rightarrow> u8 list list \<Rightarrow> (u32 \<Rightarrow> u8) \<Rightarrow> u8 list \<times> (u32 \<Rightarrow> u8)" where
  "buffers_spec (SendFrom p n # ops) (g # gots) m =
     (let (out, m1) = buffers_spec ops gots m in (load_bytes p n m @ out, m1))"
| "buffers_spec (ReadTo p n # ops) (g # gots) m = buffers_spec ops gots (store_bytes p g m)"
| "buffers_spec _ _ m = ([], m)"

fun buffer_ok :: "area \<Rightarrow> buffer_op \<Rightarrow> bool" where
  "buffer_ok A (SendFrom p n) \<longleftrightarrow> buffer_in A p n"
| "buffer_ok A (ReadTo p n) \<longleftrightarrow> buffer_in A p n \<and> 0 < n"

fun buffer_result :: "buffer_op \<Rightarrow> int \<times> u8 list \<Rightarrow> bool" where
  "buffer_result (SendFrom p n) (r, got) \<longleftrightarrow> r = int n \<and> got = []"
| "buffer_result (ReadTo p n) (r, got) \<longleftrightarrow> r = int (length got) \<and> got \<noteq> [] \<and> length got \<le> n"

lemma run_buffers_spec:
  assumes "memory_at bus mem A" "keeps_view regs mem"
    and "\<forall>h. \<exists>k. polls (iord_control regs) CONTROL_WSPACE_MSK k h"
    and "\<forall>h. \<exists>k. polls (iord_data regs) DATA_RVALID_MSK k h"
  shows "list_all (buffer_ok A) ops \<Longrightarrow>
    \<exists>res h' m. run_buffers (beside_log bus) (logged regs) ops (h, l) = Some (map fst res, (h', l @ m)) \<and>
      list_all2 buffer_result ops res \<and> received m = concat (map snd res) \<and>
      (sent m, mem h') = buffers_spec ops (map snd res) (mem h)"
proof (induction ops arbitrary: h l)
  case Nil
  show ?case by (intro exI [of _ "[]"] exI [of _ h]) simp
next
  case (Cons a ops)
  show ?case
  proof (cases a)
    case (SendFrom p n)
    with Cons.prems have b: "buffer_in A p n" by simp
    from write_from_buffer [OF assms(1-3) b, of h l] obtain h1 m1
      where 1: "write_from (beside_log bus) (logged regs) p n (h, l) = Some (h1, l @ m1)"
        "sent m1 = load_bytes p n (mem h)" "received m1 = []" "mem h1 = mem h" by blast
    from Cons.IH [of h1 "l @ m1"] Cons.prems obtain res h' m
      where 2: "run_buffers (beside_log bus) (logged regs) ops (h1, l @ m1) = Some (map fst res, (h', l @ m1 @ m))"
        "list_all2 buffer_result ops res" "received m = concat (map snd res)"
        "(sent m, mem h') = buffers_spec ops (map snd res) (mem h1)" by auto
    have "buffers_spec ops (map snd res) (mem h) = (sent m, mem h')" using 2(4) 1(4) by simp
    with 1 2(1-3) show ?thesis
      by (intro exI [of _ "(int n, []) # res"] exI [of _ h'] exI [of _ "m1 @ m"])
        (simp add: SendFrom uart_write_from_def)
  next
    case (ReadTo p n)
    with Cons.prems have b: "buffer_in A p n" "0 < n" by simp_all
    from read_into_buffer [OF assms(1,2) b assms(4), of h l] obtain h1 m1
      where 1: "uart_read_into (beside_log bus) (logged regs) p (int n) 0 (h, l) = Some (int (length (received m1)), (h1, l @ m1))"
        "sent m1 = []" "received m1 \<noteq> []" "length (received m1) \<le> n" "mem h1 = store_bytes p (received m1) (mem h)" by blast
    from Cons.IH [of h1 "l @ m1"] Cons.prems obtain res h' m
      where 2: "run_buffers (beside_log bus) (logged regs) ops (h1, l @ m1) = Some (map fst res, (h', l @ m1 @ m))"
        "list_all2 buffer_result ops res" "received m = concat (map snd res)"
        "(sent m, mem h') = buffers_spec ops (map snd res) (mem h1)" by auto
    from 1 2 show ?thesis
      by (intro exI [of _ "(int (length (received m1)), received m1) # res"] exI [of _ h'] exI [of _ "m1 @ m"])
        (simp add: ReadTo)
  qed
qed

lemma buffers_spec_frame:
  "list_all2 buffer_result ops res \<Longrightarrow> \<forall>p n. ReadTo p n \<in> set ops \<longrightarrow> n \<le> unat (x - p) \<Longrightarrow>
   snd (buffers_spec ops (map snd res) m) x = m x"
proof (induction ops res arbitrary: m rule: list_all2_induct)
  case (Cons a ops e res)
  then have ih: "snd (buffers_spec ops (map snd res) m) x = m x" for m by simp
  show ?case
  proof (cases a)
    case (SendFrom p n)
    with ih [of m] show ?thesis by (cases "buffers_spec ops (map snd res) m") simp
  next
    case (ReadTo p n)
    with Cons.prems have "n \<le> unat (x - p)" by simp
    moreover have "length (snd e) \<le> n" using Cons.hyps(1) ReadTo by (cases e) simp
    ultimately show ?thesis using ih by (simp add: ReadTo store_bytes_def)
  qed
qed simp

text \<open>The blocks of the heap are such buffers.\<close>

lemma heap_block_buffer:
  assumes "in_area HYPERRAM_CONTROLLER_0_S0_REGION image_end" and "\<forall>(sp, incr) \<in> set calls. unat incr < 2 ^ 31 - 8"
    and "(a, n) \<in> set (handed_out (fst (sbrk_run wr irqs (system_heap image_end) calls (heap_at_reset image_end c))))"
    and "a < 0x1000000"
  shows "buffer_in HYPERRAM_CONTROLLER_0_S0 (of_nat a) n"
proof -
  from system_heap_blocks [OF assms(1,2)] assms(3) have "a + n \<le> 0x1000000" by blast
  moreover have "unat (of_nat a :: u32) = a" unfolding unat_of_nat using assms(4) by (intro mod_less) simp
  ultimately show ?thesis by (simp add: buffer_in_def area_defs)
qed

section \<open>Memory and the console\<close>

text \<open>C7: In the configured system, on a bus on which an access reaches only the device or memory its address
  belongs to, any sequence of calls of the polled driver that send from buffers in memory and read into them is
  completed, on a UART that a poll eventually finds with room and with data.  A send is whole and a read gives at
  least one byte and no more than the buffer has room for; the UART has been given exactly the bytes the buffers held
  when they were sent; and memory is as before but that each read has put exactly the bytes taken from
  the UART, in order, at the start of its buffer (a later read into the same buffer writes over them): no byte outside of the buffers that were read into changes.\<close>

theorem buffers_in_memory:
  assumes "decoded bus mem [HYPERRAM_CONTROLLER_0_S0, ONCHIP_MEMORY2_0]" and "memory_at bus mem A"
    and "\<forall>h. \<exists>k. polls (iord_control (uart_regs bus (area_base JTAG_UART_0))) CONTROL_WSPACE_MSK k h"
    and "\<forall>h. \<exists>k. polls (iord_data (uart_regs bus (area_base JTAG_UART_0))) DATA_RVALID_MSK k h"
    and "list_all (buffer_ok A) ops"
  shows "\<exists>res h' m.
    run_buffers (beside_log bus) (logged (uart_regs bus (area_base JTAG_UART_0))) ops (h, []) = Some (map fst res, (h', m)) \<and>
    list_all2 buffer_result ops res \<and> received m = concat (map snd res) \<and>
    (sent m, mem h') = buffers_spec ops (map snd res) (mem h) \<and>
    (\<forall>x. (\<forall>p n. ReadTo p n \<in> set ops \<longrightarrow> n \<le> unat (x - p)) \<longrightarrow> mem h' x = mem h x)"
proof -
  from run_buffers_spec [OF assms(2) uart_keeps_memory [OF assms(1)] assms(3-5), of h "[]"] obtain res h' m
    where r: "run_buffers (beside_log bus) (logged (uart_regs bus (area_base JTAG_UART_0))) ops (h, []) =
        Some (map fst res, (h', m))" "list_all2 buffer_result ops res" "received m = concat (map snd res)"
      "(sent m, mem h') = buffers_spec ops (map snd res) (mem h)" by auto
  from buffers_spec_frame [OF r(2), of _ "mem h"] r(4) have
    "\<forall>x. (\<forall>p n. ReadTo p n \<in> set ops \<longrightarrow> n \<le> unat (x - p)) \<longrightarrow> mem h' x = mem h x" by (metis snd_conv)
  with r show ?thesis by blast
qed

text \<open>A bus with memory and a UART that always has room and a byte.\<close>

definition small_bus :: "((u32 \<Rightarrow> u8) \<times> u32) bus" where
  "small_bus =
     (let put = (\<lambda>x v (m, d). (if in_area HYPERRAM_CONTROLLER_0_S0 x \<or> in_area ONCHIP_MEMORY2_0 x then m(x := v) else m,
                               if in_area JTAG_UART_0 x then ucast v else d))
      in \<lparr>lbu = (\<lambda>x (m, d). (m x, (m, d))), lhu = (\<lambda>x (m, d). (ucast (m x), (m, d))),
          lw = (\<lambda>x (m, d). (if in_area JTAG_UART_0 x then 0x18041 else ucast (m x), (m, d))),
          sb = put, sh = (\<lambda>x v. put x (ucast v)), sw = (\<lambda>x v. put x (ucast v))\<rparr>)"

lemma small_bus_laws:
  "decoded small_bus fst [HYPERRAM_CONTROLLER_0_S0, ONCHIP_MEMORY2_0]" "memory_at small_bus fst ONCHIP_MEMORY2_0"
  "unnoticed small_bus (uart_regs small_bus (area_base JTAG_UART_0)) ONCHIP_MEMORY2_0"
  using devices_disjoint
  by (auto simp: decoded_def memory_at_def unnoticed_def uart_regs_def IORD_def small_bus_def Let_def uart_0_registers
      split: prod.split)

text \<open>Three bytes are read, and two of them sent back.\<close>

theorem buffers_in_memory_witness:
  "\<exists>res h' m.
    run_buffers (beside_log small_bus) (logged (uart_regs small_bus (area_base JTAG_UART_0)))
      [ReadTo 0x1000010 3, SendFrom 0x1000010 2] ((\<lambda>_. 0, 0), []) = Some (map fst res, (h', m)) \<and>
    list_all2 buffer_result [ReadTo 0x1000010 3, SendFrom 0x1000010 2] res \<and> received m = concat (map snd res) \<and>
    (sent m, fst h') = buffers_spec [ReadTo 0x1000010 3, SendFrom 0x1000010 2] (map snd res) (\<lambda>_. 0) \<and> fst h' 0x1000013 = 0"
proof -
  let ?ops = "[ReadTo 0x1000010 3, SendFrom 0x1000010 2]"
  have p: "\<forall>h. \<exists>k. polls (iord_control (uart_regs small_bus (area_base JTAG_UART_0))) CONTROL_WSPACE_MSK k h"
    "\<forall>h. \<exists>k. polls (iord_data (uart_regs small_bus (area_base JTAG_UART_0))) DATA_RVALID_MSK k h"
    by (auto simp: uart_regs_def IORD_def small_bus_def Let_def uart_0_registers intro!: polls_now)
  have ok: "list_all (buffer_ok ONCHIP_MEMORY2_0) ?ops" by (simp add: buffer_in_def area_defs)
  from buffers_in_memory [OF small_bus_laws(1,2) p ok, of "(\<lambda>_. 0, 0)"] obtain res h' m
    where r: "run_buffers (beside_log small_bus) (logged (uart_regs small_bus (area_base JTAG_UART_0))) ?ops ((\<lambda>_. 0, 0), []) =
        Some (map fst res, (h', m))" "list_all2 buffer_result ?ops res" "received m = concat (map snd res)"
      "(sent m, fst h') = buffers_spec ?ops (map snd res) (\<lambda>_. 0)"
      "\<forall>x. (\<forall>p n. ReadTo p n \<in> set ?ops \<longrightarrow> n \<le> unat (x - p)) \<longrightarrow> fst h' x = 0" by auto
  have "fst h' 0x1000013 = 0" using r(5) by simp
  with r(1-4) show ?thesis by blast
qed

end
