(* ===== verification/Platform.thy ===== *)
theory Platform
  imports SystemMap
begin

text \<open>
  Small services of the platform: the error number (\<^verbatim>\<open>sys/alt_errno.h\<close>), the handler of fatal memory errors
  (\<^verbatim>\<open>alt_ecc_exception.c\<close>), sections loaded by name (\<^verbatim>\<open>sys/alt_load.h\<close>), the check of the system
  identification (\<^verbatim>\<open>intel_niosv.h\<close>), assertions (\<^verbatim>\<open>sys/alt_debug.h\<close>) and terminal settings
  (\<^verbatim>\<open>sys/termios.h\<close>).
\<close>

section \<open>The error number\<close>

text \<open>
  There are two: the one of the C library, whose address \<^verbatim>\<open>__errno\<close> gives when it is linked, and a global
  variable.  \<^verbatim>\<open>alt_errno\<close> is a weak reference to \<^verbatim>\<open>__errno\<close>, null when it is not linked.
\<close>

datatype errno_cell = LibraryErrno | GlobalErrno

definition alt_errno :: "bool \<Rightarrow> (unit \<Rightarrow> errno_cell) option" where
  "alt_errno linked = (if linked then Some (\<lambda>_. LibraryErrno) else None)"

definition alt_get_errno :: "bool \<Rightarrow> errno_cell" where
  "alt_get_errno linked = (case alt_errno linked of Some f \<Rightarrow> f () | None \<Rightarrow> GlobalErrno)"

definition set_ALT_ERRNO :: "bool \<Rightarrow> int \<Rightarrow> (errno_cell \<Rightarrow> int) \<Rightarrow> (errno_cell \<Rightarrow> int)" where
  "set_ALT_ERRNO linked v cells = cells(alt_get_errno linked := v)"

definition ALT_ERRNO :: "bool \<Rightarrow> (errno_cell \<Rightarrow> int) \<Rightarrow> int" where
  "ALT_ERRNO linked cells = cells (alt_get_errno linked)"

text \<open>
  In one program it is always the same of the two: what is read is the last value set, and the other
  never changes.  So one error number, \<open>rg_errno\<close>, stands for it in the other theories.
\<close>

lemma errno_one_cell:
  "ALT_ERRNO linked (fold (set_ALT_ERRNO linked) vs cells) = last (ALT_ERRNO linked cells # vs)"
  "c \<noteq> alt_get_errno linked \<Longrightarrow> fold (set_ALT_ERRNO linked) vs cells c = cells c"
  by (induction vs arbitrary: cells) (auto simp: set_ALT_ERRNO_def ALT_ERRNO_def)

lemma errno_of_library: "alt_get_errno linked = LibraryErrno \<longleftrightarrow> linked"
  by (simp add: alt_get_errno_def alt_errno_def)

section \<open>The handler of fatal memory errors\<close>

text \<open>The new value of the variable at \<open>addr\<close>, and the lines of the data cache that are flushed for it.\<close>

definition alt_ecc_exception_register :: "u32 \<Rightarrow> u32 \<Rightarrow> u32 \<Rightarrow> u32 \<Rightarrow> (u32 \<times> u32 list) option" where
  "alt_ecc_exception_register cache_size line_size addr handler =
     map_option (\<lambda>ls. (handler, ls)) (alt_dcache_flush cache_size line_size addr 4)"

text \<open>Registering returns, and all of the variable has been written back.\<close>

lemma ecc_handler_flushed:
  assumes "0 < cache_size" and "k < 31" and "unat addr + 4 + 2 * 2 ^ k < 2 ^ 32"
  shows "\<exists>ls. alt_ecc_exception_register cache_size (2 ^ k) addr handler = Some (handler, ls) \<and>
              (\<forall>i < 4. line_of k (addr + of_nat i) \<in> line_of k ` set ls)"
  using dcache_flush_lines [of cache_size k addr 4] assms by (auto simp: alt_ecc_exception_register_def)

section \<open>Sections loaded by name\<close>

definition ALT_LOAD_SECTION_BY_NAME :: "load_section \<Rightarrow> mem \<Rightarrow> stuck + mem" where
  "ALT_LOAD_SECTION_BY_NAME s mem = alt_load_section (flash_start s) (ram_start s) (ram_end s) mem"

lemma load_by_name:
  assumes "placed s n"
  shows "\<exists>mem'. ALT_LOAD_SECTION_BY_NAME s mem = Inr mem' \<and> loaded s n mem mem' \<and>
                (\<forall>a. a \<notin> region (ram_start s) n \<longrightarrow> mem' a = mem a)"
  using section_loaded [OF assms] by (simp add: ALT_LOAD_SECTION_BY_NAME_def)

section \<open>System identification\<close>

text \<open>\<open>sysid\<close> is the address and the value of the identification, if the system has one; this system has none.\<close>

definition IS_SYSTEM_ID_VALID :: "'h bus \<Rightarrow> (u32 \<times> u32) option \<Rightarrow> 'h \<Rightarrow> int \<times> 'h" where
  "IS_SYSTEM_ID_VALID bus sysid h =
     (case sysid of
        None \<Rightarrow> (-1, h)
      | Some (base, sid) \<Rightarrow> let (v, h1) = IORD_32DIRECT bus base 0 h in (if v = sid then 0 else -1, h1))"

text \<open>The result is a status, 0 for valid: as a truth value it says the opposite of the name.\<close>

lemma system_id_status:
  "fst (IS_SYSTEM_ID_VALID bus sysid h) = 0 \<longleftrightarrow> (\<exists>base sid. sysid = Some (base, sid) \<and> fst (lw bus base h) = sid)"
  by (auto simp: IS_SYSTEM_ID_VALID_def IORD_32DIRECT_def split: option.splits prod.splits)

section \<open>Assertions\<close>

text \<open>
  The macro negates its argument without parentheses, so the negation binds to the left operand.  For a
  condition \<open>a op b\<close> this says whether the assertion breaks into the debugger.
\<close>

definition c_not :: "int \<Rightarrow> int" where
  "c_not a = (if a = 0 then 1 else 0)"

definition ALT_DEBUG_ASSERT :: "(int \<Rightarrow> int \<Rightarrow> bool) \<Rightarrow> int \<Rightarrow> int \<Rightarrow> bool" where
  "ALT_DEBUG_ASSERT op a b \<longleftrightarrow> op (c_not a) b"

text \<open>A test for null works; most failures of other comparisons are missed, and some that hold break.\<close>

lemma assert_not_null: "ALT_DEBUG_ASSERT (\<noteq>) p 0 \<longleftrightarrow> p = 0"
  by (simp add: ALT_DEBUG_ASSERT_def c_not_def)

lemma assert_equal_misses: "b \<notin> {0, 1} \<Longrightarrow> \<not> ALT_DEBUG_ASSERT (=) a b"
  by (auto simp: ALT_DEBUG_ASSERT_def c_not_def)

lemma assert_less_breaks: "0 < a \<Longrightarrow> a < b \<Longrightarrow> ALT_DEBUG_ASSERT (<) a b"
  by (auto simp: ALT_DEBUG_ASSERT_def c_not_def)

section \<open>Terminal settings\<close>

record termios =
  c_iflag :: u16
  c_oflag :: u16
  c_cflag :: u16
  c_lflag :: u16
  c_line :: u8
  c_cc :: "u8 list"
  c_ispeed :: u32
  c_ospeed :: u32

definition cfgetospeed :: "termios \<Rightarrow> u32" where
  "cfgetospeed tp = c_ospeed tp"

definition cfgetispeed :: "termios \<Rightarrow> u32" where
  "cfgetispeed tp = c_ispeed tp"

definition cfsetospeed :: "u32 \<Rightarrow> termios \<Rightarrow> int \<times> termios" where
  "cfsetospeed s tp = (0, tp\<lparr>c_ospeed := s\<rparr>)"

definition cfsetispeed :: "u32 \<Rightarrow> termios \<Rightarrow> int \<times> termios" where
  "cfsetispeed s tp = (0, tp\<lparr>c_ispeed := s\<rparr>)"

lemma speeds_independent:
  "cfgetospeed (snd (cfsetospeed s tp)) = s" "cfgetispeed (snd (cfsetospeed s tp)) = cfgetispeed tp"
  "cfgetispeed (snd (cfsetispeed s tp)) = s" "cfgetospeed (snd (cfsetispeed s tp)) = cfgetospeed tp"
  by (simp_all add: cfgetospeed_def cfgetispeed_def cfsetospeed_def cfsetispeed_def)

end
