(* ===== verification/JtagIrq.thy ===== *)
theory JtagIrq
  imports JtagUart
begin

text \<open>
  Termination of the interrupt handler of the JTAG UART (\<^verbatim>\<open>altera_avalon_jtag_uart_init.c\<close>).  Its loops end
  only when the device lets them, so what the driver relies on is a contract with the device,
  \<open>uart_device\<close>; under it every round of the handler leaves less to do.
\<close>

section \<open>The contract with the device\<close>

text \<open>
  What the documentation of the device says of its registers.  \<open>pending\<close> is the number of bytes the host
  has sent or will send, \<open>enabled\<close> the enable bits the device holds.  A valid read takes a byte; a read
  interrupt is pending only when it is enabled and there is a byte to read, a write interrupt only when it
  is enabled and there is room in the transmit FIFO.
\<close>

definition uart_device :: "'h regs \<Rightarrow> ('h \<Rightarrow> nat) \<Rightarrow> ('h \<Rightarrow> u32) \<Rightarrow> bool" where
  "uart_device regs pending enabled \<longleftrightarrow>
     (\<forall>h v h'. iord_data regs h = (v, h') \<longrightarrow>
        enabled h' = enabled h \<and> pending h' \<le> pending h \<and> (v AND DATA_RVALID_MSK \<noteq> 0 \<longrightarrow> pending h' < pending h)) \<and>
     (\<forall>h v. enabled (iowr_data regs v h) = enabled h \<and> pending (iowr_data regs v h) = pending h) \<and>
     (\<forall>h v h'. iord_control regs h = (v, h') \<longrightarrow>
        enabled h' = enabled h \<and> pending h' = pending h \<and>
        (v AND CONTROL_RI_MSK \<noteq> 0 \<longrightarrow>
           enabled h AND CONTROL_RE_MSK \<noteq> 0 \<and> fst (iord_data regs h') AND DATA_RVALID_MSK \<noteq> 0) \<and>
        (v AND CONTROL_WI_MSK \<noteq> 0 \<longrightarrow>
           enabled h AND CONTROL_WE_MSK \<noteq> 0 \<and> drop_bit 16 (v AND CONTROL_WSPACE_MSK) \<noteq> 0)) \<and>
     (\<forall>h v. enabled (iowr_control regs v h) = v AND (CONTROL_RE_MSK OR CONTROL_WE_MSK) \<and>
        pending (iowr_control regs v h) = pending h)"

text \<open>The driver's copy of the enable bits has every interrupt that is enabled.\<close>

definition enables_known :: "('h \<Rightarrow> u32) \<Rightarrow> 'h uart \<Rightarrow> bool" where
  "enables_known enabled s \<longleftrightarrow>
     (\<forall>m \<in> {CONTROL_RE_MSK, CONTROL_WE_MSK}. enabled (ju_hw s) AND m \<noteq> 0 \<longrightarrow> ju_irq_enable s AND m \<noteq> 0)"

text \<open>
  What is left to do: each round of the handler makes it smaller, also when an interrupt is enabled that the
  driver does not know of.
\<close>

definition either_on :: "('h \<Rightarrow> u32) \<Rightarrow> u32 \<Rightarrow> 'h uart \<Rightarrow> bool" where
  "either_on enabled msk s \<longleftrightarrow> ju_irq_enable s AND msk \<noteq> 0 \<or> enabled (ju_hw s) AND msk \<noteq> 0"

definition isr_work :: "('h \<Rightarrow> nat) \<Rightarrow> ('h \<Rightarrow> u32) \<Rightarrow> 'h uart \<Rightarrow> nat" where
  "isr_work pending enabled s = pending (ju_hw s) + length (ring_queue (ju_tx s)) +
     (if either_on enabled CONTROL_RE_MSK s then 1 else 0) + (if either_on enabled CONTROL_WE_MSK s then 1 else 0)"

definition served :: "('h \<Rightarrow> nat) \<Rightarrow> ('h \<Rightarrow> u32) \<Rightarrow> 'h uart \<Rightarrow> 'h uart \<Rightarrow> bool" where
  "served pending enabled s s' \<longleftrightarrow> rings_ok s' \<and> (enables_known enabled s \<longrightarrow> enables_known enabled s') \<and>
     isr_work pending enabled s' \<le> isr_work pending enabled s"

lemmas isr_defs = served_def enables_known_def isr_work_def either_on_def

section \<open>Every round leaves less to do\<close>

lemma read_control_device:
  assumes "uart_device regs pending enabled" "read_control regs s = (v, s')"
  shows "rings_ok s' = rings_ok s" "enables_known enabled s' = enables_known enabled s"
    "isr_work pending enabled s' = isr_work pending enabled s"
    "ju_rx s' = ju_rx s" "ju_tx s' = ju_tx s" "ju_irq_enable s' = ju_irq_enable s"
    "v AND CONTROL_RI_MSK \<noteq> 0 \<Longrightarrow>
       enabled (ju_hw s) AND CONTROL_RE_MSK \<noteq> 0 \<and> fst (iord_data regs (ju_hw s')) AND DATA_RVALID_MSK \<noteq> 0"
    "v AND CONTROL_WI_MSK \<noteq> 0 \<Longrightarrow>
       enabled (ju_hw s) AND CONTROL_WE_MSK \<noteq> 0 \<and> drop_bit 16 (v AND CONTROL_WSPACE_MSK) \<noteq> 0"
proof -
  obtain h where h: "iord_control regs (ju_hw s) = (v, h)" and s': "s' = s\<lparr>ju_hw := h\<rparr>"
    using assms(2) by (auto simp: read_control_def Let_def split: prod.splits)
  from assms(1) h have d: "enabled h = enabled (ju_hw s)" "pending h = pending (ju_hw s)"
    by (auto simp: uart_device_def)
  show "rings_ok s' = rings_ok s" "enables_known enabled s' = enables_known enabled s"
    "isr_work pending enabled s' = isr_work pending enabled s"
    "ju_rx s' = ju_rx s" "ju_tx s' = ju_tx s" "ju_irq_enable s' = ju_irq_enable s"
    using d s' by (simp_all add: rings_ok_def isr_defs)
  show "v AND CONTROL_RI_MSK \<noteq> 0 \<Longrightarrow>
       enabled (ju_hw s) AND CONTROL_RE_MSK \<noteq> 0 \<and> fst (iord_data regs (ju_hw s')) AND DATA_RVALID_MSK \<noteq> 0"
    "v AND CONTROL_WI_MSK \<noteq> 0 \<Longrightarrow>
       enabled (ju_hw s) AND CONTROL_WE_MSK \<noteq> 0 \<and> drop_bit 16 (v AND CONTROL_WSPACE_MSK) \<noteq> 0"
    using assms(1) h s' by (auto simp: uart_device_def)
qed

lemma read_control_enabled:
  "uart_device regs pending enabled \<Longrightarrow> read_control regs s = (v, s') \<Longrightarrow> enabled (ju_hw s') = enabled (ju_hw s)"
  by (auto simp: uart_device_def read_control_def Let_def split: prod.splits)

lemma enable_bits:
  fixes x :: u32
  shows "(x AND - 2) AND 2 = x AND 2" "(x AND - 3) AND 1 = x AND 1" "(x AND - 2) AND 1 = 0" "(x AND - 3) AND 2 = 0"
    "(x AND 3) AND 1 = x AND 1" "(x AND 3) AND 2 = x AND 2"
  by (simp_all add: and.assoc)

lemma enable_bits_3: "(1 OR 2 :: u32) = 3"
  by code_simp

text \<open>Switching an interrupt off that was on.\<close>

lemma disable_served:
  assumes "uart_device regs pending enabled" "rings_ok s" "msk \<in> {CONTROL_RE_MSK, CONTROL_WE_MSK}"
    and "s2 = s\<lparr>ju_irq_enable := ju_irq_enable s AND NOT msk\<rparr>"
    and "s3 = snd (read_control regs (write_control regs (ju_irq_enable s2) s2))"
  shows "served pending enabled s s3"
    "either_on enabled msk s \<Longrightarrow> isr_work pending enabled s3 < isr_work pending enabled s"
proof -
  let ?w = "write_control regs (ju_irq_enable s2) s2"
  obtain v where r: "read_control regs ?w = (v, s3)" using assms(5) by (cases "read_control regs ?w") simp
  have n: "enabled (ju_hw ?w) = ju_irq_enable s2 AND (CONTROL_RE_MSK OR CONTROL_WE_MSK)"
    "pending (ju_hw ?w) = pending (ju_hw s)"
    using assms(1) by (simp_all add: uart_device_def write_control_def assms(4))
  have "enables_known enabled ?w"
    unfolding enables_known_def n enable_bits_3 by (simp add: write_control_def enable_bits)
  moreover have "rings_ok ?w" using assms(2) by (simp add: rings_ok_def write_control_def assms(4))
  moreover have "isr_work pending enabled ?w \<le> isr_work pending enabled s"
    "either_on enabled msk s \<Longrightarrow> isr_work pending enabled ?w < isr_work pending enabled s"
    using assms(3) unfolding isr_work_def either_on_def n enable_bits_3
    by (auto simp: write_control_def assms(4) enable_bits)
  ultimately show "served pending enabled s s3"
    "either_on enabled msk s \<Longrightarrow> isr_work pending enabled s3 < isr_work pending enabled s"
    using read_control_device [OF assms(1) r] by (simp_all add: served_def write_control_def assms(4))
qed

text \<open>The inner loop of the read interrupt.\<close>

lemma rx_drain_returns:
  assumes "uart_device regs pending enabled"
  shows "rings_ok s \<Longrightarrow> \<exists>v s'. rx_drain regs d s = Some (v, s') \<and>
     served pending enabled s s' \<and> either_on enabled CONTROL_RE_MSK s' = either_on enabled CONTROL_RE_MSK s \<and>
     (fst (iord_data regs (ju_hw s)) AND DATA_RVALID_MSK \<noteq> 0 \<longrightarrow>
        isr_work pending enabled s' < isr_work pending enabled s \<or> v = d)"
proof (induction "pending (ju_hw s)" arbitrary: s d rule: less_induct)
  case less
  show ?case
  proof (cases "ring_full (ju_rx s)")
    case True
    with less.prems show ?thesis by (subst rx_drain.simps) (simp add: served_def)
  next
    case full: False
    obtain v h where v: "iord_data regs (ju_hw s) = (v, h)" by fastforce
    with assms have d: "enabled h = enabled (ju_hw s)" "pending h \<le> pending (ju_hw s)"
      "v AND DATA_RVALID_MSK \<noteq> 0 \<longrightarrow> pending h < pending (ju_hw s)" by (auto simp: uart_device_def)
    show ?thesis
    proof (cases "v AND DATA_RVALID_MSK = 0")
      case True
      have "served pending enabled s (s\<lparr>ju_hw := h\<rparr>)"
        using less.prems d by (auto simp: rings_ok_def isr_defs)
      with full v True d(1) show ?thesis by (subst rx_drain.simps) (simp add: either_on_def)
    next
      case False
      let ?s = "s\<lparr>ju_hw := h, ju_rx := ring_push (data_byte v) (ju_rx s)\<rparr>"
      have ok: "rings_ok ?s"
        using less.prems full uart_ring.push_ok [of "ju_rx s" "data_byte v"] by (auto simp: rings_ok_def)
      have lt: "isr_work pending enabled ?s < isr_work pending enabled s" using d False by (simp add: isr_defs)
      have en: "enables_known enabled ?s = enables_known enabled s" "either_on enabled m ?s = either_on enabled m s" for m
        using d(1) by (simp_all add: isr_defs)
      have "pending (ju_hw ?s) < pending (ju_hw s)" using d False by simp
      from less.hyps [OF this ok, of v] obtain w s' where r: "rx_drain regs v ?s = Some (w, s')"
        and s: "served pending enabled ?s s'" "either_on enabled CONTROL_RE_MSK s' = either_on enabled CONTROL_RE_MSK ?s" by auto
      have "rx_drain regs d s = Some (w, s')" using full v False r by (subst rx_drain.simps) simp
      with s lt en show ?thesis by (auto simp: served_def)
    qed
  qed
qed

text \<open>The two interrupts.\<close>

lemma isr_rx_returns:
  assumes "uart_device regs pending enabled" "rings_ok s"
    and "enabled (ju_hw s) AND CONTROL_RE_MSK \<noteq> 0" "fst (iord_data regs (ju_hw s)) AND DATA_RVALID_MSK \<noteq> 0"
  shows "\<exists>s'. isr_rx regs s = Some s' \<and> served pending enabled s s' \<and>
     isr_work pending enabled s' < isr_work pending enabled s"
proof -
  from rx_drain_returns [OF assms(1,2), of "push_bit 16 1"] assms(4) obtain v s1
    where r: "rx_drain regs (push_bit 16 1) s = Some (v, s1)" and s1: "served pending enabled s s1"
      and e: "either_on enabled CONTROL_RE_MSK s1 = either_on enabled CONTROL_RE_MSK s"
      and p: "isr_work pending enabled s1 < isr_work pending enabled s \<or> v = push_bit 16 1" by auto
  show ?thesis
  proof (cases "v AND DATA_RAVAIL_MSK = 0")
    case True
    then have "v \<noteq> push_bit 16 1" by auto
    with p True r s1 show ?thesis by (simp add: isr_rx_def)
  next
    case False
    have ok: "rings_ok s1" using s1 by (simp add: served_def)
    note D = disable_served [OF assms(1) ok, of CONTROL_RE_MSK, OF _ refl refl, simplified]
    have "either_on enabled CONTROL_RE_MSK s1" unfolding e using assms(3) by (simp add: either_on_def)
    with D s1 False r show ?thesis by (simp add: isr_rx_def Let_def served_def)
  qed
qed

lemma tx_fill_returns:
  assumes "uart_device regs pending enabled"
  shows "rings_ok s \<Longrightarrow> tx_fill regs n s = (m, s') \<Longrightarrow>
     served pending enabled s s' \<and> either_on enabled CONTROL_WE_MSK s' = either_on enabled CONTROL_WE_MSK s \<and>
     (0 < n \<and> m = 0 \<longrightarrow> isr_work pending enabled s' < isr_work pending enabled s)"
proof (induction n arbitrary: s)
  case 0
  then show ?case by (simp add: served_def)
next
  case (Suc n)
  show ?case
  proof (cases "ring_empty (ju_tx s)")
    case True
    with Suc.prems show ?thesis by (auto simp: served_def)
  next
    case False
    obtain c r where p: "ring_pop (ju_tx s) = (c, r)" by fastforce
    let ?s = "s\<lparr>ju_hw := iowr_data regs (ucast c) (ju_hw s), ju_tx := r\<rparr>"
    have "ring_ok r" "ring_queue (ju_tx s) = c # ring_queue r"
      using uart_ring.pop_ok [OF _ False p] Suc.prems(1) by (auto simp: rings_ok_def)
    then have "rings_ok ?s" "enables_known enabled ?s = enables_known enabled s"
      "isr_work pending enabled ?s < isr_work pending enabled s"
      "either_on enabled CONTROL_WE_MSK ?s = either_on enabled CONTROL_WE_MSK s"
      using Suc.prems(1) assms by (auto simp: rings_ok_def isr_defs uart_device_def)
    moreover have "tx_fill regs n ?s = (m, s')" using Suc.prems(2) False p by simp
    ultimately show ?thesis using Suc.IH [of ?s] by (auto simp: served_def)
  qed
qed

lemma isr_tx_returns:
  assumes "uart_device regs pending enabled" "rings_ok s" "drop_bit 16 (control AND CONTROL_WSPACE_MSK) \<noteq> 0"
  shows "served pending enabled s (isr_tx regs control s)"
    "either_on enabled CONTROL_WE_MSK s \<Longrightarrow> isr_work pending enabled (isr_tx regs control s) < isr_work pending enabled s"
proof -
  let ?n = "unat (drop_bit 16 (control AND CONTROL_WSPACE_MSK))"
  obtain m s1 where t: "tx_fill regs ?n s = (m, s1)" by fastforce
  have n: "0 < ?n" using assms(3) by (simp add: unat_gt_0)
  from tx_fill_returns [OF assms(1,2) t] n have s1: "served pending enabled s s1"
    "either_on enabled CONTROL_WE_MSK s1 = either_on enabled CONTROL_WE_MSK s"
    "m = 0 \<longrightarrow> isr_work pending enabled s1 < isr_work pending enabled s" by auto
  have ok: "rings_ok s1" using s1 by (simp add: served_def)
  note D = disable_served [OF assms(1) ok, of CONTROL_WE_MSK, OF _ refl refl, simplified]
  show "served pending enabled s (isr_tx regs control s)"
    "either_on enabled CONTROL_WE_MSK s \<Longrightarrow> isr_work pending enabled (isr_tx regs control s) < isr_work pending enabled s"
    using D s1 t by (cases "m = 0"; simp add: isr_tx_def Let_def served_def)+
qed

text \<open>The whole handler.\<close>

lemma uart_irq_served:
  assumes "uart_device regs pending enabled" and "rings_ok s"
  shows "\<exists>s' v h. uart_irq regs s = Some s' \<and> served pending enabled s s' \<and>
           iord_control regs h = (v, ju_hw s') \<and> v AND (CONTROL_RI_MSK OR CONTROL_WI_MSK) = 0"
  using assms(2)
proof (induction "isr_work pending enabled s" arbitrary: s rule: less_induct)
  case less
  obtain control s1 where c: "read_control regs s = (control, s1)" by fastforce
  note dev = read_control_device [OF assms(1) c]
  have ok1: "rings_ok s1" using dev(1) less.prems by auto
  show ?case
  proof (cases "control AND (CONTROL_RI_MSK OR CONTROL_WI_MSK) = 0")
    case True
    obtain h where "iord_control regs h = (control, ju_hw s1)"
      using c by (auto simp: read_control_def Let_def split: prod.splits)
    moreover have "uart_irq regs s = Some s1" using c True by (subst uart_irq.simps) simp
    ultimately show ?thesis using ok1 dev(2,3) True by (auto simp: served_def)
  next
    case False
    have en: "control AND CONTROL_RI_MSK \<noteq> 0 \<Longrightarrow> enabled (ju_hw s1) AND CONTROL_RE_MSK \<noteq> 0"
      "control AND CONTROL_WI_MSK \<noteq> 0 \<Longrightarrow> either_on enabled CONTROL_WE_MSK s1"
      using dev(7,8) read_control_enabled [OF assms(1) c] by (auto simp: either_on_def)
    obtain s2 where s2: "(if control AND CONTROL_RI_MSK \<noteq> 0 then isr_rx regs s1 else Some s1) = Some s2"
        "served pending enabled s1 s2"
        "if control AND CONTROL_RI_MSK \<noteq> 0 then isr_work pending enabled s2 < isr_work pending enabled s1 else s2 = s1"
      using isr_rx_returns [OF assms(1) ok1] en(1) dev(7) ok1
      by (cases "control AND CONTROL_RI_MSK = 0") (auto simp: served_def)
    let ?s3 = "if control AND CONTROL_WI_MSK \<noteq> 0 then isr_tx regs control s2 else s2"
    have ok2: "rings_ok s2" using s2(2) by (simp add: served_def)
    have s3: "served pending enabled s2 ?s3"
        "control AND CONTROL_WI_MSK \<noteq> 0 \<Longrightarrow> s2 = s1 \<Longrightarrow> isr_work pending enabled ?s3 < isr_work pending enabled s1"
      using isr_tx_returns [OF assms(1) ok2, of control] en(2) dev(8) ok2 by (auto simp: served_def)
    have "control AND CONTROL_RI_MSK \<noteq> 0 \<or> control AND CONTROL_WI_MSK \<noteq> 0"
      using False unfolding bit.conj_disj_distrib by auto
    then have lt: "isr_work pending enabled ?s3 < isr_work pending enabled s"
      using s2(3) s3 dev(3) by (auto simp: served_def split: if_splits)
    from less.hyps [OF lt] s3(1) obtain s' v h where r: "uart_irq regs ?s3 = Some s'"
      "served pending enabled ?s3 s'" "iord_control regs h = (v, ju_hw s')" "v AND (CONTROL_RI_MSK OR CONTROL_WI_MSK) = 0"
      by (auto simp: served_def)
    moreover have "uart_irq regs s = Some s'"
      using c False s2(1) r(1) by (subst uart_irq.simps) simp
    moreover have "served pending enabled s s'" using r(2) lt s2(2) s3(1) dev(2) by (auto simp: served_def)
    ultimately show ?thesis by blast
  qed
qed

text \<open>Whatever the driver knows of the enable bits, on such a device every run of the handler returns.\<close>

lemma handler_returns_device:
  assumes "uart_device regs pending enabled" and "rings_ok s"
  shows "uart_irq regs s \<noteq> None"
  using uart_irq_served [OF assms] by auto

lemma uart_device_logged:
  "uart_device regs pending enabled \<Longrightarrow> uart_device (logged regs) (\<lambda>w. pending (fst w)) (\<lambda>w. enabled (fst w))"
  unfolding uart_device_def logged_def by (auto split: prod.splits) (metis fst_conv)

text \<open>So handler and timer are events of the kind the foreground calls allow for.\<close>

lemma isr_event_device:
  assumes "uart_device regs pending enabled" and "rings_ok s"
  shows "uart_irq (logged regs) s = Some (isr_event regs s)"
  using handler_returns_device [OF uart_device_logged [OF assms(1)], of s] assms(2) by (auto simp: isr_event_def)

lemma handler_events:
  assumes "uart_device regs pending enabled" and "set es \<subseteq> {isr_event regs, timeout_event regs}"
  shows "async_events log_trace es"
proof -
  have "async log_trace s (isr_event regs s)" if "rings_ok s" for s
    using isr_event_async [OF that] isr_event_device [OF assms(1) that] by simp
  with assms(2) timeout_event_async show ?thesis unfolding async_events_def by blast
qed

section \<open>Properties\<close>

lemma no_interrupt:
  assumes "v AND (CONTROL_RI_MSK OR CONTROL_WI_MSK) = (0 :: u32)"
  shows "v AND CONTROL_RI_MSK = 0 \<and> v AND CONTROL_WI_MSK = 0"
proof -
  have "v AND CONTROL_RI_MSK = (v AND (CONTROL_RI_MSK OR CONTROL_WI_MSK)) AND CONTROL_RI_MSK"
    "v AND CONTROL_WI_MSK = (v AND (CONTROL_RI_MSK OR CONTROL_WI_MSK)) AND CONTROL_WI_MSK"
    by (simp_all add: and.assoc)
  then show ?thesis unfolding assms by simp
qed

text \<open>C24: On a device that keeps to its documentation and to which the host sends only so many bytes, the
  interrupt handler returns, at a read of the control register that shows neither interrupt pending; the
  queues are well formed and every enabled interrupt is one the driver knows of.\<close>

theorem uart_irq_returns:
  assumes "uart_device regs pending enabled" and "rings_ok s" and "enables_known enabled s"
  shows "\<exists>s' v h. uart_irq regs s = Some s' \<and> rings_ok s' \<and> enables_known enabled s' \<and>
           iord_control regs h = (v, ju_hw s') \<and> v AND CONTROL_RI_MSK = 0 \<and> v AND CONTROL_WI_MSK = 0"
  using uart_irq_served [OF assms(1,2)] assms(3) unfolding served_def by (blast dest: no_interrupt)

section \<open>Witness\<close>

text \<open>A device with its two FIFOs and the enabled interrupts.\<close>

definition jtag_fifo :: "(u8 list \<times> u8 list \<times> u32) regs" where
  "jtag_fifo = \<lparr>
     iord_data = (\<lambda>(rx, tx, en). case rx of [] \<Rightarrow> (0, rx, tx, en)
                   | c # cs \<Rightarrow> (ucast c OR DATA_RVALID_MSK OR (if cs = [] then 0 else 0x10000), cs, tx, en)),
     iowr_data = (\<lambda>v (rx, tx, en). (rx, tx @ [ucast v], en)),
     iord_control = (\<lambda>(rx, tx, en).
       ((if rx \<noteq> [] \<and> en AND CONTROL_RE_MSK \<noteq> 0 then
           if en AND CONTROL_WE_MSK \<noteq> 0 then 0x80300 else 0x80100
         else if en AND CONTROL_WE_MSK \<noteq> 0 then 0x80200 else 0x80000), rx, tx, en)),
     iowr_control = (\<lambda>v (rx, tx, en). (rx, tx, v AND (CONTROL_RE_MSK OR CONTROL_WE_MSK)))\<rparr>"

lemma jtag_fifo_valid: "(ucast c OR DATA_RVALID_MSK OR x :: u32) AND DATA_RVALID_MSK \<noteq> 0"
proof -
  have "bit ((ucast c OR DATA_RVALID_MSK OR x) AND DATA_RVALID_MSK) 15" by (simp add: bit_simps)
  then show ?thesis by (metis bit_0_eq bot_apply bot_bool_def)
qed

lemma jtag_fifo_device: "uart_device jtag_fifo (\<lambda>(rx, tx, en). length rx) (\<lambda>(rx, tx, en). en)"
  unfolding uart_device_def jtag_fifo_def
  by (intro conjI allI impI) (auto simp: jtag_fifo_valid neq_Nil_conv split: list.splits if_splits)

theorem uart_irq_returns_witness:
  "\<exists>s' v h. uart_irq jtag_fifo ((uart_instance ([65, 66], [], 3))\<lparr>ju_irq_enable := 3\<rparr>) = Some s' \<and>
     iord_control jtag_fifo h = (v, ju_hw s') \<and> v AND CONTROL_RI_MSK = 0"
proof -
  let ?s = "(uart_instance ([65, 66], [], 3))\<lparr>ju_irq_enable := 3\<rparr> :: (u8 list \<times> u8 list \<times> u32) uart"
  have "rings_ok ?s" "enables_known (\<lambda>(rx, tx, en). en) ?s"
    by (simp_all add: rings_ok_def uart_instance_def ring_init_ok enables_known_def)
  from uart_irq_returns [OF jtag_fifo_device this] show ?thesis by blast
qed
end
