(* ===== verification/JtagHost.thy ===== *)
theory JtagHost
  imports JtagIrq
begin

text \<open>
  The interrupt-driven UART when nobody reads the other end of the cable (\<^verbatim>\<open>altera_avalon_jtag_uart_init.c\<close>,
  the waits of \<^verbatim>\<open>_read.c\<close>, \<^verbatim>\<open>_write.c\<close> and \<^verbatim>\<open>_ioctl.c\<close>).  The timer counts the seconds in which the device has
  not seen the host; once they reach the timeout every blocking call gives up.  The last section runs the
  timer on the system clock.
\<close>

section \<open>Seconds without a host\<close>

text \<open>
  The device sets the AC bit of the control register when the host polls it.  What happens while a call
  waits is the interrupt handler, at any time, and the timer, once in every second.
\<close>

definition host_gone :: "'h regs \<Rightarrow> bool" where
  "host_gone regs \<longleftrightarrow> (\<forall>h. fst (iord_control regs h) AND CONTROL_AC_MSK = 0)"

datatype uart_event = Handler | Second

fun event_of :: "'h regs \<Rightarrow> uart_event \<Rightarrow> ('h \<times> uart_access list) uart \<Rightarrow> ('h \<times> uart_access list) uart" where
  "event_of regs Handler = isr_event regs"
| "event_of regs Second = timeout_event regs"

text \<open>One second without a host adds one to the count, which stops two below \<^verbatim>\<open>INT_MAX\<close>.\<close>

lemma uart_timeout_gone:
  assumes "host_gone regs"
  shows "\<exists>h. uart_timeout regs ticks s =
    (ticks, s\<lparr>ju_hw := h, ju_host_inactive :=
       (if ju_host_inactive s < INT_MAX - 2 then ju_host_inactive s + 1 else ju_host_inactive s)\<rparr>)"
proof -
  obtain v h where v: "iord_control regs (ju_hw s) = (v, h)" by fastforce
  then have "v AND CONTROL_AC_MSK = 0" using assms unfolding host_gone_def by (metis fst_conv)
  with v show ?thesis by (intro exI [of _ h]) (simp add: uart_timeout_def read_control_def)
qed

lemma host_gone_logged: "host_gone regs \<Longrightarrow> host_gone (logged regs)"
  by (auto simp: host_gone_def logged_def split: prod.split) (metis fst_conv)

lemma second_below: "(x :: u32) < INT_MAX - 2 \<Longrightarrow> unat (x + 1) = unat x + 1"
  by (subst unat_add_no_overflow) (auto simp: word_less_nat_alt)

text \<open>
  \<open>waits regs es s\<close>: the timeout is one that can be reached, the events have the seconds that are
  missing, and the device keeps to its documentation, so that the handler returns whenever it runs.
\<close>

definition waits :: "'h regs \<Rightarrow> ('h \<times> uart_access list) events \<Rightarrow> ('h \<times> uart_access list) uart \<Rightarrow> bool" where
  "waits regs es s \<longleftrightarrow> (\<exists>pending enabled. uart_device regs pending enabled) \<and> rings_ok s \<and> 0 < ju_timeout s \<and> ju_timeout s \<le> INT_MAX - 2 \<and>
     (\<exists>ks. es = map (event_of regs) ks \<and>
        unat (ju_timeout s) \<le> unat (ju_host_inactive s) + count_list ks Second)"

lemma waits_async:
  assumes "waits regs es s"
  shows "rings_ok s" "async_events log_trace es" "0 < ju_timeout s"
proof -
  from assms obtain ks pending enabled where d: "uart_device regs pending enabled" and "es = map (event_of regs) ks"
    by (auto simp: waits_def)
  then have "set es \<subseteq> {isr_event regs, timeout_event regs}"
    by (auto elim: event_of.elims) (metis event_of.simps uart_event.exhaust)
  then show "async_events log_trace es" by (rule handler_events [OF d])
qed (use assms in \<open>simp_all add: waits_def\<close>)

lemma waits_over: "waits regs [] s \<Longrightarrow> \<not> ju_host_inactive s < ju_timeout s"
  by (auto simp: waits_def word_less_nat_alt)

lemma waits_same:
  "waits regs es s \<Longrightarrow> rings_ok t \<Longrightarrow> ju_timeout t = ju_timeout s \<Longrightarrow> ju_host_inactive t = ju_host_inactive s \<Longrightarrow>
   waits regs es t"
  by (simp add: waits_def)

lemma isr_event_counts:
  assumes "uart_device regs pending enabled" and "rings_ok s"
  shows "rings_ok (isr_event regs s)" "ju_timeout (isr_event regs s) = ju_timeout s"
    "ju_host_inactive (isr_event regs s) = ju_host_inactive s"
  using uart_irq_moved [OF isr_event_device [OF assms] refl assms(2)] by (auto simp: moved_def)

lemma waits_event:
  assumes "host_gone regs" "waits regs (e # es) s"
  shows "waits regs es (e s)"
proof -
  from assms(2) obtain k ks where e: "e = event_of regs k" "es = map (event_of regs) ks"
    and t: "unat (ju_timeout s) \<le> unat (ju_host_inactive s) + count_list (k # ks) Second"
    and s: "rings_ok s" "0 < ju_timeout s" "ju_timeout s \<le> INT_MAX - 2"
    and d: "\<exists>pending enabled. uart_device regs pending enabled"
    by (auto simp: waits_def)
  show ?thesis
  proof (cases k)
    case Handler
    from d obtain pending enabled where "uart_device regs pending enabled" by blast
    from isr_event_counts [OF this s(1)] Handler e s t d show ?thesis by (auto simp: waits_def)
  next
    case Second
    have ok: "rings_ok (timeout_event regs s)" using async_rings [OF timeout_event_async [OF s(1)]] .
    from uart_timeout_gone [OF host_gone_logged [OF assms(1)], of 0 s] obtain h where
      "timeout_event regs s = s\<lparr>ju_hw := h, ju_host_inactive :=
         (if ju_host_inactive s < INT_MAX - 2 then ju_host_inactive s + 1 else ju_host_inactive s)\<rparr>"
      by (auto simp: timeout_event_def)
    with second_below [of "ju_host_inactive s"] Second e s t ok d show ?thesis unfolding waits_def
      by (intro conjI exI [of _ ks]) (auto simp: word_less_nat_alt word_le_nat_alt)
  qed
qed

lemma waits_next:
  assumes "host_gone regs" "waits regs es s" "next_event es s = (es', s')"
  shows "waits regs es' s'"
  using assms waits_event by (cases es) auto

section \<open>Every blocking call returns\<close>

lemma close_waits:
  assumes "host_gone regs"
  shows "waits regs es s \<Longrightarrow> flags AND O_NONBLOCK = 0 \<Longrightarrow> \<exists>es' s'. uart_close flags es s = Inr (0, es', s')"
proof (induction es arbitrary: s)
  case Nil
  with waits_over show ?case by (subst uart_close.simps) auto
next
  case (Cons e es)
  from Cons.IH [OF waits_event [OF assms Cons.prems(1)] Cons.prems(2)] Cons.prems(2)
  show ?case by (subst uart_close.simps) auto
qed

text \<open>The two waits end, and what they wait for changes only in an event.\<close>

lemma spin_read_waits:
  assumes "host_gone regs"
  shows "waits regs es s \<Longrightarrow> \<exists>es' s'. spin_read i es s = Inr (es', s') \<and> waits regs es' s' \<and>
    length es' \<le> length es \<and> (i = rb_in (ju_rx s) \<and> i \<noteq> rb_in (ju_rx s') \<longrightarrow> length es' < length es)"
proof (induction es arbitrary: s)
  case Nil
  with waits_over show ?case by (subst spin_read.simps) auto
next
  case (Cons e es)
  with Cons.IH [OF waits_event [OF assms Cons.prems]] show ?case
    by (subst spin_read.simps) (auto simp: less_Suc_eq_le)
qed

lemma spin_write_waits:
  assumes "host_gone regs"
  shows "waits regs es s \<Longrightarrow> \<exists>es' s'. spin_write i es s = Inr (es', s') \<and> waits regs es' s' \<and>
    length es' \<le> length es \<and>
    (i = rb_out (ju_tx s) \<and> ju_host_inactive s' = 0 \<longrightarrow> length es' < length es)"
proof (induction es arbitrary: s)
  case Nil
  with waits_over [OF Nil] waits_async(3) [OF Nil] show ?case by (subst spin_write.simps) auto
next
  case (Cons e es)
  with Cons.IH [OF waits_event [OF assms Cons.prems]] waits_async(3) [OF Cons.prems] show ?case
    by (subst spin_write.simps) (auto simp: less_Suc_eq_le word_less_nat_alt)
qed

text \<open>A round of the read loop that finds nothing has waited for one event and read \<^verbatim>\<open>rx_in\<close> after it.\<close>

lemma read_chunks_nothing:
  assumes "read_chunks space es s = (i, [], space', es', s')" "0 < space" "rings_ok s" "async_events tr es"
  shows "next_event es s = (es', s') \<and> i = rb_in (ju_rx s')"
proof -
  obtain es1 s1 where e1: "next_event es s = (es1, s1)" by fastforce
  from next_event_async [OF e1 assms(4,3)] have ok: "ring_ok (ju_rx s1)" by (simp add: rings_ok_def)
  have "ring_avail (ju_rx s1) = 0"
  proof (rule ccontr)
    assume n: "ring_avail (ju_rx s1) \<noteq> 0"
    let ?n1 = "if space < ring_avail (ju_rx s1) then space else ring_avail (ju_rx s1)"
    have "length (ring_copy_out ?n1 (ju_rx s1)) = ?n1" using uart_ring.get_ok [OF ok, of ?n1] by simp
    then have "ring_copy_out ?n1 (ju_rx s1) \<noteq> []" using n assms(2) by (auto split: if_splits)
    with assms(1,2) e1 n show False
      by (subst (asm) read_chunks.simps) (auto simp: Let_def split: prod.splits if_splits)
  qed
  with assms(1,2) e1 show ?thesis by (subst (asm) read_chunks.simps) (auto simp: Let_def)
qed

lemma read_loop_waits:
  assumes "host_gone regs"
  shows "waits regs es s \<Longrightarrow> \<exists>r. read_loop space flags es s = Inr r"
proof (induction "length es" arbitrary: space es s rule: less_induct)
  case (less es space s)
  obtain i b space1 es1 s1 where r: "read_chunks space es s = (i, b, space1, es1, s1)" by (rule prod_cases5)
  show ?case
  proof (cases "0 < space \<and> b = [] \<and> flags AND O_NONBLOCK = 0")
    case False
    then show ?thesis by (subst read_loop.simps) (auto simp: r Let_def)
  next
    case True
    with r read_chunks_nothing [of space es s i space1 es1 s1] waits_async [OF less.prems]
    have e: "next_event es s = (es1, s1)" and i: "i = rb_in (ju_rx s1)" by auto
    from spin_read_waits [OF assms waits_next [OF assms less.prems e], of i] obtain es2 s2
      where sp: "spin_read i es1 s1 = Inr (es2, s2)" and w: "waits regs es2 s2"
        and l: "i \<noteq> rb_in (ju_rx s2) \<longrightarrow> length es2 < length es1" using i by blast
    have "i \<noteq> rb_in (ju_rx s2) \<Longrightarrow> length es2 < length es" using l next_event_length [OF e] by simp
    with less.hyps [OF _ w, of space1] True sp r show ?thesis by (subst read_loop.simps) (auto simp: Let_def)
  qed
qed

text \<open>The copy loop of write: it stops early at a full buffer, with the last value of \<^verbatim>\<open>tx_out\<close>.\<close>

lemma write_chunks_waits:
  "write_chunks prev ptr es s = (out, rest, es', s') \<Longrightarrow> host_gone regs \<Longrightarrow> waits regs es s \<Longrightarrow>
   waits regs es' s' \<and> length es' \<le> length es \<and> (rest \<noteq> [] \<longrightarrow> out = rb_out (ju_tx s'))"
proof (induction prev ptr es s arbitrary: out rest es' s' rule: write_chunks.induct)
  case (1 prev ptr es s)
  show ?case
  proof (cases "ptr = []")
    case True
    with "1.prems" show ?thesis by (subst (asm) write_chunks.simps) auto
  next
    case ne: False
    obtain es1 s1 where e1: "next_event es s = (es1, s1)" by fastforce
    note w1 = waits_next [OF "1.prems"(2,3) e1] and l1 = next_event_length [OF e1]
    let ?n = "ring_room (ju_tx s1)"
    show ?thesis
    proof (cases "?n = 0")
      case True
      with "1.prems"(1) ne e1 w1 l1 show ?thesis by (subst (asm) write_chunks.simps) (auto simp: Let_def)
    next
      case False
      let ?n1 = "if length ptr < ?n then length ptr else ?n"
      let ?s2 = "s1\<lparr>ju_tx := ring_copy_in (take ?n1 ptr) (ju_tx s1)\<rparr>"
      obtain es2 s3 where e2: "next_event es1 ?s2 = (es2, s3)" by fastforce
      let ?s4 = "s3\<lparr>ju_tx := (ju_tx s3)\<lparr>rb_in := (rb_in (ju_tx s1) + ?n1) mod BUF_LEN\<rparr>\<rparr>"
      have room: "length (take ?n1 ptr) \<le> ?n" by auto
      have ok2: "rings_ok ?s2" using waits_async(1) [OF w1] ring_put_ok(1) [OF _ room] by (auto simp: rings_ok_def)
      then have w2: "waits regs es1 ?s2" by (rule waits_same [OF w1]) simp_all
      note w3 = waits_next [OF "1.prems"(2) w2 e2]
      have "length (take ?n1 ptr) = ?n1" by auto
      with gave_chunk [OF waits_async(1) [OF w1] room next_event_async(1) [OF e2 waits_async(2) [OF w2] ok2]]
      have "rings_ok ?s4" by (simp add: flow_def)
      then have w4: "waits regs es2 ?s4" by (rule waits_same [OF w3]) simp_all
      have rec: "write_chunks (rb_out (ju_tx s1)) (drop ?n1 ptr) es2 ?s4 = (out, rest, es', s')"
        using "1.prems"(1) ne e1 e2 False by (subst (asm) write_chunks.simps) (simp add: Let_def)
      from "1.IH" [OF ne e1 [symmetric] refl refl refl refl False refl refl e2 [symmetric] refl refl rec "1.prems"(2) w4]
        l1 next_event_length [OF e2] show ?thesis by auto
    qed
  qed
qed

lemma write_loop_waits:
  assumes "host_gone regs"
  shows "waits regs es s \<Longrightarrow> \<exists>r. write_loop (logged regs) prev ptr flags es s = Inr r"
proof (induction "length es" arbitrary: prev ptr es s rule: less_induct)
  case (less es prev ptr s)
  obtain out b es1 s1 where w: "write_chunks prev ptr es s = (out, b, es1, s1)" by (rule prod_cases4)
  note w1 = write_chunks_waits [OF w assms less.prems]
  let ?s2 = "s1\<lparr>ju_irq_enable := ju_irq_enable s1 OR CONTROL_WE_MSK\<rparr>"
  let ?s3 = "write_control (logged regs) (ju_irq_enable ?s2) ?s2"
  show ?case
  proof (cases "b = [] \<or> flags AND O_NONBLOCK \<noteq> 0")
    case True
    then show ?thesis by (subst write_loop.simps) (auto simp: w Let_def)
  next
    case False
    have "waits regs es1 ?s3"
      using w1 waits_async(1) [of regs es1 s1] waits_same [of regs es1 s1 ?s3]
      by (simp add: write_control_def rings_ok_def)
    from spin_write_waits [OF assms this, of out] obtain es2 s4
      where sw: "spin_write out es1 ?s3 = Inr (es2, s4)" and w4: "waits regs es2 s4"
        and l: "ju_host_inactive s4 = 0 \<longrightarrow> length es2 < length es1"
      using w1 False by (auto simp: write_control_def)
    have "ju_host_inactive s4 = 0 \<Longrightarrow> length es2 < length es" using l w1 by simp
    with less.hyps [OF _ w4, of out b] False w sw show ?thesis
      by (subst write_loop.simps) (auto simp: Let_def)
  qed
qed

section \<open>The timer on the system clock\<close>

text \<open>The callback as the initialisation registers it: its state is that of the driver.\<close>

definition timeout_callback :: "'h regs \<Rightarrow> u32 \<Rightarrow> 'cb \<Rightarrow> addr \<Rightarrow> 'h uart \<Rightarrow> u32 \<times> 'h uart" where
  "timeout_callback regs rate cb ctx s = uart_timeout regs rate s"

lemma uart_timeouts_gone:
  assumes "host_gone regs"
  shows "ju_timeout (((\<lambda>s. snd (uart_timeout regs rate s)) ^^ m) s) = ju_timeout s \<and>
    unat (ju_host_inactive (((\<lambda>s. snd (uart_timeout regs rate s)) ^^ m) s)) =
      max (unat (ju_host_inactive s)) (min (unat (ju_host_inactive s) + m) (unat (INT_MAX - 2)))"
proof (induction m)
  case (Suc m)
  let ?s = "((\<lambda>s. snd (uart_timeout regs rate s)) ^^ m) s"
  from uart_timeout_gone [OF assms, of rate ?s] obtain h where "snd (uart_timeout regs rate ?s) = ?s\<lparr>ju_hw := h,
    ju_host_inactive := (if ju_host_inactive ?s < INT_MAX - 2 then ju_host_inactive ?s + 1 else ju_host_inactive ?s)\<rparr>"
    by auto
  with Suc second_below [of "ju_host_inactive ?s"] show ?case by (auto simp: word_less_nat_alt)
qed simp

section \<open>Properties\<close>

text \<open>C26: When the host is gone, blocking calls return as soon as the timer has run as often as is missing to
  the timeout, whenever and however often the interrupt handler runs meanwhile, on a device that keeps to its
  documentation, so that the handler itself returns: close with success, read with the bytes
  that had been received or EIO, and write with the number of bytes it put into the buffer or EIO; no byte is
  lost or out of order in either direction.\<close>

theorem host_gone_returns:
  assumes "uart_device regs pending enabled" and "host_gone regs" and "rings_ok s" and "flags AND O_NONBLOCK = 0"
    and "0 < ju_timeout s" and "ju_timeout s \<le> INT_MAX - 2"
    and "unat (ju_timeout s) \<le> unat (ju_host_inactive s) + count_list ks Second"
    and "es = map (event_of regs) ks"
  shows "(\<exists>es' s'. uart_close flags es s = Inr (0, es', s')) \<and>
    (\<exists>bytes es' s'.
       uart_read (logged regs) space flags es s = Inr ((if bytes = [] then - EIO else int (length bytes), bytes), es', s') \<and>
       flow log_trace s s' bytes []) \<and>
    (\<exists>n es' s'.
       uart_write (logged regs) ptr flags es s = Inr (if n = 0 then - EIO else int n, es', s') \<and> n \<le> length ptr \<and>
       flow log_trace s s' [] (take n ptr))"
proof -
  have w: "waits regs es s" using assms by (auto simp: waits_def)
  note ev = waits_async [OF w]
  from read_loop_waits [OF assms(2) w, of "nat space" flags]
  have "\<exists>res. uart_read (logged regs) space flags es s = Inr res" by (auto simp: uart_read_def)
  then obtain r bytes es1 s1 where "uart_read (logged regs) space flags es s = Inr ((r, bytes), es1, s1)" by auto
  with uart_read_stream [OF ev(1,2) logged_quiet this] assms(4) have R: "\<exists>bytes es' s'.
       uart_read (logged regs) space flags es s = Inr ((if bytes = [] then - EIO else int (length bytes), bytes), es', s') \<and>
       flow log_trace s s' bytes []" by (cases "bytes = []") auto
  from write_loop_waits [OF assms(2) w, of 0 ptr flags] obtain k es2 s2
    where "uart_write (logged regs) ptr flags es s = Inr (k, es2, s2)" by (auto simp: uart_write_def)
  from uart_write_stream [OF ev(1,2) logged_quiet this] assms(4) obtain n where "n \<le> length ptr"
    "flow log_trace s s2 [] (take n ptr)" "k = (if n = 0 then - EIO else int n)" by auto
  then have "\<exists>n es' s'.
       uart_write (logged regs) ptr flags es s = Inr (if n = 0 then - EIO else int n, es', s') \<and> n \<le> length ptr \<and>
       flow log_trace s s' [] (take n ptr)"
    using \<open>uart_write (logged regs) ptr flags es s = Inr (k, es2, s2)\<close>
    by (intro exI [of _ n] exI [of _ es2] exI [of _ s2]) simp
  with R close_waits [OF assms(2) w assms(4)] show ?thesis by blast
qed

text \<open>C28: Started on a clock without alarms the driver is called back once a second, and without a host its count
  of inactive seconds after \<open>k\<close> ticks is the number of whole seconds since the first tick, up to a limit two below
  \<^verbatim>\<open>INT_MAX\<close>; the host counts as inactive, with the timeout the driver starts with, after ten seconds and not before.\<close>

theorem uart_counts_seconds:
  assumes "host_gone regs" and "llist_at (ck_links ck) (alt_alarm_list ck) []" and "alarm \<noteq> 0" and "alarm \<noteq> alt_alarm_list ck"
    and "0 < alt_ticks_per_second ck" and "ju_timeout s = DEFAULT_TIMEOUT"
    and "uart_init regs isr_register alarm cb sp s ic ck = (s1, ic1, ck1)"
    and "unat (nticks ck) + 2 * unat (alt_ticks_per_second ck) + 1 + k < 2 ^ 64"
  shows "\<exists>ck2. alt_ticks (world_call (timeout_callback regs (alt_ticks_per_second ck))) k (ck1\<lparr>ck_world := s1\<rparr>) = Some ck2 \<and>
    unat (ju_host_inactive (ck_world ck2)) = min ((k - 1) div unat (alt_ticks_per_second ck)) (unat (INT_MAX - 2)) \<and>
    (10 * unat (alt_ticks_per_second ck) < k \<longleftrightarrow> \<not> ju_host_inactive (ck_world ck2) < ju_timeout (ck_world ck2))"
proof -
  let ?rate = "alt_ticks_per_second ck" and ?ck = "ck\<lparr>ck_world := s1\<rparr>"
  let ?second = "\<lambda>s. snd (uart_timeout regs ?rate s)"
  obtain r where st: "alt_alarm_start alarm ?rate cb sp ck = (r, ck1)"
    and s1: "s1 = (if r < 0 then (write_control regs CONTROL_RE_MSK (s\<lparr>ju_irq_enable := CONTROL_RE_MSK\<rparr>))
        \<lparr>ju_host_inactive := 0, ju_timeout := INT_MAX\<rparr>
      else (write_control regs CONTROL_RE_MSK (s\<lparr>ju_irq_enable := CONTROL_RE_MSK\<rparr>))\<lparr>ju_host_inactive := 0\<rparr>)"
    using assms(7) by (auto simp: uart_init_def Let_def split: prod.splits)
  have "r = 0" using st assms(3,5) by (auto simp: alt_alarm_start_def Let_def split: if_splits)
  with s1 have u: "ju_host_inactive s1 = 0" "ju_timeout s1 = DEFAULT_TIMEOUT"
    using assms(6) by (simp_all add: write_control_def)
  have st': "alt_alarm_start alarm ?rate cb sp ?ck = (0, ck1\<lparr>ck_world := s1\<rparr>)"
    using st assms(3,5) by (auto simp: alt_alarm_start_def alt_ticks_per_second_def alt_nticks_def Let_def split: if_splits)
  have f: "\<forall>w. timeout_callback regs ?rate cb sp w = (?rate, ?second w)"
    by (auto simp: timeout_callback_def uart_timeout_def Let_def split: prod.splits)
  from alt_alarm_period [of ?ck alarm ?rate cb sp "ck1\<lparr>ck_world := s1\<rparr>" "timeout_callback regs ?rate" ?rate ?second k,
      OF _ _ st' f] assms(2,4,8)
  obtain ck2 where t: "alt_ticks (world_call (timeout_callback regs ?rate)) k (ck1\<lparr>ck_world := s1\<rparr>) = Some ck2"
    and w: "ck_world ck2 = (?second ^^ alarm_runs (unat ?rate) (unat ?rate) k) s1" by auto
  have rate: "0 < unat ?rate" using assms(5) by (simp add: word_less_nat_alt)
  have runs: "alarm_runs (unat ?rate) (unat ?rate) k = (k - 1) div unat ?rate"
  proof (cases "k \<le> unat ?rate")
    case True
    with rate show ?thesis by (simp add: alarm_runs_def)
  next
    case False
    then have "k - 1 = (k - 1 - unat ?rate) + unat ?rate" by simp
    then have "(k - 1) div unat ?rate = (k - 1 - unat ?rate) div unat ?rate + 1" using rate by (metis div_add_self2 less_not_refl2)
    with False rate show ?thesis by (simp add: alarm_runs_def)
  qed
  note g = uart_timeouts_gone [OF assms(1), where rate = ?rate and m = "alarm_runs (unat ?rate) (unat ?rate) k" and s = s1, folded w, unfolded runs u]
  have "10 * unat ?rate < k \<longleftrightarrow> 10 \<le> (k - 1) div unat ?rate"
    using rate by (auto simp: less_eq_div_iff_mult_less_eq)
  with g t show ?thesis by (auto simp: word_less_nat_alt)
qed

section \<open>Witnesses\<close>

text \<open>A device that keeps its enable bits, has no room and nothing to read; a byte waits to be sent.\<close>

definition hostless_regs :: "u32 regs" where
  "hostless_regs = \<lparr>iord_data = \<lambda>en. (0, en), iowr_data = \<lambda>v en. en, iord_control = \<lambda>en. (0, en),
     iowr_control = \<lambda>v en. v AND (CONTROL_RE_MSK OR CONTROL_WE_MSK)\<rparr>"

lemma hostless_device: "uart_device hostless_regs (\<lambda>_. 0) id"
  by (simp add: uart_device_def hostless_regs_def)

definition stalled_regs :: "unit regs" where
  "stalled_regs = \<lparr>iord_data = \<lambda>h. (0, h), iowr_data = \<lambda>v h. h, iord_control = \<lambda>h. (0, h), iowr_control = \<lambda>v h. h\<rparr>"

definition uart_stalled :: "(u32 \<times> uart_access list) uart" where
  "uart_stalled = (uart_instance (0, []))\<lparr>ju_tx := ring_push 65 ring_init\<rparr>"

theorem host_gone_returns_witness:
  "\<exists>es' s'. uart_close 0 (map (event_of hostless_regs) (Handler # replicate 10 Second)) uart_stalled = Inr (0, es', s')"
proof -
  have gone: "host_gone hostless_regs" by (simp add: host_gone_def hostless_regs_def)
  have ok: "rings_ok uart_stalled"
    using uart_ring.push_ok [OF ring_init_ok(1), of 65] ring_init_ok
    by (simp add: uart_stalled_def uart_instance_def rings_ok_def ring_full_def ring_init_def)
  have "unat (ju_timeout uart_stalled) \<le> unat (ju_host_inactive uart_stalled) + count_list (Handler # replicate 10 Second) Second"
    by (simp add: uart_stalled_def uart_instance_def numeral_eq_Suc)
  from host_gone_returns [OF hostless_device gone ok _ _ _ this refl, of 0] show ?thesis
    by (simp add: uart_stalled_def uart_instance_def word_less_nat_alt word_le_nat_alt)
qed

text \<open>A clock with two ticks per second.\<close>

definition clock_idle :: "(nat, unit uart) clock" where
  "clock_idle = \<lparr>ck_links = ALT_LLIST_HEAD 1 \<lparr>ll_next = \<lambda>_. 0, ll_prev = \<lambda>_. 0\<rparr>, alt_alarm_list = 1,
     al_time = \<lambda>_. 0, al_callback = \<lambda>_. 0, al_context = \<lambda>_. 0, tick_rate = 2, nticks = 0,
     alt_timezone = \<lparr>tz_minuteswest = 0, tz_dsttime = 0\<rparr>,
     alt_resettime = \<lparr>tv_sec = 0, tv_usec = 0\<rparr>, ck_errno = 0, ck_world = uart_instance ()\<rparr>"

theorem uart_counts_seconds_witness:
  "\<exists>ck2. alt_ticks (world_call (timeout_callback stalled_regs 2)) 21
       ((snd (snd (uart_init stalled_regs id 16 0 16 (uart_instance ()) () clock_idle)))
          \<lparr>ck_world := fst (uart_init stalled_regs id 16 0 16 (uart_instance ()) () clock_idle)\<rparr>) = Some ck2 \<and>
     \<not> ju_host_inactive (ck_world ck2) < ju_timeout (ck_world ck2)"
proof -
  obtain s1 ic1 ck1 where i: "uart_init stalled_regs id 16 0 16 (uart_instance ()) () clock_idle = (s1, ic1, ck1)"
    by (rule prod_cases3)
  have gone: "host_gone stalled_regs" by (simp add: host_gone_def stalled_regs_def)
  have c: "alt_ticks_per_second clock_idle = 2" "nticks clock_idle = 0" "alt_alarm_list clock_idle = 1"
    "llist_at (ck_links clock_idle) (alt_alarm_list clock_idle) []"
    by (simp_all add: clock_idle_def alt_ticks_per_second_def llist_at_def ALT_LLIST_HEAD_def)
  have "ju_timeout (uart_instance ()) = DEFAULT_TIMEOUT" by (simp add: uart_instance_def)
  from uart_counts_seconds [OF gone c(4) _ _ _ this i, of 21] show ?thesis
    unfolding i c(1) fst_conv snd_conv by (simp add: c) blast
qed

end
