(* ===== verification/UartSession.thy ===== *)
theory UartSession
  imports Console JtagIrq
begin

text \<open>
  The console on the interrupt-driven driver: any sequence of reads and writes on the standard streams, while the
  interrupt handler and the timer run at any time, from the system calls to the registers of the UART.
\<close>

section \<open>Results\<close>

text \<open>This driver accepts part of the bytes, and fails with -1 when it accepts none.\<close>

fun session_result :: "console_op \<Rightarrow> int \<times> u8 list \<Rightarrow> bool" where
  "session_result (Put fd out) (r, bytes) \<longleftrightarrow> bytes = [] \<and> (r = -1 \<or> 0 < r \<and> r \<le> int (length out))"
| "session_result (Get n) (r, bytes) \<longleftrightarrow> (if bytes = [] then r = -1 else r = int (length bytes) \<and> length bytes \<le> n)"

fun accepted :: "console_op \<Rightarrow> int \<times> u8 list \<Rightarrow> u8 list" where
  "accepted (Put fd out) (r, bytes) = take (nat r) out"
| "accepted (Get n) (r, bytes) = []"

section \<open>One operation\<close>

definition uart_streams :: "'h regs \<Rightarrow> bool \<Rightarrow> 'h uart_world hal \<Rightarrow> bool" where
  "uart_streams regs nonblock s \<longleftrightarrow> hal_inv s \<and>
     (\<forall>fd < 3. owner s fd \<noteq> 0 \<and> hal_devs s (owner s fd) = uart_dev regs \<and>
        (fd_flags (alt_fd_list s ! fd) AND O_NONBLOCK \<noteq> 0 \<longleftrightarrow> nonblock)) \<and>
     fd_flags (alt_fd_list s ! 0) AND O_ACCMODE \<noteq> O_WRONLY \<and>
     (\<forall>fd \<in> {1, 2}. fd_flags (alt_fd_list s ! fd) AND O_ACCMODE \<noteq> O_RDONLY)"

lemma uart_streams_same:
  "uart_streams regs nonblock s \<Longrightarrow> same_fds s s' \<Longrightarrow> alt_fd_list s' = alt_fd_list s \<Longrightarrow> uart_streams regs nonblock s'"
  unfolding uart_streams_def using same_fds_inv [of s s'] by (auto simp: same_fds_def same_reg_def)

text \<open>Where a session stands, and how an operation moves the bytes of the driver.\<close>

definition session_ok :: "('h \<Rightarrow> u8 list \<times> u8 list) \<Rightarrow> 'h regs \<Rightarrow> bool \<Rightarrow> 'h uart_world hal \<Rightarrow> bool" where
  "session_ok tr regs nonblock s \<longleftrightarrow> uart_streams regs nonblock s \<and> rings_ok (uw_uart (hal_world s)) \<and>
     async_events tr (uw_events (hal_world s)) \<and> control_quiet tr regs"

definition session_moves ::
    "('h \<Rightarrow> u8 list \<times> u8 list) \<Rightarrow> 'h uart_world hal \<Rightarrow> 'h uart_world hal \<Rightarrow> u8 list \<Rightarrow> u8 list \<Rightarrow> bool" where
  "session_moves tr s s' got put \<longleftrightarrow> flow tr (uw_uart (hal_world s)) (uw_uart (hal_world s')) got put"

lemma session_put:
  assumes "session_ok tr regs nb s" and "fd \<in> {1, 2}"
  shows "case ALT_WRITE (int fd) out s of
           Inl e \<Rightarrow> e = Spins \<and> \<not> nb
         | Inr (r, s') \<Rightarrow> session_ok tr regs nb s' \<and> session_result (Put fd out) (r, []) \<and>
             session_moves tr s s' [] (accepted (Put fd out) (r, []))"
proof -
  have fd: "fd < 3" "fd < ALT_MAX_FD" using assms(2) by auto
  from assms(1) have ok: "uart_streams regs nb s" "rings_ok (uw_uart (hal_world s))"
    "async_events tr (uw_events (hal_world s))" "control_quiet tr regs" by (simp_all add: session_ok_def)
  with fd(1) assms(2) have s: "hal_inv s" "owner s fd \<noteq> 0" "hal_devs s (owner s fd) = uart_dev regs"
    "fd_flags (alt_fd_list s ! fd) AND O_ACCMODE \<noteq> O_RDONLY" "nb \<longleftrightarrow> fd_flags (alt_fd_list s ! fd) AND O_NONBLOCK \<noteq> 0"
    unfolding uart_streams_def by blast+
  from uart_fd_write [OF fd(2) s(1-4) ok(2-4) refl s(5), of out] uart_streams_same [OF ok(1)] ok(4) show ?thesis
    by (auto simp: session_ok_def session_moves_def flow_rings split: sum.splits if_splits)
qed

lemma session_get:
  assumes "session_ok tr regs nb s"
  shows "case ALT_READ 0 (int n) s of
           Inl e \<Rightarrow> e = Spins \<and> \<not> nb
         | Inr ((r, bytes), s') \<Rightarrow> session_ok tr regs nb s' \<and> session_result (Get n) (r, bytes) \<and>
             session_moves tr s s' bytes []"
proof -
  from assms have ok: "uart_streams regs nb s" "rings_ok (uw_uart (hal_world s))"
    "async_events tr (uw_events (hal_world s))" "control_quiet tr regs" by (simp_all add: session_ok_def)
  then have s: "hal_inv s" "owner s 0 \<noteq> 0" "hal_devs s (owner s 0) = uart_dev regs"
    "fd_flags (alt_fd_list s ! 0) AND O_ACCMODE \<noteq> O_WRONLY" "nb \<longleftrightarrow> fd_flags (alt_fd_list s ! 0) AND O_NONBLOCK \<noteq> 0"
    unfolding uart_streams_def by auto
  from uart_fd_read [OF _ s(1-4) ok(2-4) refl s(5), of "int n"] uart_streams_same [OF ok(1)] ok(4) show ?thesis
    by (auto simp: session_ok_def session_moves_def flow_rings split: sum.splits if_splits)
qed

section \<open>Any sequence of operations\<close>

interpretation session:
  console_driver "session_ok tr regs nonblock" "\<not> nonblock" session_result accepted "session_moves tr" for tr regs nonblock
proof (unfold_locales, goal_cases)
  case (1 s fd out)
  then show ?case by (rule session_put)
next
  case (2 s n)
  from session_get [OF this(1), of n] show ?case .
next
  case (3 n res)
  show ?case by (cases res) simp
next
  case (4 s)
  then show ?case by (simp add: session_ok_def session_moves_def flow_refl)
next
  case (5 s t b p u c q)
  then show ?case unfolding session_moves_def by (rule flow_trans)
qed

text \<open>A driver that has just been initialised, with its log, is where a session may start.\<close>

lemma uart_init_session:
  assumes "uart_init (logged regs) isr_register alarm callback sp (uart_instance (h, [])) ic ck = (u, ic', ck')"
  shows "rings_ok u \<and> ring_queue (ju_rx u) = [] \<and> ring_queue (ju_tx u) = [] \<and> log_trace (ju_hw u) = ([], [])"
  using assms
  by (auto simp: uart_init_def uart_instance_def write_control_def logged_def log_trace_def rings_ok_def ring_init_ok Let_def
      split: prod.splits)

section \<open>Properties\<close>

text \<open>C8: With the interrupt-driven driver, in any sequence of reads and writes on the standard streams, while the
  interrupt handler and the timer run at any time, on a device that keeps to its documentation: the bytes the UART has delivered are the bytes the
  reads have returned followed by the receive queue, and the bytes the writes have accepted are the bytes the UART
  was given followed by the transmit queue, so that none is lost, doubled or out of order in either direction.  In
  non-blocking mode every call returns; otherwise a call can only wait.  (On a device that breaks its contract the
  handler itself may loop for ever.)\<close>

theorem uart_session:
  assumes "uart_device regs incoming enabled"
    and "uart_streams (logged regs) nonblock s" and "rings_ok (uw_uart (hal_world s))"
    and "set (uw_events (hal_world s)) \<subseteq> {isr_event regs, timeout_event regs}"
    and "ring_queue (ju_rx (uw_uart (hal_world s))) = []" "ring_queue (ju_tx (uw_uart (hal_world s))) = []"
    and "log_trace (ju_hw (uw_uart (hal_world s))) = ([], [])" and "list_all console_ok ops"
  shows "case run_console ops s of
           Inl e \<Rightarrow> e = Spins \<and> \<not> nonblock
         | Inr (rs, s') \<Rightarrow> list_all2 session_result ops rs \<and> uart_streams (logged regs) nonblock s' \<and>
             (\<exists>h' l. ju_hw (uw_uart (hal_world s')) = (h', l) \<and>
               received l = concat (map snd rs) @ ring_queue (ju_rx (uw_uart (hal_world s'))) \<and>
               concat (map2 accepted ops rs) = sent l @ ring_queue (ju_tx (uw_uart (hal_world s'))))"
proof -
  have "session_ok log_trace (logged regs) nonblock s"
    using assms(2,3) handler_events [OF assms(1,4)] logged_quiet by (simp add: session_ok_def)
  note run = session.runs [OF this assms(8)]
  show ?thesis
  proof (cases "run_console ops s")
    case (Inl e)
    with run show ?thesis by simp
  next
    case (Inr p)
    obtain rs s' where p: "p = (rs, s')" by fastforce
    obtain h' l where "ju_hw (uw_uart (hal_world s')) = (h', l)" by fastforce
    with run assms(5-7) show ?thesis by (auto simp: Inr p session_ok_def session_moves_def flow_def log_trace_def)
  qed
qed

section \<open>Witness\<close>

text \<open>The streams in non-blocking mode, a driver just initialised, and a byte in the UART.\<close>

definition uart_docs :: "((u8 list \<times> u8 list \<times> u32) \<times> uart_access list) uart" where
  "uart_docs = (uart_instance (([65], [], 1), []))\<lparr>ju_irq_enable := 1\<rparr>"

definition hal_nonblock :: "((u8 list \<times> u8 list \<times> u32) \<times> uart_access list) uart_world hal" where
  "hal_nonblock = \<lparr>rg_links = \<lparr>ll_next = \<lambda>_. 0, ll_prev = \<lambda>_. 0\<rparr>, rg_name = \<lambda>_. None, rg_errno = 0,
     alt_fd_list = map (\<lambda>e. e\<lparr>fd_flags := fd_flags e OR O_NONBLOCK\<rparr>) (alt_fd_list hal_streams), alt_max_fd = -1,
     hal_devs = \<lambda>_. uart_dev (logged jtag_fifo), alt_dev_list = 10, alt_fs_list = 11,
     hal_world = \<lparr>uw_events = [timeout_event jtag_fifo, isr_event jtag_fifo], uw_uart = uart_docs, uw_mem = \<lambda>_. 0\<rparr>\<rparr>"

lemma hal_nonblock_fd:
  "i < ALT_MAX_FD \<Longrightarrow> alt_fd_list hal_nonblock ! i = (let e = alt_fd_list hal_streams ! i in e\<lparr>fd_flags := fd_flags e OR O_NONBLOCK\<rparr>)"
  by (simp add: hal_nonblock_def hal_streams_def hal_uart_def Let_def)

lemma hal_nonblock_owner: "owner hal_nonblock i = (if i < 3 then 3 else 0)"
proof -
  have "owner hal_streams i = (if i < 3 then 3 else 0)"
    using hal_uart_owner [of i] by (cases "i = 2") (auto simp: owner_def hal_streams_def hal_uart_def)
  then show ?thesis using hal_nonblock_fd [of i] by (auto simp: owner_def Let_def)
qed

lemma hal_nonblock_inv: "hal_inv hal_nonblock"
proof -
  have "length (alt_fd_list hal_nonblock) = ALT_MAX_FD" "alt_max_fd hal_nonblock = -1"
    by (simp_all add: hal_nonblock_def hal_streams_def hal_uart_def)
  then have "fd_inv hal_nonblock" by (auto simp: fd_inv_def hal_nonblock_owner)
  then show ?thesis by (simp add: hal_inv_def hal_nonblock_def hal_streams_def hal_uart_def uart_dev_ok)
qed

lemma hal_nonblock_streams: "uart_streams (logged jtag_fifo) True hal_nonblock"
proof -
  have "hal_devs hal_nonblock d = uart_dev (logged jtag_fifo)" for d
    by (simp add: hal_nonblock_def hal_streams_def hal_uart_def)
  moreover have "fd_flags (alt_fd_list hal_nonblock ! 0) = O_NONBLOCK"
    "fd_flags (alt_fd_list hal_nonblock ! 1) = O_WRONLY OR O_NONBLOCK"
    "fd_flags (alt_fd_list hal_nonblock ! 2) = O_WRONLY OR O_NONBLOCK"
    by (simp_all add: hal_nonblock_fd hal_streams_def hal_uart_def alt_fd_list_init_nth alt_dev_null_fd_def)
  ultimately show ?thesis using hal_nonblock_inv unfolding uart_streams_def all_less_3
    by (simp add: hal_nonblock_owner)
qed

theorem uart_session_witness:
  "\<exists>rs s' h' l. run_console [Get 5, Put 1 [7, 8], Get 2] hal_nonblock = Inr (rs, s') \<and>
     list_all2 session_result [Get 5, Put 1 [7, 8], Get 2] rs \<and> ju_hw (uw_uart (hal_world s')) = (h', l) \<and>
     received l = concat (map snd rs) @ ring_queue (ju_rx (uw_uart (hal_world s'))) \<and>
     concat (map2 accepted [Get 5, Put 1 [7, 8], Get 2] rs) = sent l @ ring_queue (ju_tx (uw_uart (hal_world s')))"
proof -
  let ?ops = "[Get 5, Put 1 [7, 8], Get 2]"
  have u: "uw_uart (hal_world hal_nonblock) = uart_docs" "uw_events (hal_world hal_nonblock) = [timeout_event jtag_fifo, isr_event jtag_fifo]"
    by (simp_all add: hal_nonblock_def)
  have "rings_ok uart_docs" by (simp add: uart_docs_def uart_instance_def rings_ok_def ring_init_ok)
  moreover have "ring_queue (ju_rx uart_docs) = []" "ring_queue (ju_tx uart_docs) = []" "log_trace (ju_hw uart_docs) = ([], [])"
    by (simp_all add: uart_docs_def uart_instance_def ring_init_ok log_trace_def)
  moreover have "list_all console_ok ?ops" by simp
  ultimately have "case run_console ?ops hal_nonblock of
      Inl e \<Rightarrow> e = Spins \<and> \<not> True
    | Inr (rs, s') \<Rightarrow> list_all2 session_result ?ops rs \<and> uart_streams (logged jtag_fifo) True s' \<and>
        (\<exists>h' l. ju_hw (uw_uart (hal_world s')) = (h', l) \<and>
          received l = concat (map snd rs) @ ring_queue (ju_rx (uw_uart (hal_world s'))) \<and>
          concat (map2 accepted ?ops rs) = sent l @ ring_queue (ju_tx (uw_uart (hal_world s'))))"
    using u by (intro uart_session [OF jtag_fifo_device hal_nonblock_streams]) simp_all
  then show ?thesis by (cases "run_console ?ops hal_nonblock") (auto simp del: run_console.simps)
qed

end
