(* ===== verification/LogConf.thy ===== *)
theory LogConf
  imports Printf
begin

text \<open>
  The configuration of the log (\<^verbatim>\<open>sys/alt_log_printf.h\<close>): what the level \<^verbatim>\<open>ALT_LOG_FLAGS\<close> and the single settings
  turn on, the variables that start with these settings, and the macros other files call.
\<close>

section \<open>Settings\<close>

text \<open>
  \<open>lc_enable\<close> is \<^verbatim>\<open>ALT_LOG_ENABLE\<close> and \<open>lc_uart\<close> is \<^verbatim>\<open>__ALTERA_AVALON_JTAG_UART\<close>; \<open>lc_flags\<close> is the level, 0 when it is
  not defined.  A setting that is given on the command line (\<open>Some\<close>) takes precedence over the level.
\<close>

record log_config =
  lc_enable :: bool
  lc_flags :: int
  lc_uart :: bool
  lc_boot :: "u32 option"
  lc_sys_clk :: "u8 option"
  lc_write :: "u8 option"
  lc_alarm :: "u8 option"
  lc_startup_info :: "u8 option"
  lc_isr :: "u8 option"
  lc_ticks_divisor :: u32
  lc_clk_multiplier :: u32

text \<open>The conditional that chooses a setting by the level: its values for 1, 2, 3, -1 and any other level.\<close>

definition by_level :: "int \<Rightarrow> 'v \<Rightarrow> 'v \<Rightarrow> 'v \<Rightarrow> 'v \<Rightarrow> 'v \<Rightarrow> 'v" where
  "by_level flags v1 v2 v3 silent otherwise =
     (if flags = 1 then v1 else if flags = 2 then v2 else if flags = 3 then v3
      else if flags = -1 then silent else otherwise)"

definition ALT_LOG_BOOT_ON_FLAG_SETTING :: "log_config \<Rightarrow> u32" where
  "ALT_LOG_BOOT_ON_FLAG_SETTING c = (case lc_boot c of Some v \<Rightarrow> v | None \<Rightarrow> by_level (lc_flags c) 1 1 1 0 1)"

definition ALT_LOG_SYS_CLK_ON_FLAG_SETTING :: "log_config \<Rightarrow> u8" where
  "ALT_LOG_SYS_CLK_ON_FLAG_SETTING c = (case lc_sys_clk c of Some v \<Rightarrow> v | None \<Rightarrow> by_level (lc_flags c) 1 1 1 0 0)"

definition ALT_LOG_WRITE_ON_FLAG_SETTING :: "log_config \<Rightarrow> u8" where
  "ALT_LOG_WRITE_ON_FLAG_SETTING c = (case lc_write c of Some v \<Rightarrow> v | None \<Rightarrow> by_level (lc_flags c) 0 1 1 0 0)"

definition ALT_LOG_JTAG_UART_ALARM_ON_FLAG_SETTING :: "log_config \<Rightarrow> u8" where
  "ALT_LOG_JTAG_UART_ALARM_ON_FLAG_SETTING c =
     (case lc_alarm c of Some v \<Rightarrow> v | None \<Rightarrow> if lc_uart c then by_level (lc_flags c) 0 1 1 0 0 else 0)"

definition ALT_LOG_JTAG_UART_STARTUP_INFO_ON_FLAG_SETTING :: "log_config \<Rightarrow> u8" where
  "ALT_LOG_JTAG_UART_STARTUP_INFO_ON_FLAG_SETTING c =
     (case lc_startup_info c of Some v \<Rightarrow> v | None \<Rightarrow> if lc_uart c then by_level (lc_flags c) 1 1 1 0 0 else 0)"

definition ALT_LOG_JTAG_UART_ISR_ON_FLAG_SETTING :: "log_config \<Rightarrow> u8" where
  "ALT_LOG_JTAG_UART_ISR_ON_FLAG_SETTING c =
     (case lc_isr c of Some v \<Rightarrow> v | None \<Rightarrow> if lc_uart c then by_level (lc_flags c) 0 0 1 0 0 else 0)"

section \<open>The variables\<close>

record log_vars =
  alt_log_boot_on_flag :: u32
  alt_log_write_on_flag :: u8
  alt_log_sys_clk_on_flag :: u8
  alt_log_jtag_uart_alarm_on_flag :: u8
  alt_log_jtag_uart_isr_on_flag :: u8
  alt_log_jtag_uart_startup_info_on_flag :: u8
  alt_log_sys_clk_count :: int
  alt_system_clock_in_sec :: u32
  alt_log_write_buf :: string

definition log_vars_init :: "log_config \<Rightarrow> log_vars" where
  "log_vars_init c = \<lparr>
     alt_log_boot_on_flag = ALT_LOG_BOOT_ON_FLAG_SETTING c,
     alt_log_write_on_flag = ALT_LOG_WRITE_ON_FLAG_SETTING c,
     alt_log_sys_clk_on_flag = ALT_LOG_SYS_CLK_ON_FLAG_SETTING c,
     alt_log_jtag_uart_alarm_on_flag = ALT_LOG_JTAG_UART_ALARM_ON_FLAG_SETTING c,
     alt_log_jtag_uart_isr_on_flag = ALT_LOG_JTAG_UART_ISR_ON_FLAG_SETTING c,
     alt_log_jtag_uart_startup_info_on_flag = ALT_LOG_JTAG_UART_STARTUP_INFO_ON_FLAG_SETTING c,
     alt_log_sys_clk_count = 0, alt_system_clock_in_sec = 0,
     alt_log_write_buf = replicate (ALT_LOG_WRITE_ECHO_LEN + 2) nul\<rparr>"

section \<open>The macros\<close>

text \<open>Each works on the variables of the log and the registers of the UART; without the log it is empty.\<close>

definition ALT_LOG_PRINTF :: "log_config \<Rightarrow> 'h regs \<Rightarrow> string \<Rightarrow> vararg list \<Rightarrow> 'h \<Rightarrow> stuck + 'h" where
  "ALT_LOG_PRINTF c regs fmt args h =
     (if lc_enable c then andThen (alt_log_printf_proc regs fmt args h) (\<lambda>(_, h1). Inr h1) else Inr h)"

definition ALT_LOG_PRINT_BOOT ::
    "log_config \<Rightarrow> 'h regs \<Rightarrow> string \<Rightarrow> vararg list \<Rightarrow> log_vars \<times> 'h \<Rightarrow> stuck + (log_vars \<times> 'h)" where
  "ALT_LOG_PRINT_BOOT c regs fmt args s =
     (case s of (l, h) \<Rightarrow>
        if lc_enable c \<and> alt_log_boot_on_flag l = 1
        then andThen (ALT_LOG_PRINTF c regs fmt args h) (\<lambda>h1. Inr (l, h1)) else Inr s)"

text \<open>The divisor is a constant other than zero.\<close>

definition ALT_LOG_JTAG_UART_TICKS :: "log_config \<Rightarrow> ('cb, 'w) clock \<Rightarrow> u32" where
  "ALT_LOG_JTAG_UART_TICKS c ck = alt_ticks_per_second ck div lc_ticks_divisor c"

text \<open>\<open>report\<close> is the callback, \<open>dev\<close> the address of the state of the driver.\<close>

definition ALT_LOG_JTAG_UART_ALARM_REGISTER ::
    "log_config \<Rightarrow> 'h regs \<Rightarrow> addr \<Rightarrow> 'cb \<Rightarrow> addr \<Rightarrow> ('cb, 'w) clock \<Rightarrow> log_vars \<times> 'h
     \<Rightarrow> stuck + (('cb, 'w) clock \<times> log_vars \<times> 'h)" where
  "ALT_LOG_JTAG_UART_ALARM_REGISTER c regs alarm report dev ck s =
     (case s of (l, h) \<Rightarrow>
        if lc_enable c \<and> lc_uart c then
          let ck1 = (if alt_log_jtag_uart_alarm_on_flag l = 1
                     then snd (alt_alarm_start alarm (ALT_LOG_JTAG_UART_TICKS c ck) report dev ck) else ck)
          in if alt_log_jtag_uart_startup_info_on_flag l = 1
             then andThen (alt_log_jtag_uart_startup_info regs h) (\<lambda>h1. Inr (ck1, l, h1))
             else Inr (ck1, s)
        else Inr (ck, s))"

definition ALT_LOG_JTAG_UART_ISR_FUNCTION ::
    "log_config \<Rightarrow> 'h regs \<Rightarrow> log_vars \<times> 'h \<Rightarrow> stuck + (log_vars \<times> 'h)" where
  "ALT_LOG_JTAG_UART_ISR_FUNCTION c regs s =
     (case s of (l, h) \<Rightarrow>
        if lc_enable c \<and> lc_uart c
        then andThen (alt_log_jtag_uart_isr_proc regs (alt_log_jtag_uart_isr_on_flag l \<noteq> 0) h) (\<lambda>h1. Inr (l, h1))
        else Inr s)"

definition ALT_LOG_SYS_CLK_INTERVAL :: "log_config \<Rightarrow> ('cb, 'w) clock \<Rightarrow> u32" where
  "ALT_LOG_SYS_CLK_INTERVAL c ck = alt_ticks_per_second ck * lc_clk_multiplier c"

definition ALT_LOG_SYS_CLK_HEARTBEAT ::
    "log_config \<Rightarrow> 'h regs \<Rightarrow> ('cb, 'w) clock \<Rightarrow> log_vars \<times> 'h \<Rightarrow> stuck + (log_vars \<times> 'h)" where
  "ALT_LOG_SYS_CLK_HEARTBEAT c regs ck s =
     (case s of (l, h) \<Rightarrow>
        if lc_enable c then
          andThen (alt_log_system_clock regs (alt_log_sys_clk_on_flag l \<noteq> 0) (uint (ALT_LOG_SYS_CLK_INTERVAL c ck))
                     ((alt_log_sys_clk_count l, alt_system_clock_in_sec l), h))
            (\<lambda>((count, sec), h1). Inr (l\<lparr>alt_log_sys_clk_count := count, alt_system_clock_in_sec := sec\<rparr>, h1))
        else Inr s)"

definition ALT_LOG_WRITE_FUNCTION ::
    "log_config \<Rightarrow> 'h regs \<Rightarrow> string \<Rightarrow> log_vars \<times> 'h \<Rightarrow> stuck + (log_vars \<times> 'h)" where
  "ALT_LOG_WRITE_FUNCTION c regs ptr s =
     (case s of (l, h) \<Rightarrow>
        if lc_enable c then
          andThen (alt_log_write regs (alt_log_write_on_flag l \<noteq> 0) (alt_log_write_buf l) ptr h)
            (\<lambda>(b, h1). Inr (l\<lparr>alt_log_write_buf := b\<rparr>, h1))
        else Inr s)"

section \<open>Silence\<close>

text \<open>
  At level -1 without single settings the log is built but touches nothing: no macro accesses the device or
  the variables, and the alarm of the report is not started.
\<close>

definition silent :: "log_config \<Rightarrow> bool" where
  "silent c \<longleftrightarrow> lc_flags c = -1 \<and> lc_boot c = None \<and> lc_sys_clk c = None \<and> lc_write c = None \<and>
     lc_alarm c = None \<and> lc_startup_info c = None \<and> lc_isr c = None"

lemmas log_settings = ALT_LOG_BOOT_ON_FLAG_SETTING_def ALT_LOG_SYS_CLK_ON_FLAG_SETTING_def
  ALT_LOG_WRITE_ON_FLAG_SETTING_def ALT_LOG_JTAG_UART_ALARM_ON_FLAG_SETTING_def
  ALT_LOG_JTAG_UART_STARTUP_INFO_ON_FLAG_SETTING_def ALT_LOG_JTAG_UART_ISR_ON_FLAG_SETTING_def by_level_def

lemma silent_log:
  assumes "silent c" and "l = log_vars_init c"
  shows "ALT_LOG_PRINT_BOOT c regs fmt args (l, h) = Inr (l, h)"
    and "ALT_LOG_JTAG_UART_ALARM_REGISTER c regs alarm report dev ck (l, h) = Inr (ck, l, h)"
    and "ALT_LOG_JTAG_UART_ISR_FUNCTION c regs (l, h) = Inr (l, h)"
    and "ALT_LOG_SYS_CLK_HEARTBEAT c regs ck (l, h) = Inr (l, h)"
    and "ALT_LOG_WRITE_FUNCTION c regs ptr (l, h) = Inr (l, h)"
  using assms
  by (simp_all add: silent_def log_vars_init_def log_settings ALT_LOG_PRINT_BOOT_def
      ALT_LOG_JTAG_UART_ALARM_REGISTER_def ALT_LOG_JTAG_UART_ISR_FUNCTION_def alt_log_jtag_uart_isr_proc_def
      ALT_LOG_SYS_CLK_HEARTBEAT_def alt_log_system_clock_def ALT_LOG_WRITE_FUNCTION_def alt_log_write_def)

text \<open>From level 0 on, each level turns on what the one below it does.\<close>

lemma levels_grow:
  assumes "0 \<le> i" "i \<le> j" "j \<le> 3" "l = log_vars_init (c\<lparr>lc_flags := i\<rparr>)" "m = log_vars_init (c\<lparr>lc_flags := j\<rparr>)"
  shows "alt_log_boot_on_flag l = alt_log_boot_on_flag m \<and> alt_log_sys_clk_on_flag l \<le> alt_log_sys_clk_on_flag m \<and>
    alt_log_write_on_flag l \<le> alt_log_write_on_flag m \<and>
    alt_log_jtag_uart_alarm_on_flag l \<le> alt_log_jtag_uart_alarm_on_flag m \<and>
    alt_log_jtag_uart_startup_info_on_flag l \<le> alt_log_jtag_uart_startup_info_on_flag m \<and>
    alt_log_jtag_uart_isr_on_flag l \<le> alt_log_jtag_uart_isr_on_flag m"
  using assms by (auto simp: log_vars_init_def log_settings split: option.split)

section \<open>The heartbeat\<close>

text \<open>The message of one heartbeat, and as many heartbeats as there are ticks.\<close>

definition heartbeat_text :: "u32 \<Rightarrow> string" where
  "heartbeat_text sec = ''System Clock On '' @ numeral_of 10 False (unat sec) @ [CHR 0x0D, CHR 0x0A]"

fun heartbeats :: "log_config \<Rightarrow> 'h regs \<Rightarrow> ('cb, 'w) clock \<Rightarrow> nat \<Rightarrow> log_vars \<times> 'h \<Rightarrow> stuck + (log_vars \<times> 'h)" where
  "heartbeats c regs ck 0 s = Inr s"
| "heartbeats c regs ck (Suc k) s = andThen (heartbeats c regs ck k s) (ALT_LOG_SYS_CLK_HEARTBEAT c regs ck)"

lemma heartbeat_message:
  "alt_log_private_printf pfState_chars logfmt0 (''System Clock On %u'' @ [CHR 0x0D, CHR 0x0A]) [ArgWord sec] =
   Inr (heartbeat_text sec)"
  by (simp add: emit_def log_integer_reference heartbeat_text_def padded_def printed_value_def logfmt0_def)

text \<open>C30: On a device that a poll eventually finds with room, the heartbeat returns on every tick; it prints on every
  tick whose number is a multiple of the interval plus one, not of the interval, and what it prints are the
  numbers 0, 1, 2 and so on, each sent whole and right after a poll that found room.\<close>

theorem heartbeat_period:
  assumes "\<forall>h. \<exists>k. polls (iord_control regs) CONTROL_WSPACE_MSK k h"
    and "lc_enable c" and "l = log_vars_init c" and "alt_log_sys_clk_on_flag l \<noteq> 0"
    and "n = Suc (unat (ALT_LOG_SYS_CLK_INTERVAL c ck))"
  shows "\<exists>h' m. heartbeats c (logged regs) ck k (l, (h, [])) =
           Inr (l\<lparr>alt_log_sys_clk_count := int (k mod n), alt_system_clock_in_sec := of_nat (k div n)\<rparr>, (h', m)) \<and>
         sent m = map of_char (concat (map (\<lambda>i. heartbeat_text (of_nat i)) [0..<k div n])) \<and> room_polled m"
proof (induction k)
  case 0
  have "l\<lparr>alt_log_sys_clk_count := 0, alt_system_clock_in_sec := 0\<rparr> = l" by (simp add: assms(3) log_vars_init_def)
  then show ?case using assms(5) by simp
next
  case (Suc k)
  let ?l = "\<lambda>k. l\<lparr>alt_log_sys_clk_count := int (k mod n), alt_system_clock_in_sec := of_nat (k div n)\<rparr>"
  from Suc obtain h1 m1 where 1: "heartbeats c (logged regs) ck k (l, (h, [])) = Inr (?l k, (h1, m1))"
    "sent m1 = map of_char (concat (map (\<lambda>i. heartbeat_text (of_nat i)) [0..<k div n]))" "room_polled m1" by blast
  have i: "uint (ALT_LOG_SYS_CLK_INTERVAL c ck) = int n - 1" using assms(5) by simp
  show ?case
  proof (cases "Suc (k mod n) = n")
    case False
    have "k mod n < n" using assms(5) by simp
    with False have lt: "k mod n + 1 < n" by linarith
    have km: "Suc k mod n = Suc (k mod n)" "Suc k div n = k div n" using False by (simp_all add: mod_Suc div_Suc)
    from lt have "\<not> int n - 1 < int (k mod n) + 1" by linarith
    then have "heartbeats c (logged regs) ck (Suc k) (l, (h, [])) = Inr (?l (Suc k), (h1, m1))"
      using 1(1) assms(2,4) by (simp add: ALT_LOG_SYS_CLK_HEARTBEAT_def alt_log_system_clock_def i km add.commute)
    with 1 km show ?thesis by auto
  next
    case True
    then have km: "Suc k mod n = 0" "Suc k div n = Suc (k div n)" using assms(5) by (auto simp: mod_Suc div_Suc)
    from log_printf_uart [OF assms(1) heartbeat_message, of "of_nat (k div n)" h1 m1] obtain h2 m2
      where 2: "alt_log_printf_proc (logged regs) (''System Clock On %u'' @ [CHR 0x0D, CHR 0x0A]) [ArgWord (of_nat (k div n))]
          (h1, m1) = Inr (0, (h2, m1 @ m2))" "sent m2 = map of_char (heartbeat_text (of_nat (k div n)))" "room_polled m2"
      by blast
    have "int n - 1 < int (k mod n) + 1" using True by simp
    then have "heartbeats c (logged regs) ck (Suc k) (l, (h, [])) = Inr (?l (Suc k), (h2, m1 @ m2))"
      using 1(1) 2(1) assms(2,4) by (simp add: ALT_LOG_SYS_CLK_HEARTBEAT_def alt_log_system_clock_def i km add.commute)
    moreover have "room_polled (m1 @ m2)" using 1(3) 2(3) by (rule room_polled_append)
    ultimately show ?thesis using 1(2) 2(2) km by auto
  qed
qed

text \<open>Two ticks per second: the heartbeat prints on every third tick.\<close>

definition log_level_1 :: log_config where
  "log_level_1 = \<lparr>lc_enable = True, lc_flags = 1, lc_uart = True, lc_boot = None, lc_sys_clk = None, lc_write = None,
     lc_alarm = None, lc_startup_info = None, lc_isr = None, lc_ticks_divisor = 10, lc_clk_multiplier = 1\<rparr>"

theorem heartbeat_period_witness:
  "\<exists>l' h' m. heartbeats log_level_1 (logged fifo_regs) (clock0\<lparr>tick_rate := 2\<rparr>) 7
       (log_vars_init log_level_1, (([], []), [])) = Inr (l', (h', m)) \<and>
     sent m = map of_char (heartbeat_text 0 @ heartbeat_text 1)"
proof -
  have "\<forall>h. \<exists>k. polls (iord_control fifo_regs) CONTROL_WSPACE_MSK k h" using fifo_room by blast
  moreover have "alt_log_sys_clk_on_flag (log_vars_init log_level_1) \<noteq> 0"
    by (simp add: log_vars_init_def log_level_1_def log_settings)
  moreover have "lc_enable log_level_1" by (simp add: log_level_1_def)
  moreover have "3 = Suc (unat (ALT_LOG_SYS_CLK_INTERVAL log_level_1 (clock0\<lparr>tick_rate := 2\<rparr>)))"
    by (simp add: ALT_LOG_SYS_CLK_INTERVAL_def log_level_1_def alt_ticks_per_second_def)
  ultimately obtain h' m where "heartbeats log_level_1 (logged fifo_regs) (clock0\<lparr>tick_rate := 2\<rparr>) 7
       (log_vars_init log_level_1, (([], []), [])) = Inr ((log_vars_init log_level_1)\<lparr>alt_log_sys_clk_count := int (7 mod 3),
         alt_system_clock_in_sec := of_nat (7 div 3)\<rparr>, (h', m))"
    and m: "sent m = map of_char (concat (map (\<lambda>i. heartbeat_text (of_nat i)) [0..<7 div 3]))"
    using heartbeat_period [OF _ _ refl, of fifo_regs log_level_1 3 "clock0\<lparr>tick_rate := 2\<rparr>" 7 "([], [])"] by blast
  moreover have "[0..<7 div 3] = [0, 1]" by (simp add: upt_rec)
  ultimately show ?thesis by auto
qed

end
