(* ===== verification/Sleep.thy ===== *)
theory Sleep
  imports HalPrelude
begin

text \<open>
  The microsecond delay (\<^verbatim>\<open>alt_busy_sleep.c\<close>, \<^verbatim>\<open>alt_usleep.c\<close>): it waits for a time stamp, for the
  machine timer, or counts a calibrated loop down.  The properties bound the error of the counted loop and
  show where the computations overflow.
\<close>

section \<open>The counted loop\<close>

text \<open>
  \<open>C\<close> is \<^verbatim>\<open>CLOCKS_PER_LOOP_ITERATION\<close> of the core, a small positive \<^verbatim>\<open>int\<close>; \<open>mhz\<close> is
  \<^verbatim>\<open>CPU_FREQUENCY_MHZ\<close>.
\<close>

datatype core_variant = NIOSV_M_ARCH | NIOSV_M_ARCH_NOPIPE | NIOSV_G_ARCH | NIOSV_C_ARCH

fun CLOCKS_PER_LOOP_ITERATION :: "core_variant \<Rightarrow> u32" where
  "CLOCKS_PER_LOOP_ITERATION NIOSV_M_ARCH = 9"
| "CLOCKS_PER_LOOP_ITERATION NIOSV_M_ARCH_NOPIPE = 14"
| "CLOCKS_PER_LOOP_ITERATION NIOSV_G_ARCH = 7"
| "CLOCKS_PER_LOOP_ITERATION NIOSV_C_ARCH = 14"

definition CPU_FREQUENCY_MHZ :: "u32 \<Rightarrow> u32" where
  "CPU_FREQUENCY_MHZ freq = freq div 1000000"

definition CLOCKS_PER_OUTER_LOOP :: "u32 \<Rightarrow> u64" where
  "CLOCKS_PER_OUTER_LOOP C = ucast C * 0xFFFFFFFF + ucast C"

definition US_PER_OUTER_LOOP :: "u32 \<Rightarrow> u32 \<Rightarrow> u64" where
  "US_PER_OUTER_LOOP C mhz = CLOCKS_PER_OUTER_LOOP C div ucast mhz"

text \<open>How often the outer loop is run, and the count of the loop for the rest.\<close>

definition small_loop_count :: "u32 \<Rightarrow> u32 \<Rightarrow> u32 \<Rightarrow> u32" where
  "small_loop_count C mhz us =
     (if push_bit 16 C < us then us div C * mhz else us * mhz div C)"

definition loop_counts :: "u32 \<Rightarrow> u32 \<Rightarrow> u32 \<Rightarrow> stuck + (u32 \<times> u32)" where
  "loop_counts C mhz us =
     (if mhz = 0 then Inl DivByZero
      else
        let per = US_PER_OUTER_LOOP C mhz
        in if per < ucast us then
             Inr (ucast (ucast us div per), small_loop_count C mhz (us mod ucast per))
           else Inr (0, small_loop_count C mhz us))"

text \<open>
  A loop counts its register down by one until it is zero: from zero it first wraps round, so the inner
  loop runs \<open>2 ^ 32\<close> times for every run of the outer one.
\<close>

definition countdown :: "u32 \<Rightarrow> nat" where
  "countdown r = (if r = 0 then 2 ^ 32 else unat r)"

definition loop_iterations :: "u32 \<times> u32 \<Rightarrow> nat" where
  "loop_iterations counts =
     (case counts of (big_loops, small) \<Rightarrow>
        unat big_loops * countdown 0 + (if 0 < small then countdown small else 0))"

section \<open>Waiting for a timer\<close>

text \<open>Reading the timer changes the hardware \<open>'h\<close>; a timer that never gets there is waited for for ever.\<close>

partial_function (option) wait_until :: "('h \<Rightarrow> u64 \<times> 'h) \<Rightarrow> u64 \<Rightarrow> 'h \<Rightarrow> 'h option" where
  "wait_until read_time end_time h =
     (let (t, h1) = read_time h
      in if t < end_time then wait_until read_time end_time h1 else Some h1)"

datatype delay_source = NoDelay | TimestampDelay | MtimeDelay | LoopDelay

text \<open>
  The time to wait is a product of 32-bit words, made longer only afterwards.  The result is the returned
  zero and the number of iterations of the counted loop.
\<close>

definition alt_busy_sleep ::
    "delay_source \<Rightarrow> u32 \<Rightarrow> u32 \<Rightarrow> ('h \<Rightarrow> 'h) \<Rightarrow> ('h \<Rightarrow> u64 \<times> 'h) \<Rightarrow> u32 \<Rightarrow> 'h \<Rightarrow> stuck + (u32 \<times> nat \<times> 'h)" where
  "alt_busy_sleep src C mhz timestamp_start read_time us h =
     (case src of
        NoDelay \<Rightarrow> Inr (0, 0, h)
      | TimestampDelay \<Rightarrow>
          returned (map_option (\<lambda>h1. Inr (0, 0, h1)) (wait_until read_time (ucast (mhz * us)) (timestamp_start h)))
      | MtimeDelay \<Rightarrow>
          (let (start_time, h1) = read_time h
           in returned (map_option (\<lambda>h2. Inr (0, 0, h2)) (wait_until read_time (start_time + ucast (mhz * us)) h1)))
      | LoopDelay \<Rightarrow>
          andThen (loop_counts C mhz us) (\<lambda>counts. Inr (0, loop_iterations counts, h)))"

definition ALT_USLEEP ::
    "delay_source \<Rightarrow> u32 \<Rightarrow> u32 \<Rightarrow> ('h \<Rightarrow> 'h) \<Rightarrow> ('h \<Rightarrow> u64 \<times> 'h) \<Rightarrow> u32 \<Rightarrow> 'h \<Rightarrow> stuck + (u32 \<times> nat \<times> 'h)" where
  "ALT_USLEEP src C mhz timestamp_start read_time us h = alt_busy_sleep src C mhz timestamp_start read_time us h"

section \<open>The error of the counted loop\<close>

lemma unat_outer_clocks: "unat (CLOCKS_PER_OUTER_LOOP C) = unat C * 2 ^ 32"
proof -
  have lt: "unat C < 2 ^ 32" using unsigned_less [of C, where ?'a = nat] by simp
  have "CLOCKS_PER_OUTER_LOOP C = ucast C * 0x100000000" by (simp add: CLOCKS_PER_OUTER_LOOP_def)
  also have "unat \<dots> = unat C * 2 ^ 32" using lt by (simp add: unat_word_ariths)
  finally show ?thesis .
qed

lemma unat_per: "unat (US_PER_OUTER_LOOP C mhz) = unat C * 2 ^ 32 div unat mhz"
  by (simp add: US_PER_OUTER_LOOP_def unat_div unat_outer_clocks)

text \<open>The rest, in clocks, is met but for less than one loop per microsecond's clocks.\<close>

lemma small_count:
  assumes "0 < unat C" and "0 < unat mhz" and "unat C * unat mhz < 2 ^ 16" and "unat us * unat mhz < unat C * 2 ^ 32"
  shows "unat C * unat (small_loop_count C mhz us) \<le> unat us * unat mhz \<and>
         unat us * unat mhz < unat C * unat (small_loop_count C mhz us) + unat C * unat mhz"
proof -
  let ?c = "unat C" let ?f = "unat mhz" let ?u = "unat us"
  have "?c \<le> ?c * ?f" using assms(2) by simp
  then have c: "?c < 2 ^ 16" using assms(3) by (rule le_less_trans)
  then have sh: "unat (push_bit 16 C) = ?c * 2 ^ 16"
    by (simp add: push_bit_eq_mult unat_word_ariths)
  show ?thesis
  proof (cases "push_bit 16 C < us")
    case True
    have "?u div ?c * ?f < 2 ^ 32"
    proof -
      have "?c * (?u div ?c * ?f) \<le> ?u * ?f" by (metis mult.assoc mult_le_mono1 times_div_less_eq_dividend)
      with assms(4) have "?c * (?u div ?c * ?f) < ?c * 2 ^ 32" by linarith
      then show ?thesis by simp
    qed
    then have n: "unat (small_loop_count C mhz us) = ?u div ?c * ?f"
      using True unat_mult_no_overflow [of "us div C" mhz] by (simp add: small_loop_count_def unat_div)
    have "?u = ?u div ?c * ?c + ?u mod ?c" by (rule div_mult_mod_eq [symmetric])
    moreover have "?u mod ?c < ?c" using assms(1) by simp
    ultimately have "?u div ?c * ?c \<le> ?u" "?u < ?u div ?c * ?c + ?c" by linarith+
    then have "?u div ?c * ?c * ?f \<le> ?u * ?f" "?u * ?f < (?u div ?c * ?c + ?c) * ?f"
      using assms(2) by simp_all
    then show ?thesis by (simp add: n algebra_simps)
  next
    case False
    then have "?u \<le> ?c * 2 ^ 16" using sh by (simp add: word_less_nat_alt)
    then have "?u * ?f \<le> ?c * 2 ^ 16 * ?f" by (rule mult_le_mono1)
    also have "\<dots> = ?c * ?f * 2 ^ 16" by simp
    also have "\<dots> < 2 ^ 32" using assms(3) by simp
    finally have "unat (us * mhz) = ?u * ?f" by (intro unat_mult_no_overflow) simp
    then have "unat (small_loop_count C mhz us) = ?u * ?f div ?c"
      using False by (simp add: small_loop_count_def unat_div)
    moreover have "?u * ?f = ?u * ?f div ?c * ?c + ?u * ?f mod ?c" by (rule div_mult_mod_eq [symmetric])
    moreover have "?u * ?f mod ?c < ?c" using assms(1) by simp
    moreover have "?c \<le> ?c * ?f" using assms(2) by simp
    ultimately show ?thesis by (simp only: mult.commute) linarith
  qed
qed

lemma per_bounds:
  assumes "0 < unat mhz"
  shows "unat (US_PER_OUTER_LOOP C mhz) * unat mhz \<le> unat C * 2 ^ 32"
    and "unat C * 2 ^ 32 < unat (US_PER_OUTER_LOOP C mhz) * unat mhz + unat mhz"
proof -
  have "unat C * 2 ^ 32 = unat C * 2 ^ 32 div unat mhz * unat mhz + unat C * 2 ^ 32 mod unat mhz"
    by (rule div_mult_mod_eq [symmetric])
  moreover have "unat C * 2 ^ 32 mod unat mhz < unat mhz" using assms by simp
  ultimately show "unat (US_PER_OUTER_LOOP C mhz) * unat mhz \<le> unat C * 2 ^ 32"
    "unat C * 2 ^ 32 < unat (US_PER_OUTER_LOOP C mhz) * unat mhz + unat mhz"
    unfolding unat_per by linarith+
qed

lemma iterations: "loop_iterations (b, s) = unat b * 2 ^ 32 + unat s"
  by (auto simp: loop_iterations_def countdown_def word_greater_zero_iff)

lemma unat_ucast_u32: "unat (x :: u64) < 2 ^ 32 \<Longrightarrow> unat (ucast x :: u32) = unat x"
  by (simp add: unsigned_ucast_eq take_bit_nat_eq_self)

text \<open>The counts when the delay is longer than one run of the outer loop, and when it is not.\<close>

lemma long_counts:
  assumes "US_PER_OUTER_LOOP C mhz < ucast us" and "mhz \<noteq> 0" and "0 < unat (US_PER_OUTER_LOOP C mhz)"
  shows "\<exists>b r. loop_counts C mhz us = Inr (b, small_loop_count C mhz r) \<and>
               unat us = unat b * unat (US_PER_OUTER_LOOP C mhz) + unat r \<and> unat r < unat (US_PER_OUTER_LOOP C mhz)"
proof -
  let ?per = "US_PER_OUTER_LOOP C mhz"
  have us: "unat us < 2 ^ 32" using unsigned_less [of us, where ?'a = nat] by simp
  have "unat ?per < unat us" using assms(1) by (simp add: word_less_nat_alt)
  then have p: "unat (ucast ?per :: u32) = unat ?per" using us by (intro unat_ucast_u32) simp
  have "unat (ucast us div ?per) = unat us div unat ?per" by (simp add: unat_div)
  moreover from this have "unat (ucast us div ?per) < 2 ^ 32" using us div_le_dividend [of "unat us" "unat ?per"] by linarith
  ultimately have q: "unat (ucast (ucast us div ?per) :: u32) = unat us div unat ?per" by (simp add: unat_ucast_u32)
  have r: "unat (us mod ucast ?per) = unat us mod unat ?per" by (simp add: unat_mod p)
  show ?thesis
    using assms by (intro exI [of _ "ucast (ucast us div ?per)"] exI [of _ "us mod ucast ?per"])
      (simp add: loop_counts_def Let_def q r)
qed

text \<open>C38: On a processor of positive clock frequency the counted loop is accurate but for rounding: unless the delay is exactly one run of the outer
  loop, the clocks it takes are less than one loop's clocks per microsecond short of the delay, and exceed
  it by less than one microsecond for every run of the outer loop; no computation overflows.\<close>

theorem busy_loop_accuracy:
  assumes "0 < unat C" and "0 < unat mhz" and "unat C * unat mhz < 2 ^ 16"
    and "unat us * unat mhz \<noteq> unat C * 2 ^ 32"
  shows "\<exists>b s. loop_counts C mhz us = Inr (b, s) \<and>
               unat us * unat mhz < unat C * loop_iterations (b, s) + unat C * unat mhz \<and>
               unat C * loop_iterations (b, s) \<le> unat us * unat mhz + unat b * unat mhz \<and>
               unat b * unat (US_PER_OUTER_LOOP C mhz) \<le> unat us"
proof -
  let ?per = "US_PER_OUTER_LOOP C mhz" let ?c = "unat C" let ?f = "unat mhz"
  have z: "mhz \<noteq> 0" using assms(2) by auto
  note pb = per_bounds [OF assms(2), of C]
  show ?thesis
  proof (cases "?per < ucast us")
    case True
    have "?f \<le> ?c * ?f" using assms(1) by simp
    with assms(3) have "?f < 2 ^ 16" by (rule le_less_trans [rotated])
    moreover have "2 ^ 32 \<le> ?c * 2 ^ 32" using assms(1) by simp
    ultimately have "0 < unat ?per" using pb(2) by (cases "unat ?per") simp_all
    from long_counts [OF True z this] obtain b r where
      l: "loop_counts C mhz us = Inr (b, small_loop_count C mhz r)" and u: "unat us = unat b * unat ?per + unat r"
      and r: "unat r < unat ?per" by blast
    have "unat r * ?f < ?c * 2 ^ 32" using r pb(1) assms(2) by (meson less_le_trans mult_less_mono1)
    note sc = small_count [OF assms(1-3) this]
    have uf: "unat us * ?f = unat b * (unat ?per * ?f) + unat r * ?f" by (simp add: u algebra_simps)
    have cn: "?c * loop_iterations (b, small_loop_count C mhz r) =
              unat b * (?c * 2 ^ 32) + ?c * unat (small_loop_count C mhz r)"
      by (simp add: iterations algebra_simps)
    have "unat b * (unat ?per * ?f) \<le> unat b * (?c * 2 ^ 32)" using pb(1) by (rule mult_le_mono2)
    moreover have "unat b * (?c * 2 ^ 32) \<le> unat b * (unat ?per * ?f) + unat b * ?f"
      using pb(2) mult_le_mono2 [of "?c * 2 ^ 32" "unat ?per * ?f + ?f" "unat b"] by (simp add: algebra_simps)
    moreover have "unat b * unat ?per \<le> unat us" using u by simp
    ultimately show ?thesis using sc l by (intro exI conjI) (assumption | simp only: uf cn; linarith)+
  next
    case False
    then have "unat us \<le> unat ?per" by (simp add: word_less_nat_alt)
    then have "unat us * ?f \<le> unat ?per * ?f" by (rule mult_le_mono1)
    with pb(1) assms(4) have "unat us * ?f < ?c * 2 ^ 32" by linarith
    from small_count [OF assms(1-3) this] False z show ?thesis
      by (simp add: loop_counts_def iterations)
  qed
qed

theorem busy_loop_accuracy_witness:
  "\<exists>b s. loop_counts 14 50 2000000000 = Inr (b, s) \<and>
         2000000000 * 50 < 14 * loop_iterations (b, s) + 700 \<and>
         14 * loop_iterations (b, s) \<le> 2000000000 * 50 + unat b * 50"
  using busy_loop_accuracy [of 14 50 2000000000] by auto

text \<open>The excluded delay is one that takes exactly \<open>2 ^ 32\<close> iterations: the count wraps round and nothing is waited.\<close>

lemma busy_loop_wraps: "loop_counts 14 64 939524096 = Inr (0, 0) \<and> loop_iterations (0, 0) = 0"
  by (simp add: loop_counts_def Let_def US_PER_OUTER_LOOP_def CLOCKS_PER_OUTER_LOOP_def small_loop_count_def
      loop_iterations_def)

text \<open>
  In the configured system the frequency is 0, so that the delay divides by zero; so it does for every
  clock below a megahertz.
\<close>

lemma busy_sleep_configured:
  "alt_busy_sleep LoopDelay (CLOCKS_PER_LOOP_ITERATION NIOSV_C_ARCH) (CPU_FREQUENCY_MHZ 0) start read_time us h = Inl DivByZero"
  by (simp add: alt_busy_sleep_def loop_counts_def CPU_FREQUENCY_MHZ_def)

section \<open>Waiting for the machine timer\<close>

text \<open>What is waited for is reached when the wait returns, and a timer that gets there ends it.\<close>

lemma wait_until_reached:
  "wait_until read_time end_time h = Some h' \<Longrightarrow> \<exists>g t. read_time g = (t, h') \<and> end_time \<le> t"
proof (induction rule: wait_until.raw_induct [rotated, consumes 1, case_names step])
  case (step w read_time end_time h h')
  then show ?case by (cases "read_time h") (auto simp: not_less split: if_splits)
qed

fun reaches :: "('h \<Rightarrow> u64 \<times> 'h) \<Rightarrow> u64 \<Rightarrow> nat \<Rightarrow> 'h \<Rightarrow> bool" where
  "reaches read_time end_time 0 h \<longleftrightarrow> end_time \<le> fst (read_time h)"
| "reaches read_time end_time (Suc k) h \<longleftrightarrow>
     end_time \<le> fst (read_time h) \<or> reaches read_time end_time k (snd (read_time h))"

lemma wait_until_returns: "reaches read_time end_time k h \<Longrightarrow> \<exists>h'. wait_until read_time end_time h = Some h'"
proof (induction k arbitrary: h)
  case 0
  then show ?case by (cases "read_time h") (subst wait_until.simps, auto simp: not_less)
next
  case (Suc k)
  then show ?case by (cases "read_time h") (subst wait_until.simps, auto simp: not_less)
qed

text \<open>
  A delay with the machine timer returns once the timer has passed the start by the product of the
  microseconds and the clocks of a microsecond modulo the word size: a delay of \<open>2 ^ 32\<close> clocks or more
  ends too early.
\<close>

lemma mtime_sleep_end:
  assumes "read_time h = (start_time, h1)" and "unat start_time + 2 ^ 32 < 2 ^ 64"
    and "reaches read_time (start_time + ucast (mhz * us)) k h1"
  shows "\<exists>h2 g t. alt_busy_sleep MtimeDelay C mhz start read_time us h = Inr (0, 0, h2) \<and>
                 read_time g = (t, h2) \<and> unat start_time + unat us * unat mhz mod 2 ^ 32 \<le> unat t"
proof -
  have m: "unat (mhz * us) = unat us * unat mhz mod 2 ^ 32" by (simp add: unat_word_ariths mult.commute)
  have "unat (start_time + ucast (mhz * us)) = unat start_time + unat (ucast (mhz * us) :: u64)"
    using assms(2) unsigned_less [of "mhz * us", where ?'a = nat] by (intro unat_add_no_overflow) simp
  then have e: "unat (start_time + ucast (mhz * us)) = unat start_time + unat us * unat mhz mod 2 ^ 32"
    by (simp only: unat_ucast_u64 m)
  from wait_until_returns [OF assms(3)] obtain h2
    where w: "wait_until read_time (start_time + ucast (mhz * us)) h1 = Some h2" by blast
  from wait_until_reached [OF w] obtain g t
    where "read_time g = (t, h2)" "start_time + ucast (mhz * us) \<le> t" by blast
  with e have "read_time g = (t, h2)" "unat start_time + unat us * unat mhz mod 2 ^ 32 \<le> unat t"
    by (simp_all only: word_le_nat_alt)
  moreover have "alt_busy_sleep MtimeDelay C mhz start read_time us h = Inr (0, 0, h2)"
    by (simp add: alt_busy_sleep_def assms(1) w)
  ultimately show ?thesis by blast
qed

end
