(* ===== verification/Dfl.thy ===== *)
theory Dfl
  imports FpgaInf
begin

text \<open>
  The walk over the device feature list (\<^verbatim>\<open>intel_fpga_api_cmn_dfl.c\<close>): a first pass counts the
  interfaces, a second one fills the interface table.  The list is read from memory; a branch
  parameter of an interface leads to a list one level down, whose interfaces get the index on top of
  the parent stack as their parent.  The two functions that call each other,
  \<^verbatim>\<open>deal_with_interface_at_current_level\<close> and \<^verbatim>\<open>process_param_list_for_known_param_id\<close>, take fuel: a
  list in memory may be endless or go round, and then the walk does not return.
\<close>

section \<open>Reading the list\<close>

text \<open>The word at each byte address; a 64-bit read takes the word at the address and the next one.\<close>

type_synonym dfl_mem = "u32 \<Rightarrow> u32"

definition common_dfl_read_64 :: "dfl_mem \<Rightarrow> u32 \<Rightarrow> u32 \<Rightarrow> u64" where
  "common_dfl_read_64 mem begin_address offset =
     ucast (mem (begin_address + offset)) OR push_bit 32 (ucast (mem (begin_address + offset + 4)))"

text \<open>
  On platforms that read 32 bits at a time a read is put together from two, which must be aligned; it is
  the same value.
\<close>

definition common_dfl_read_32 :: "dfl_mem \<Rightarrow> u32 \<Rightarrow> u32 \<Rightarrow> stuck + u32" where
  "common_dfl_read_32 mem begin_address offset =
     (if (begin_address + offset) AND 0x3 \<noteq> 0 then fpga_throw else Inr (mem (begin_address + offset)))"

definition emulated_read_64 :: "dfl_mem \<Rightarrow> u32 \<Rightarrow> u32 \<Rightarrow> stuck + u64" where
  "emulated_read_64 mem begin_address offset =
     andThen (common_dfl_read_32 mem begin_address offset) (\<lambda>data.
     andThen (common_dfl_read_32 mem begin_address (offset + 4)) (\<lambda>high.
       Inr (ucast data OR push_bit 32 (ucast high))))"

lemma unat_and_3: "unat ((a :: u32) AND 3) = unat a mod 4"
proof -
  have "(3 :: u32) = mask 2" by (simp add: mask_eq_exp_minus_1)
  then have "unat (a AND 3) = take_bit 2 (unat a)" by (simp only: take_bit_eq_mask [symmetric] unsigned_take_bit_eq)
  then show ?thesis by (simp add: take_bit_eq_mod)
qed

lemma aligned_next_word:
  fixes a :: u32
  assumes "a AND 3 = 0"
  shows "(a + 4) AND 3 = 0"
proof -
  have "4 dvd unat a" using assms unat_and_3 [of a] by (simp add: dvd_eq_mod_eq_0)
  moreover have "(4 :: nat) dvd 2 ^ 32" by simp
  ultimately have "4 dvd unat (a + 4)" by (simp add: unat_word_ariths dvd_mod)
  then show ?thesis using unat_and_3 [of "a + 4"] by (simp add: word_unat_eq_iff dvd_eq_mod_eq_0)
qed

lemma emulated_read:
  "(begin_address + offset) AND 3 = 0 \<Longrightarrow>
   emulated_read_64 mem begin_address offset = Inr (common_dfl_read_64 mem begin_address offset)"
  "(begin_address + offset) AND 3 \<noteq> 0 \<Longrightarrow> emulated_read_64 mem begin_address offset = fpga_throw"
  using aligned_next_word [of "begin_address + offset"]
  by (simp_all add: emulated_read_64_def common_dfl_read_32_def common_dfl_read_64_def fpga_throw_def add.assoc)

definition get_x_feature_dfh_start_64_data :: "dfl_mem \<Rightarrow> u32 \<Rightarrow> u64" where
  "get_x_feature_dfh_start_64_data mem a = common_dfl_read_64 mem a 0x00"

definition is_eol :: "u64 \<Rightarrow> bool" where
  "is_eol d \<longleftrightarrow> 0 < d AND 0x0000010000000000"

definition get_next_dfh_byte_offset :: "u64 \<Rightarrow> u32" where
  "get_next_dfh_byte_offset d = ucast (drop_bit 16 (d AND 0x0000007fffff0000))"

definition get_next_dfh_addr :: "u64 \<Rightarrow> u32 \<Rightarrow> u32" where
  "get_next_dfh_addr d a = a + get_next_dfh_byte_offset d"

definition get_x_feature_guid_l_64 :: "dfl_mem \<Rightarrow> u32 \<Rightarrow> u64" where
  "get_x_feature_guid_l_64 mem a = common_dfl_read_64 mem a 0x08"

definition get_x_feature_guid_h_64 :: "dfl_mem \<Rightarrow> u32 \<Rightarrow> u64" where
  "get_x_feature_guid_h_64 mem a = common_dfl_read_64 mem a 0x10"

definition get_x_feature_guid_128 :: "dfl_mem \<Rightarrow> u32 \<Rightarrow> u64 \<times> u64" where
  [simp]: "get_x_feature_guid_128 mem a = (get_x_feature_guid_h_64 mem a, get_x_feature_guid_l_64 mem a)"

definition get_x_feature_csr_group_size_64_data :: "dfl_mem \<Rightarrow> u32 \<Rightarrow> u64" where
  "get_x_feature_csr_group_size_64_data mem a = common_dfl_read_64 mem a 0x20"

definition get_instance_id :: "dfl_mem \<Rightarrow> u32 \<Rightarrow> u16" where
  "get_instance_id mem a = ucast (get_x_feature_csr_group_size_64_data mem a AND 0xffff)"

definition get_group_id :: "dfl_mem \<Rightarrow> u32 \<Rightarrow> u16" where
  "get_group_id mem a = ucast (drop_bit 16 (get_x_feature_csr_group_size_64_data mem a AND 0x7fff0000))"

definition get_first_param_header_addr :: "u32 \<Rightarrow> u32" where
  "get_first_param_header_addr a = a + 0x28"

definition is_last_param_block :: "u64 \<Rightarrow> bool" where
  "is_last_param_block h \<longleftrightarrow> drop_bit 32 h AND 1 \<noteq> 0"

definition get_next_param_byte_offset :: "u64 \<Rightarrow> u64" where
  "get_next_param_byte_offset h = push_bit 3 (drop_bit 35 h)"

definition get_param_block_version :: "u64 \<Rightarrow> u16" where
  "get_param_block_version h = ucast (drop_bit 16 h AND 0xFFFF)"

definition get_param_block_param_id :: "u64 \<Rightarrow> u16" where
  "get_param_block_param_id h = ucast (h AND 0xFFFF)"

definition get_param_id :: "u64 \<Rightarrow> u32" where
  "get_param_id h = ucast (h AND 0xFFFF)"

text \<open>The lowest bit of an address says that it is absolute, otherwise it is relative to the interface.\<close>

definition get_base_address :: "dfl_mem \<Rightarrow> u32 \<Rightarrow> u32" where
  "get_base_address mem a =
     (let csr_addr = common_dfl_read_64 mem a 0x18
      in if 1 AND csr_addr \<noteq> 0 then ucast (csr_addr AND 0xFFFFFFFFFFFFFFFE)
         else ucast (ucast a + csr_addr))"

definition has_params :: "u64 \<Rightarrow> bool" where
  "has_params d \<longleftrightarrow> 0 < d AND 0x0000000080000000"

text \<open>The start of the list a branch parameter leads to.\<close>

definition branch_address :: "dfl_mem \<Rightarrow> u32 \<Rightarrow> u32 \<Rightarrow> u32" where
  "branch_address mem a p =
     (let branch_dfl_64_data = common_dfl_read_64 mem p 0x8
      in if branch_dfl_64_data AND 1 \<noteq> 0 then ucast (branch_dfl_64_data AND 0xFFFFFFFFFFFFFFF8)
         else ucast (scast a + (branch_dfl_64_data AND 0xFFFFFFFFFFFFFFF8)))"

section \<open>State\<close>

text \<open>
  The parent stack and the two counters.  The stack is a global without an initialiser, so all its
  fields start at zero; \<open>ds_head\<close> is the allocated array, \<^verbatim>\<open>size\<close> its length.
\<close>

record dfl_state = fpga_vec +
  ds_head :: "int list"
  ds_top :: int
  s_scanned_interface_count :: nat
  s_interface_index :: int

definition dfl_init :: dfl_state where
  "dfl_init = \<lparr>iv_vec = [], iv_size = 0, iv_allocs = 0, ds_head = [], ds_top = 0,
     s_scanned_interface_count = 0, s_interface_index = 0\<rparr>"

section \<open>The parent stack\<close>

definition dfh_parent_stack_resize :: "allocator \<Rightarrow> nat \<Rightarrow> dfl_state \<Rightarrow> stuck + dfl_state" where
  "dfh_parent_stack_resize ok n s =
     (if length (ds_head s) < n then
        andThen (allocate ok (n * 4) s) (\<lambda>s1. Inr (s1\<lparr>ds_head := ds_head s1 @ replicate (n - length (ds_head s1)) 0\<rparr>))
      else if n = 0 then Inr (s\<lparr>ds_head := []\<rparr>)
      else if n < length (ds_head s) then fpga_throw
      else Inr s)"

definition dfh_parent_stack_isempty :: "dfl_state \<Rightarrow> bool" where
  "dfh_parent_stack_isempty s \<longleftrightarrow> ds_top s = -1"

definition dfh_parent_stack_peek :: "dfl_state \<Rightarrow> stuck + int" where
  "dfh_parent_stack_peek s =
     (if 0 \<le> ds_top s \<and> ds_top s < int (length (ds_head s)) then Inr (ds_head s ! nat (ds_top s)) else Inl OutOfBounds)"

definition dfh_parent_stack_pop :: "dfl_state \<Rightarrow> stuck + dfl_state" where
  "dfh_parent_stack_pop s =
     (if \<not> dfh_parent_stack_isempty s then Inr (s\<lparr>ds_top := ds_top s - 1\<rparr>) else fpga_throw)"

abbreviation (input) DFH_PARENT_STACK_INCR_SIZE :: nat where "DFH_PARENT_STACK_INCR_SIZE \<equiv> 8"

definition dfh_parent_stack_push :: "allocator \<Rightarrow> int \<Rightarrow> dfl_state \<Rightarrow> stuck + dfl_state" where
  "dfh_parent_stack_push ok data s =
     andThen (if ds_top s = int (length (ds_head s))
              then dfh_parent_stack_resize ok (length (ds_head s) + DFH_PARENT_STACK_INCR_SIZE) s
              else Inr s) (\<lambda>s1.
       let top = ds_top s1 + 1
       in if 0 \<le> top \<and> top < int (length (ds_head s1))
          then Inr (s1\<lparr>ds_top := top, ds_head := (ds_head s1)[nat top := data]\<rparr>)
          else Inl OutOfBounds)"

section \<open>Filling in an interface\<close>

abbreviation (input) PARAM_HEADER_SIZE :: u64 where "PARAM_HEADER_SIZE \<equiv> 8"
abbreviation (input) PARAM_SIZE :: nat where "PARAM_SIZE \<equiv> 12"

text \<open>Every field of the first parameter is written before it is read.\<close>

definition param_block_init :: "allocator \<Rightarrow> nat \<Rightarrow> 'z fpga_vec_scheme \<Rightarrow> stuck + 'z fpga_vec_scheme" where
  "param_block_init ok index s =
     andThen (allocate ok PARAM_SIZE s) (set_info index (\<lambda>i. i\<lparr>fi_parameters := [zero_param]\<rparr>))"

definition param_block_resize :: "allocator \<Rightarrow> nat \<Rightarrow> nat \<Rightarrow> 'z fpga_vec_scheme \<Rightarrow> stuck + 'z fpga_vec_scheme" where
  "param_block_resize ok index n s =
     andThen (info_at index s) (\<lambda>i.
       let num = length (fi_parameters i)
       in if num < n then
            andThen (allocate ok (n * PARAM_SIZE) s)
              (set_info index (\<lambda>i. i\<lparr>fi_parameters := fi_parameters i @ replicate (n - num) zero_param\<rparr>))
          else if n = 0 then set_info index (\<lambda>i. i\<lparr>fi_parameters := []\<rparr>) s
          else if n < num then fpga_throw
          else Inr s)"

definition set_param ::
    "nat \<Rightarrow> nat \<Rightarrow> (fpga_param \<Rightarrow> fpga_param) \<Rightarrow> 'z fpga_vec_scheme \<Rightarrow> stuck + 'z fpga_vec_scheme" where
  "set_param index b f s =
     andThen (info_at index s) (\<lambda>i.
       if b < length (fi_parameters i) then
         set_info index (\<lambda>i. i\<lparr>fi_parameters := (fi_parameters i)[b := f (fi_parameters i ! b)]\<rparr>) s
       else Inl OutOfBounds)"

definition param_data_allocate ::
    "allocator \<Rightarrow> nat \<Rightarrow> nat \<Rightarrow> u32 \<Rightarrow> 'z fpga_vec_scheme \<Rightarrow> stuck + 'z fpga_vec_scheme" where
  "param_data_allocate ok index b n s =
     (if n mod 8 \<noteq> 0 then fpga_throw
      else andThen (allocate ok (unat n) s)
             (set_param index b (\<lambda>p. p\<lparr>fp_data := replicate (unat n div 8) 0, fp_data_size := n\<rparr>)))"

text \<open>The copy reads the words one after the other.\<close>

definition param_data_copy ::
    "dfl_mem \<Rightarrow> nat \<Rightarrow> nat \<Rightarrow> u32 \<Rightarrow> 'z fpga_vec_scheme \<Rightarrow> stuck + 'z fpga_vec_scheme" where
  "param_data_copy mem index b a s =
     set_param index b (\<lambda>p. p\<lparr>fp_data :=
         map (\<lambda>i. common_dfl_read_64 mem (a + 8 * of_nat i) 0) [0..<unat (fp_data_size p) div 8]\<rparr>) s"

text \<open>The loop of \<^verbatim>\<open>set_parameter_properties\<close>: \<open>b\<close> is the block's index, \<open>p\<close> its address.\<close>

fun param_loop ::
    "nat \<Rightarrow> dfl_mem \<Rightarrow> allocator \<Rightarrow> nat \<Rightarrow> nat \<Rightarrow> u32 \<Rightarrow> 'z fpga_vec_scheme \<Rightarrow> stuck + 'z fpga_vec_scheme" where
  "param_loop 0 mem ok index b p s = Inl Spins"
| "param_loop (Suc fuel) mem ok index b p s =
     (let h = common_dfl_read_64 mem p 0
      in if \<not> is_last_param_block h \<or> 0 < get_next_param_byte_offset h then
           andThen (if b = 0 then param_block_init ok index s else Inr s) (\<lambda>s1.
           andThen (set_param index b (\<lambda>q. q\<lparr>fp_version := get_param_block_version h,
                                         fp_param_id := get_param_block_param_id h\<rparr>) s1) (\<lambda>s2.
           let param_data_size = (if is_last_param_block h then ucast (get_next_param_byte_offset h)
                                  else ucast (get_next_param_byte_offset h - PARAM_HEADER_SIZE))
           in andThen (param_data_allocate ok index b param_data_size s2) (\<lambda>s3.
              andThen (param_data_copy mem index b (p + 8) s3) (\<lambda>s4.
                if \<not> is_last_param_block h then
                  andThen (param_block_resize ok index (b + 2) s4)
                    (param_loop fuel mem ok index (b + 1) (p + ucast (get_next_param_byte_offset h)))
                else Inr s4))))
         else Inr s)"

definition set_parameter_properties ::
    "nat \<Rightarrow> dfl_mem \<Rightarrow> allocator \<Rightarrow> nat \<Rightarrow> u32 \<Rightarrow> 'z fpga_vec_scheme \<Rightarrow> stuck + 'z fpga_vec_scheme" where
  "set_parameter_properties fuel mem ok index a s =
     (if has_params (get_x_feature_csr_group_size_64_data mem a)
      then param_loop fuel mem ok index 0 (get_first_param_header_addr a) s
      else Inr s)"

definition set_interface_properties ::
    "nat \<Rightarrow> dfl_mem \<Rightarrow> allocator \<Rightarrow> nat \<Rightarrow> u32 \<Rightarrow> dfl_state \<Rightarrow> stuck + dfl_state" where
  "set_interface_properties fuel mem ok index a s =
     andThen (dfh_parent_stack_peek s) (\<lambda>parent.
     andThen (set_info index (\<lambda>i. i\<lparr>fi_base_address := get_base_address mem a,
                fi_guid_h := fst (get_x_feature_guid_128 mem a), fi_guid_l := snd (get_x_feature_guid_128 mem a),
                fi_instance_id := get_instance_id mem a, fi_group_id := get_group_id mem a,
                fi_dfh_parent := parent, fi_mmio_opened := False, fi_interrupt_opened := False\<rparr>) s)
       (set_parameter_properties fuel mem ok index a))"

section \<open>The walk\<close>

text \<open>
  \<open>deal_with_interface\<close> handles the interface at \<open>a\<close> and the ones after it at its level,
  \<open>process_params\<close> the parameter blocks from \<open>p\<close> on of the interface at \<open>a\<close>.
\<close>

fun deal_with_interface :: "nat \<Rightarrow> dfl_mem \<Rightarrow> allocator \<Rightarrow> bool \<Rightarrow> u32 \<Rightarrow> dfl_state \<Rightarrow> stuck + dfl_state"
and process_params :: "nat \<Rightarrow> dfl_mem \<Rightarrow> allocator \<Rightarrow> bool \<Rightarrow> u32 \<Rightarrow> u32 \<Rightarrow> dfl_state \<Rightarrow> stuck + dfl_state" where
  "deal_with_interface 0 mem ok collect a s = Inl Spins"
| "deal_with_interface (Suc fuel) mem ok collect a s =
     andThen (if \<not> collect then Inr (s\<lparr>s_scanned_interface_count := s_scanned_interface_count s + 1\<rparr>)
              else let s1 = s\<lparr>s_interface_index := s_interface_index s + 1\<rparr>
                   in set_interface_properties fuel mem ok (nat (s_interface_index s1)) a s1) (\<lambda>s2.
     andThen (if has_params (get_x_feature_csr_group_size_64_data mem a)
              then process_params fuel mem ok collect a (get_first_param_header_addr a) s2
              else Inr s2) (\<lambda>s3.
       let d = get_x_feature_dfh_start_64_data mem a
       in if \<not> is_eol d then deal_with_interface fuel mem ok collect (get_next_dfh_addr d a) s3
          else dfh_parent_stack_pop s3))"
| "process_params 0 mem ok collect a p s = Inl Spins"
| "process_params (Suc fuel) mem ok collect a p s =
     (let h = common_dfl_read_64 mem p 0
      in if \<not> is_last_param_block h \<or> 0 < get_next_param_byte_offset h then
           andThen (if get_param_id h = 0xc then
                      andThen (dfh_parent_stack_push ok (s_interface_index s) s)
                        (deal_with_interface fuel mem ok collect (branch_address mem a p))
                    else Inr s) (\<lambda>s1.
             if \<not> is_last_param_block h
             then process_params fuel mem ok collect a (p + ucast (get_next_param_byte_offset h)) s1
             else Inr s1)
         else Inr s)"

definition scan_the_num_interfaces :: "nat \<Rightarrow> dfl_mem \<Rightarrow> allocator \<Rightarrow> u32 \<Rightarrow> dfl_state \<Rightarrow> stuck + dfl_state" where
  "scan_the_num_interfaces fuel mem ok a s =
     andThen (dfh_parent_stack_push ok (-1) s) (deal_with_interface fuel mem ok False a)"

definition dfl_collect_interfaces_info :: "nat \<Rightarrow> dfl_mem \<Rightarrow> allocator \<Rightarrow> u32 \<Rightarrow> dfl_state \<Rightarrow> stuck + dfl_state" where
  "dfl_collect_interfaces_info fuel mem ok a s =
     andThen (dfh_parent_stack_push ok (-1) s) (\<lambda>s1.
     andThen (vec_resize ok (iv_size s1) s1) (deal_with_interface fuel mem ok True a))"

definition common_dfl_scan_multi_interfaces ::
    "nat \<Rightarrow> dfl_mem \<Rightarrow> allocator \<Rightarrow> u32 \<Rightarrow> dfl_state \<Rightarrow> stuck + dfl_state" where
  "common_dfl_scan_multi_interfaces fuel mem ok first_dfh_addr s =
     andThen (vec_resize ok 0 (s\<lparr>s_scanned_interface_count := 0\<rparr>)) (\<lambda>s1.
     andThen (scan_the_num_interfaces fuel mem ok first_dfh_addr s1) (\<lambda>s2.
     andThen (vec_resize ok (s_scanned_interface_count s2) s2) (\<lambda>s3.
     andThen (dfl_collect_interfaces_info fuel mem ok first_dfh_addr (s3\<lparr>s_interface_index := -1\<rparr>))
       (dfh_parent_stack_resize ok 0))))"

definition fpga_platform_init :: "nat \<Rightarrow> dfl_mem \<Rightarrow> allocator \<Rightarrow> u32 \<Rightarrow> dfl_state \<Rightarrow> stuck + (bool \<times> dfl_state)" where
  "fpga_platform_init fuel mem ok start s =
     andThen (common_dfl_scan_multi_interfaces fuel mem ok start s) (\<lambda>s1. Inr (True, s1))"

section \<open>What a list in memory describes\<close>

text \<open>
  An interface is its address, the addresses of its parameter blocks and, for each of its branch
  parameters in order, the level the branch leads to; a level is a list of interfaces.
\<close>

datatype dfl_node = DflNode u32 "u32 list" "dfl_node list list"

definition param_header :: "dfl_mem \<Rightarrow> u32 \<Rightarrow> u64" where
  "param_header mem p = common_dfl_read_64 mem p 0"

text \<open>A list of blocks ends at a block without data, which is not part of it, or with a block that has data.\<close>

fun blocks_at :: "dfl_mem \<Rightarrow> u32 \<Rightarrow> u32 list \<Rightarrow> bool" where
  "blocks_at mem p [] \<longleftrightarrow>
     is_last_param_block (param_header mem p) \<and> get_next_param_byte_offset (param_header mem p) = 0"
| "blocks_at mem p (b # bs) \<longleftrightarrow> b = p \<and>
     (if is_last_param_block (param_header mem p)
      then get_next_param_byte_offset (param_header mem p) \<noteq> 0 \<and> bs = []
      else blocks_at mem (p + ucast (get_next_param_byte_offset (param_header mem p))) bs)"

definition is_branch :: "dfl_mem \<Rightarrow> u32 \<Rightarrow> bool" where
  "is_branch mem p \<longleftrightarrow> get_param_id (param_header mem p) = 0xc"

fun level_at :: "dfl_mem \<Rightarrow> u32 \<Rightarrow> dfl_node list \<Rightarrow> bool"
and branches_at :: "dfl_mem \<Rightarrow> u32 \<Rightarrow> u32 list \<Rightarrow> dfl_node list list \<Rightarrow> bool" where
  "level_at mem a [] = False"
| "level_at mem a (DflNode b bs kids # rest) \<longleftrightarrow> b = a \<and>
     (if has_params (get_x_feature_csr_group_size_64_data mem a)
      then blocks_at mem (get_first_param_header_addr a) bs else bs = []) \<and>
     branches_at mem a (filter (is_branch mem) bs) kids \<and>
     (let d = get_x_feature_dfh_start_64_data mem a
      in if is_eol d then rest = [] else level_at mem (get_next_dfh_addr d a) rest)"
| "branches_at mem a [] kids \<longleftrightarrow> kids = []"
| "branches_at mem a (p # ps) [] = False"
| "branches_at mem a (p # ps) (k # ks) \<longleftrightarrow> level_at mem (branch_address mem a p) k \<and> branches_at mem a ps ks"

text \<open>
  The interfaces in the order of the table, each with its blocks and the parent the walk gives it: the
  interfaces of a branch get the one found last before them, whose index is one less than \<open>n\<close>.
\<close>

type_synonym dfl_entry = "(u32 \<times> u32 list) \<times> int"

fun visit :: "int \<Rightarrow> nat \<Rightarrow> dfl_node list \<Rightarrow> dfl_entry list"
and visit_kids :: "nat \<Rightarrow> dfl_node list list \<Rightarrow> dfl_entry list" where
  "visit par n [] = []"
| "visit par n (DflNode a bs kids # rest) =
     (let sub = visit_kids (n + 1) kids in ((a, bs), par) # sub @ visit par (n + 1 + length sub) rest)"
| "visit_kids n [] = []"
| "visit_kids n (k # ks) = (let v = visit (int n - 1) n k in v @ visit_kids (n + length v) ks)"

text \<open>The depth of the parent stack a level needs, and a bound on the fuel.\<close>

fun level_depth :: "dfl_node list \<Rightarrow> nat"
and kids_depth :: "dfl_node list list \<Rightarrow> nat" where
  "level_depth [] = 0"
| "level_depth (DflNode a bs kids # rest) = max (kids_depth kids) (level_depth rest)"
| "kids_depth [] = 0"
| "kids_depth (k # ks) = max (1 + level_depth k) (kids_depth ks)"

fun level_size :: "dfl_node list \<Rightarrow> nat"
and kids_size :: "dfl_node list list \<Rightarrow> nat" where
  "level_size [] = 0"
| "level_size (DflNode a bs kids # rest) = 2 + length bs + kids_size kids + level_size rest"
| "kids_size [] = 0"
| "kids_size (k # ks) = level_size k + kids_size ks"

text \<open>The table entry of an interface.\<close>

definition param_of :: "dfl_mem \<Rightarrow> u32 \<Rightarrow> fpga_param" where
  "param_of mem p =
     (let h = param_header mem p;
          n = (if is_last_param_block h then ucast (get_next_param_byte_offset h)
               else ucast (get_next_param_byte_offset h - PARAM_HEADER_SIZE))
      in \<lparr>fp_version = get_param_block_version h, fp_param_id = get_param_block_param_id h, fp_data_size = n,
          fp_data = map (\<lambda>i. common_dfl_read_64 mem (p + 8 + 8 * of_nat i) 0) [0..<unat n div 8]\<rparr>)"

definition params_of :: "dfl_mem \<Rightarrow> u32 list \<Rightarrow> fpga_param list" where
  "params_of mem bs = map (param_of mem) bs @
     (if bs \<noteq> [] \<and> \<not> is_last_param_block (param_header mem (last bs)) then [zero_param] else [])"

definition info_of :: "dfl_mem \<Rightarrow> dfl_entry \<Rightarrow> fpga_info" where
  "info_of mem e = (case e of ((a, bs), par) \<Rightarrow>
     \<lparr>fi_guid_l = get_x_feature_guid_l_64 mem a, fi_guid_h = get_x_feature_guid_h_64 mem a,
      fi_instance_id = get_instance_id mem a, fi_group_id = get_group_id mem a,
      fi_parameters = params_of mem bs, fi_dfh_parent = par, fi_base_address = get_base_address mem a,
      fi_interrupt = 0, fi_mmio_opened = False, fi_interrupt_opened = False\<rparr>)"

section \<open>Filling in an interface\<close>

lemma mod8:
  fixes x :: u64
  shows "(ucast (push_bit 3 x) :: u32) mod 8 = 0" "(ucast (push_bit 3 x - 8) :: u32) mod 8 = 0"
proof -
  have *: "(ucast (push_bit 3 y :: u64) :: u32) mod 8 = 0" for y
  proof -
    have "take_bit 3 (ucast (push_bit 3 y :: u64) :: u32) = 0"
      by (rule bit_word_eqI) (auto simp: bit_take_bit_iff bit_ucast_iff bit_push_bit_iff)
    then show ?thesis by (simp add: take_bit_eq_mod)
  qed
  then show "(ucast (push_bit 3 x) :: u32) mod 8 = 0" .
  have "push_bit 3 x - 8 = push_bit 3 (x - 1)" by (simp add: push_bit_eq_mult left_diff_distrib)
  with * [of "x - 1"] show "(ucast (push_bit 3 x - 8) :: u32) mod 8 = 0" by simp
qed

text \<open>A state in which entry \<open>i\<close> is \<open>I\<close> and \<open>k\<close> allocations have been made; none of them fails.\<close>

definition put :: "nat \<Rightarrow> fpga_info \<Rightarrow> nat \<Rightarrow> 'z fpga_vec_scheme \<Rightarrow> 'z fpga_vec_scheme" where
  "put i I k s = s\<lparr>iv_vec := (iv_vec s)[i := I], iv_allocs := k\<rparr>"

abbreviation (input) always :: allocator where "always \<equiv> \<lambda>_ _. True"

lemma put_self: "i < length (iv_vec s) \<Longrightarrow> put i (iv_vec s ! i) (iv_allocs s) s = s"
  by (simp add: put_def)

lemma put_ops:
  assumes "i < length (iv_vec s)"
  shows "set_info i f (put i I k s) = Inr (put i (f I) k s)"
    and "info_at i (put i I k s) = Inr I"
    and "allocate always n (put i I k s) = Inr (put i I (k + 1) s)"
  using assms by (simp_all add: set_info_def info_at_def allocate_def put_def)

lemma put_set_param:
  assumes "i < length (iv_vec s)" "fi_parameters I = ds @ [q]"
  shows "set_param i (length ds) f (put i I k s) = Inr (put i (I\<lparr>fi_parameters := ds @ [f q]\<rparr>) k s)"
  using assms by (simp add: set_param_def put_ops)

text \<open>One round of the loop, from the entry in its new size.\<close>

lemma param_round:
  assumes "i < length (iv_vec s)" "fi_parameters I = ds @ [q]" "b = length ds"
    and "n = (if is_last_param_block (param_header mem p) then ucast (get_next_param_byte_offset (param_header mem p))
              else ucast (get_next_param_byte_offset (param_header mem p) - PARAM_HEADER_SIZE))"
  shows "andThen (set_param i b (\<lambda>q. q\<lparr>fp_version := get_param_block_version (param_header mem p),
                                   fp_param_id := get_param_block_param_id (param_header mem p)\<rparr>) (put i I k s)) (\<lambda>s2.
         andThen (param_data_allocate always i b n s2) (\<lambda>s3. andThen (param_data_copy mem i b (p + 8) s3) K)) =
         K (put i (I\<lparr>fi_parameters := ds @ [param_of mem p]\<rparr>) (k + 1) s)"
proof -
  have "n mod 8 = 0" using assms(4) mod8 by (simp add: get_next_param_byte_offset_def)
  moreover have "param_of mem p = \<lparr>fp_version = get_param_block_version (param_header mem p),
      fp_param_id = get_param_block_param_id (param_header mem p), fp_data_size = n,
      fp_data = map (\<lambda>i. common_dfl_read_64 mem (p + 8 + 8 * of_nat i) 0) [0..<unat n div 8]\<rparr>"
    using assms(4) by (simp add: param_of_def Let_def)
  ultimately show ?thesis
    using assms(1-3) by (cases q) (simp add: param_data_allocate_def param_data_copy_def put_ops put_set_param)
qed

lemma param_resize:
  assumes "i < length (iv_vec s)" "fi_parameters I = ds @ [q]" "b = length ds"
  shows "param_block_resize always i (b + 2) (put i I k s) =
         Inr (put i (I\<lparr>fi_parameters := (ds @ [q]) @ [zero_param]\<rparr>) (k + 1) s)"
  using assms by (simp add: param_block_resize_def put_ops numeral_2_eq_2 Let_def)

lemma param_loop_fills:
  assumes "blocks_at mem p bs" "length bs < fuel" "i < length (iv_vec s)"
    and "fi_parameters I = (if b = 0 then [] else ds @ [zero_param])" "b = length ds"
  shows "\<exists>k'. param_loop fuel mem always i b p (put i I k s) =
           Inr (put i (if bs = [] then I else I\<lparr>fi_parameters := ds @ params_of mem bs\<rparr>) k' s)"
  using assms
proof (induction bs arbitrary: p fuel I b ds k)
  case Nil
  from Nil.prems(2) obtain f where "fuel = Suc f" by (cases fuel) auto
  with Nil.prems show ?case by (auto simp: param_header_def)
next
  case (Cons c bs)
  let ?h = "param_header mem p" and ?I = "I\<lparr>fi_parameters := ds @ [zero_param]\<rparr>"
  let ?J = "I\<lparr>fi_parameters := ds @ [param_of mem p]\<rparr>"
  from Cons.prems(2) obtain f where f: "fuel = Suc f" by (cases fuel) auto
  have "?I = I" if "b \<noteq> 0" using Cons.prems(4) that by simp
  then have "\<exists>k1. (if b = 0 then param_block_init always i (put i I k s) else Inr (put i I k s)) = Inr (put i ?I k1 s)"
    using Cons.prems(3,5) by (auto simp: param_block_init_def put_ops)
  then obtain k1 where init: "(if b = 0 then param_block_init always i (put i I k s) else Inr (put i I k s)) =
      Inr (put i ?I k1 s)" by blast
  have go: "\<not> is_last_param_block ?h \<or> 0 < get_next_param_byte_offset ?h" and cp: "c = p"
    using Cons.prems(1) by (auto simp: word_neq_0_conv split: if_splits)
  note round = param_round [OF Cons.prems(3) _ Cons.prems(5) refl, of ?I]
  have step: "param_loop fuel mem always i b p (put i I k s) =
      (if \<not> is_last_param_block ?h then
         andThen (param_block_resize always i (b + 2) (put i ?J (k1 + 1) s))
           (param_loop f mem always i (b + 1) (p + ucast (get_next_param_byte_offset ?h)))
       else Inr (put i ?J (k1 + 1) s))"
    using go init by (simp add: f param_header_def [symmetric] Let_def round)
  show ?case
  proof (cases "is_last_param_block ?h")
    case True
    with Cons.prems(1) have "bs = []" by simp
    with step True cp show ?thesis by (auto simp: params_of_def)
  next
    case False
    let ?I' = "?J\<lparr>fi_parameters := (ds @ [param_of mem p]) @ [zero_param]\<rparr>"
    have r: "param_block_resize always i (b + 2) (put i ?J (k1 + 1) s) = Inr (put i ?I' (k1 + 2) s)"
      using param_resize [OF Cons.prems(3) _ Cons.prems(5), of ?J "param_of mem p" "k1 + 1"] by simp
    have bs: "blocks_at mem (p + ucast (get_next_param_byte_offset ?h)) bs" using Cons.prems(1) False by simp
    have "length bs < f" using Cons.prems(2) f by simp
    from Cons.IH [OF bs this Cons.prems(3), of ?I' "b + 1" "ds @ [param_of mem p]" "k1 + 2"] Cons.prems(5) obtain k'
      where k': "param_loop f mem always i (b + 1) (p + ucast (get_next_param_byte_offset ?h)) (put i ?I' (k1 + 2) s) =
        Inr (put i (if bs = [] then ?I'
                    else ?I'\<lparr>fi_parameters := (ds @ [param_of mem p]) @ params_of mem bs\<rparr>) k' s)" by auto
    have "(if bs = [] then ?I' else ?I'\<lparr>fi_parameters := (ds @ [param_of mem p]) @ params_of mem bs\<rparr>) =
        I\<lparr>fi_parameters := ds @ params_of mem (c # bs)\<rparr>"
      using False cp by (simp add: params_of_def)
    with step False r k' show ?thesis by auto
  qed
qed

lemma interface_fills:
  assumes "if has_params (get_x_feature_csr_group_size_64_data mem a)
           then blocks_at mem (get_first_param_header_addr a) bs else bs = []"
    and "length bs < fuel" "i < length (iv_vec s)" "iv_vec s ! i = zero_info" "dfh_parent_stack_peek s = Inr par"
  shows "\<exists>k. set_interface_properties fuel mem always i a s = Inr (put i (info_of mem ((a, bs), par)) k s)"
proof -
  let ?I = "(info_of mem ((a, bs), par))\<lparr>fi_parameters := []\<rparr>"
  let ?s = "put i ?I (iv_allocs s) s"
  have i: "set_info i (\<lambda>i. i\<lparr>fi_base_address := get_base_address mem a,
                fi_guid_h := get_x_feature_guid_h_64 mem a, fi_guid_l := get_x_feature_guid_l_64 mem a,
                fi_instance_id := get_instance_id mem a, fi_group_id := get_group_id mem a,
                fi_dfh_parent := par, fi_mmio_opened := False, fi_interrupt_opened := False\<rparr>) s = Inr ?s"
    using assms(3,4) by (simp add: set_info_def put_def info_of_def zero_info_def)
  show ?thesis
  proof (cases "has_params (get_x_feature_csr_group_size_64_data mem a)")
    case True
    with assms(1) have b: "blocks_at mem (get_first_param_header_addr a) bs" by simp
    have "\<exists>k. param_loop fuel mem always i 0 (get_first_param_header_addr a) ?s =
        Inr (put i (if bs = [] then ?I else ?I\<lparr>fi_parameters := [] @ params_of mem bs\<rparr>) k s)"
      by (rule param_loop_fills [OF b assms(2,3)]) simp_all
    then obtain k where "param_loop fuel mem always i 0 (get_first_param_header_addr a) ?s =
        Inr (put i (if bs = [] then ?I else ?I\<lparr>fi_parameters := [] @ params_of mem bs\<rparr>) k s)" by blast
    moreover have "(if bs = [] then ?I else ?I\<lparr>fi_parameters := [] @ params_of mem bs\<rparr>) = info_of mem ((a, bs), par)"
      by (auto simp: info_of_def params_of_def)
    ultimately show ?thesis
      by (auto simp: set_interface_properties_def assms(5) i set_parameter_properties_def True)
  next
    case False
    then have "?I = info_of mem ((a, bs), par)" using assms(1) by (auto simp: info_of_def params_of_def)
    with False show ?thesis
      by (auto simp: set_interface_properties_def assms(5) i set_parameter_properties_def)
  qed
qed

section \<open>The walk\<close>

text \<open>
  \<open>walked\<close>: the entries \<open>V\<close> were counted, or stored from the current index on; the parent stack up to \<open>t\<close>
  is as before.
\<close>

abbreviation next_index :: "dfl_state \<Rightarrow> nat" where "next_index s \<equiv> nat (s_interface_index s + 1)"

definition walked :: "dfl_mem \<Rightarrow> bool \<Rightarrow> dfl_entry list \<Rightarrow> int \<Rightarrow> dfl_state \<Rightarrow> dfl_state \<Rightarrow> bool" where
  "walked mem c V t s s' \<longleftrightarrow>
     length (ds_head s') = 8 \<and> (\<forall>i. int i \<le> t \<longrightarrow> ds_head s' ! i = ds_head s ! i) \<and> iv_size s' = iv_size s \<and>
     length (iv_vec s') = length (iv_vec s) \<and> -1 \<le> s_interface_index s \<and>
     (if c then
        s_scanned_interface_count s' = s_scanned_interface_count s \<and>
        s_interface_index s' = s_interface_index s + int (length V) \<and>
        (\<forall>i < length (iv_vec s). iv_vec s' ! i =
           (if next_index s \<le> i \<and> i < next_index s + length V then info_of mem (V ! (i - next_index s))
            else iv_vec s ! i))
      else
        s_scanned_interface_count s' = s_scanned_interface_count s + length V \<and>
        s_interface_index s' = s_interface_index s \<and> iv_vec s' = iv_vec s)"

lemma walked_trans:
  assumes "walked mem c V t s s1" "walked mem c W t s1 s2"
  shows "walked mem c (V @ W) t s s2"
proof (cases c)
  case True
  have n: "next_index s1 = next_index s + length V"
    using assms True by (auto simp: walked_def nat_add_distrib)
  show ?thesis using assms True n by (auto simp: walked_def nth_append)
next
  case False
  with assms show ?thesis by (auto simp: walked_def)
qed

definition room :: "bool \<Rightarrow> nat \<Rightarrow> dfl_state \<Rightarrow> bool" where
  "room c n s \<longleftrightarrow> -1 \<le> s_interface_index s \<and>
     (c \<longrightarrow> next_index s + n \<le> length (iv_vec s) \<and>
       (\<forall>i. next_index s \<le> i \<and> i < length (iv_vec s) \<longrightarrow> iv_vec s ! i = zero_info))"

lemma room_walked:
  assumes "room c n s" "walked mem c V t s s'" "length V + m \<le> n"
  shows "room c m s'"
proof (cases c)
  case True
  have "next_index s' = next_index s + length V"
    using assms True by (auto simp: walked_def nat_add_distrib)
  then show ?thesis using assms True by (auto simp: walked_def room_def)
next
  case False
  with assms show ?thesis by (auto simp: walked_def room_def)
qed

definition stk_ok :: "nat \<Rightarrow> dfl_state \<Rightarrow> bool" where
  "stk_ok d s \<longleftrightarrow> length (ds_head s) = 8 \<and> 1 \<le> ds_top s \<and> ds_top s + int d \<le> 7"

lemma stk_push:
  assumes "stk_ok (Suc d) s"
  shows "dfh_parent_stack_push ok v s =
      Inr (s\<lparr>ds_top := ds_top s + 1, ds_head := (ds_head s)[nat (ds_top s + 1) := v]\<rparr>)"
    and "stk_ok d (s\<lparr>ds_top := ds_top s + 1, ds_head := (ds_head s)[nat (ds_top s + 1) := v]\<rparr>)"
  using assms by (auto simp: stk_ok_def dfh_parent_stack_push_def Let_def)

lemma stk_mono: "stk_ok d s \<Longrightarrow> e \<le> d \<Longrightarrow> stk_ok e s"
  by (simp add: stk_ok_def)

text \<open>The number of interfaces does not depend on the parent and the index.\<close>

fun level_count :: "dfl_node list \<Rightarrow> nat"
and kids_count :: "dfl_node list list \<Rightarrow> nat" where
  "level_count [] = 0"
| "level_count (DflNode a bs kids # rest) = 1 + kids_count kids + level_count rest"
| "kids_count [] = 0"
| "kids_count (k # ks) = level_count k + kids_count ks"

lemma length_visit [simp]:
  "length (visit par n L) = level_count L" "length (visit_kids n K) = kids_count K"
  by (induction par n L and n K rule: visit_visit_kids.induct) (simp_all add: Let_def)

text \<open>What the walk of a level does: it stores its interfaces and takes its entry off the stack.\<close>

definition level_walks :: "dfl_mem \<Rightarrow> bool \<Rightarrow> dfl_node list \<Rightarrow> bool" where
  "level_walks mem c L \<longleftrightarrow> (\<forall>a fuel s. level_at mem a L \<longrightarrow> level_size L \<le> fuel \<longrightarrow> stk_ok (level_depth L) s \<longrightarrow>
     room c (level_count L) s \<longrightarrow>
     (\<exists>s'. deal_with_interface fuel mem always c a s = Inr s' \<and> ds_top s' = ds_top s - 1 \<and>
           walked mem c (visit (ds_head s ! nat (ds_top s)) (next_index s) L) (ds_top s) s s'))"

lemma walked_refl: "length (ds_head s) = 8 \<Longrightarrow> -1 \<le> s_interface_index s \<Longrightarrow> walked mem c [] t s s"
  by (auto simp: walked_def)

text \<open>One parameter block of an interface, given what the walk of the levels below it does.\<close>

lemma block_walk:
  assumes "\<And>k. k \<in> set kids \<Longrightarrow> level_walks mem c k" "branches_at mem a (filter (is_branch mem) (p # bs)) kids"
    and "kids_size kids \<le> f" "stk_ok (kids_depth kids) s" "room c (kids_count kids) s"
  shows "\<exists>s1 V1 ks. (if is_branch mem p then
                 andThen (dfh_parent_stack_push always (s_interface_index s) s)
                   (deal_with_interface f mem always c (branch_address mem a p))
               else Inr s) = Inr s1 \<and> ds_top s1 = ds_top s \<and> walked mem c V1 (ds_top s) s s1 \<and>
            branches_at mem a (filter (is_branch mem) bs) ks \<and> set ks \<subseteq> set kids \<and>
            kids_size ks \<le> kids_size kids \<and> kids_depth ks \<le> kids_depth kids \<and>
            length V1 + kids_count ks = kids_count kids \<and>
            (c \<longrightarrow> visit_kids (next_index s) kids = V1 @ visit_kids (next_index s1) ks)"
proof (cases "is_branch mem p")
  case False
  have "walked mem c [] (ds_top s) s s"
    using assms(4,5) by (intro walked_refl) (auto simp: stk_ok_def room_def)
  with False assms(2) show ?thesis
    by (intro exI [of _ s] exI [of _ "[]"] exI [of _ kids]) auto
next
  case True
  with assms(2) obtain k ks where kids: "kids = k # ks"
    and k: "level_at mem (branch_address mem a p) k" "branches_at mem a (filter (is_branch mem) bs) ks"
    by (cases kids) auto
  let ?s = "s\<lparr>ds_top := ds_top s + 1, ds_head := (ds_head s)[nat (ds_top s + 1) := s_interface_index s]\<rparr>"
  have stk: "stk_ok (Suc (level_depth k)) s" using stk_mono [OF assms(4)] by (simp add: kids)
  note push = stk_push(1) [OF stk, where ok = always and v = "s_interface_index s"]
    stk_push(2) [OF stk, where v = "s_interface_index s"]
  have hd: "ds_head ?s ! nat (ds_top ?s) = s_interface_index s" using stk by (auto simp: stk_ok_def nth_list_update)
  have r: "room c (level_count k) ?s" using assms(5) by (auto simp: room_def kids)
  have "level_size k \<le> f" using assms(3) by (simp add: kids)
  with assms(1) [of k] k(1) push(2) r obtain s1
    where s1: "deal_with_interface f mem always c (branch_address mem a p) ?s = Inr s1" "ds_top s1 = ds_top ?s - 1"
      "walked mem c (visit (ds_head ?s ! nat (ds_top ?s)) (next_index ?s) k) (ds_top ?s) ?s s1"
    unfolding level_walks_def kids by (metis list.set_intros(1))
  let ?V = "visit (s_interface_index s) (next_index s) k"
  have w: "walked mem c ?V (ds_top s) s s1"
    using s1(3) hd stk by (auto simp: walked_def stk_ok_def)
  have n: "c \<Longrightarrow> next_index s1 = next_index s + level_count k"
    using w by (auto simp: walked_def nat_add_distrib)
  have i: "int (next_index s) - 1 = s_interface_index s" using assms(5) by (simp add: room_def)
  show ?thesis using True push s1 w k(2) n i
    by (intro exI [of _ s1] exI [of _ ?V] exI [of _ ks]) (auto simp: kids Let_def)
qed

text \<open>All of them.\<close>

lemma params_walk:
  assumes "\<And>k. k \<in> set kids \<Longrightarrow> level_walks mem c k"
    and "blocks_at mem p bs" "branches_at mem a (filter (is_branch mem) bs) kids"
    and "length bs + kids_size kids < fuel" "stk_ok (kids_depth kids) s" "room c (kids_count kids) s"
  shows "\<exists>s'. process_params fuel mem always c a p s = Inr s' \<and> ds_top s' = ds_top s \<and>
              (\<exists>V. length V = kids_count kids \<and> (c \<longrightarrow> V = visit_kids (next_index s) kids) \<and>
                   walked mem c V (ds_top s) s s')"
  using assms
proof (induction bs arbitrary: p kids fuel s)
  case Nil
  from Nil.prems(4) obtain f where "fuel = Suc f" by (cases fuel) auto
  moreover have "kids = []" using Nil.prems(3) by simp
  ultimately show ?case using Nil.prems
    by (auto simp: param_header_def stk_ok_def room_def intro: walked_refl)
next
  case (Cons b bs)
  let ?h = "param_header mem p"
  from Cons.prems(4) obtain f where f: "fuel = Suc f" by (cases fuel) auto
  have go: "\<not> is_last_param_block ?h \<or> 0 < get_next_param_byte_offset ?h" and bp: "b = p"
    and rest: "if is_last_param_block ?h then bs = []
               else blocks_at mem (p + ucast (get_next_param_byte_offset ?h)) bs"
    using Cons.prems(2) by (auto simp: word_neq_0_conv split: if_splits)
  have step: "process_params fuel mem always c a p s =
      andThen (if is_branch mem p then
                 andThen (dfh_parent_stack_push always (s_interface_index s) s)
                   (deal_with_interface f mem always c (branch_address mem a p))
               else Inr s) (\<lambda>s1.
        if \<not> is_last_param_block ?h
        then process_params f mem always c a (p + ucast (get_next_param_byte_offset ?h)) s1 else Inr s1)"
    using go by (simp add: f param_header_def [symmetric] is_branch_def Let_def)
  have "kids_size kids \<le> f" using Cons.prems(4) by (simp add: f)
  from block_walk [OF Cons.prems(1,3) [unfolded bp] this Cons.prems(5,6)]
  obtain s1 V1 ks where s1: "(if is_branch mem p then
                 andThen (dfh_parent_stack_push always (s_interface_index s) s)
                   (deal_with_interface f mem always c (branch_address mem a p))
               else Inr s) = Inr s1" "ds_top s1 = ds_top s" "walked mem c V1 (ds_top s) s s1"
    and ks: "branches_at mem a (filter (is_branch mem) bs) ks" "set ks \<subseteq> set kids"
            "kids_size ks \<le> kids_size kids" "kids_depth ks \<le> kids_depth kids"
            "length V1 + kids_count ks = kids_count kids"
            "c \<longrightarrow> visit_kids (next_index s) kids = V1 @ visit_kids (next_index s1) ks" by blast
  show ?case
  proof (cases "is_last_param_block ?h")
    case True
    with rest have "bs = []" by simp
    with ks(1) have "ks = []" by simp
    with True step s1 ks show ?thesis by (intro exI [of _ s1]) auto
  next
    case False
    have st: "stk_ok (kids_depth ks) s1"
      using s1(2,3) ks(4) Cons.prems(5) by (auto simp: stk_ok_def walked_def)
    have rm: "room c (kids_count ks) s1" using room_walked [OF Cons.prems(6) s1(3)] ks(5) by simp
    have sz: "length bs + kids_size ks < f" using Cons.prems(4) ks(3) f by simp
    have bl: "blocks_at mem (p + ucast (get_next_param_byte_offset ?h)) bs" using rest False by simp
    have "\<And>k. k \<in> set ks \<Longrightarrow> level_walks mem c k" using ks(2) Cons.prems(1) by blast
    from Cons.IH [OF this bl ks(1) sz st rm] obtain s2 V where
      s2: "process_params f mem always c a (p + ucast (get_next_param_byte_offset ?h)) s1 = Inr s2"
        "ds_top s2 = ds_top s1" "length V = kids_count ks" "c \<longrightarrow> V = visit_kids (next_index s1) ks"
        "walked mem c V (ds_top s1) s1 s2" by blast
    have "walked mem c (V1 @ V) (ds_top s) s s2" using walked_trans [OF s1(3)] s2(5) s1(2) by simp
    with False step s1 s2 ks(5,6) show ?thesis
      by (intro exI [of _ s2]) (auto intro!: exI [of _ "V1 @ V"])
  qed
qed

text \<open>Counting an interface, or storing it.\<close>

lemma interface_walk:
  assumes "if has_params (get_x_feature_csr_group_size_64_data mem a)
           then blocks_at mem (get_first_param_header_addr a) bs else bs = []"
    and "length bs < f" "stk_ok d s" "room c (Suc n) s" "par = ds_head s ! nat (ds_top s)"
  shows "\<exists>s2. (if \<not> c then Inr (s\<lparr>s_scanned_interface_count := s_scanned_interface_count s + 1\<rparr>)
               else let s1 = s\<lparr>s_interface_index := s_interface_index s + 1\<rparr>
                    in set_interface_properties f mem always (nat (s_interface_index s1)) a s1) = Inr s2 \<and>
              ds_top s2 = ds_top s \<and> walked mem c [((a, bs), par)] (ds_top s) s s2"
proof (cases c)
  case False
  with assms show ?thesis by (auto simp: walked_def stk_ok_def room_def)
next
  case True
  let ?s = "s\<lparr>s_interface_index := s_interface_index s + 1\<rparr>"
  have i: "next_index s < length (iv_vec ?s)" "iv_vec ?s ! next_index s = zero_info"
    using assms(4) True by (auto simp: room_def)
  have "dfh_parent_stack_peek ?s = Inr par" using assms(3,5) by (simp add: dfh_parent_stack_peek_def stk_ok_def)
  from interface_fills [OF assms(1,2) i this] obtain k
    where "set_interface_properties f mem always (next_index s) a ?s = Inr (put (next_index s) (info_of mem ((a, bs), par)) k ?s)"
    by blast
  moreover have "walked mem c [((a, bs), par)] (ds_top s) s (put (next_index s) (info_of mem ((a, bs), par)) k ?s)"
    using assms(3,4) True i by (auto simp: walked_def put_def stk_ok_def room_def nth_list_update)
  ultimately show ?thesis using True by (simp add: put_def)
qed

text \<open>The parameters and the branches below an interface.\<close>

lemma params_of_interface_walk:
  assumes "\<And>k. k \<in> set kids \<Longrightarrow> level_walks mem c k"
    and "if has_params (get_x_feature_csr_group_size_64_data mem a)
         then blocks_at mem (get_first_param_header_addr a) bs else bs = []"
    and "branches_at mem a (filter (is_branch mem) bs) kids"
    and "length bs + kids_size kids < f" "stk_ok (kids_depth kids) s2" "room c (kids_count kids) s2"
  shows "\<exists>s3 V. (if has_params (get_x_feature_csr_group_size_64_data mem a)
              then process_params f mem always c a (get_first_param_header_addr a) s2 else Inr s2) = Inr s3 \<and>
            ds_top s3 = ds_top s2 \<and> length V = kids_count kids \<and> (c \<longrightarrow> V = visit_kids (next_index s2) kids) \<and>
            walked mem c V (ds_top s2) s2 s3"
proof (cases "has_params (get_x_feature_csr_group_size_64_data mem a)")
  case True
  with assms(2) have b: "blocks_at mem (get_first_param_header_addr a) bs" by simp
  from params_walk [OF assms(1) b assms(3-6)] True show ?thesis by auto
next
  case False
  with assms(2,3) have "kids = []" by simp
  moreover have "walked mem c [] (ds_top s2) s2 s2"
    using assms(5,6) by (intro walked_refl) (auto simp: stk_ok_def room_def)
  ultimately show ?thesis using False by (intro exI [of _ s2] exI [of _ "[]"]) simp
qed

lemma kids_size_mem: "k \<in> set kids \<Longrightarrow> level_size k \<le> kids_size kids"
  by (induction kids) auto

lemma level_walk: "level_walks mem c L"
proof (induction "level_size L" arbitrary: L rule: less_induct)
  case less
  show ?case
    unfolding level_walks_def
  proof (intro allI impI)
    fix a fuel s
    assume l: "level_at mem a L" and fu: "level_size L \<le> fuel" and st: "stk_ok (level_depth L) s"
      and rm: "room c (level_count L) s"
    from l obtain bs kids rest where L: "L = DflNode a bs kids # rest"
      by (cases "(mem, a, L)" rule: level_at.cases) auto
    from l have bl: "if has_params (get_x_feature_csr_group_size_64_data mem a)
           then blocks_at mem (get_first_param_header_addr a) bs else bs = []"
      and br: "branches_at mem a (filter (is_branch mem) bs) kids"
      and rest: "if is_eol (get_x_feature_dfh_start_64_data mem a) then rest = []
                 else level_at mem (get_next_dfh_addr (get_x_feature_dfh_start_64_data mem a) a) rest"
      by (auto simp: L Let_def)
    from fu obtain f where f: "fuel = Suc f" by (cases fuel) (auto simp: L)
    let ?par = "ds_head s ! nat (ds_top s)"
    have len: "length bs < f" and szk: "length bs + kids_size kids < f" using fu by (auto simp: L f)
    have "room c (Suc (kids_count kids + level_count rest)) s" using rm by (simp add: L)
    from interface_walk [OF bl len st this refl] obtain s2
      where s2: "(if \<not> c then Inr (s\<lparr>s_scanned_interface_count := s_scanned_interface_count s + 1\<rparr>)
               else let s1 = s\<lparr>s_interface_index := s_interface_index s + 1\<rparr>
                    in set_interface_properties f mem always (nat (s_interface_index s1)) a s1) = Inr s2"
        "ds_top s2 = ds_top s" "walked mem c [((a, bs), ?par)] (ds_top s) s s2" by blast
    have st2: "stk_ok (kids_depth kids) s2" "stk_ok (level_depth rest) s2"
      using s2(2,3) st by (auto simp: stk_ok_def walked_def L)
    have rm2: "room c (kids_count kids + level_count rest) s2" using room_walked [OF rm s2(3)] by (simp add: L)
    have n2: "c \<Longrightarrow> next_index s2 = next_index s + 1"
      using s2(3) by (auto simp: walked_def nat_add_distrib)
    have "\<And>k. k \<in> set kids \<Longrightarrow> level_walks mem c k"
    proof -
      fix k assume "k \<in> set kids"
      then have "level_size k < level_size L" using kids_size_mem [of k kids] by (simp add: L)
      then show "level_walks mem c k" by (rule less)
    qed
    note kids = this
    have "room c (kids_count kids) s2" using rm2 by (auto simp: room_def)
    from params_of_interface_walk [OF kids bl br szk st2(1) this]
    obtain s3 V where s3: "(if has_params (get_x_feature_csr_group_size_64_data mem a)
              then process_params f mem always c a (get_first_param_header_addr a) s2 else Inr s2) = Inr s3"
        "ds_top s3 = ds_top s2" "length V = kids_count kids" "c \<longrightarrow> V = visit_kids (next_index s2) kids"
        "walked mem c V (ds_top s2) s2 s3" by blast
    let ?d = "get_x_feature_dfh_start_64_data mem a"
    have step: "deal_with_interface fuel mem always c a s =
        (if \<not> is_eol ?d then deal_with_interface f mem always c (get_next_dfh_addr ?d a) s3
         else dfh_parent_stack_pop s3)"
      using s2(1) s3(1) by (simp add: f Let_def)
    have w3: "walked mem c (((a, bs), ?par) # V) (ds_top s) s s3"
      using walked_trans [OF s2(3)] s3(5) s2(2) by simp
    show "\<exists>s'. deal_with_interface fuel mem always c a s = Inr s' \<and> ds_top s' = ds_top s - 1 \<and>
             walked mem c (visit ?par (next_index s) L) (ds_top s) s s'"
    proof (cases "is_eol ?d")
      case True
      with rest have r: "rest = []" by simp
      let ?s = "s3\<lparr>ds_top := ds_top s3 - 1\<rparr>"
      have p: "dfh_parent_stack_pop s3 = Inr ?s"
        using st s2(2) s3(2) by (simp add: dfh_parent_stack_pop_def dfh_parent_stack_isempty_def stk_ok_def)
      have "walked mem c (visit ?par (next_index s) L) (ds_top s) s ?s"
        using w3 s3(3,4) n2 r by (cases c) (auto simp: walked_def L Let_def)
      with p True step s2(2) s3(2) show ?thesis by simp
    next
      case False
      have "level_size rest < level_size L" by (simp add: L)
      from less [OF this] have lw: "level_walks mem c rest" .
      have a1: "level_at mem (get_next_dfh_addr ?d a) rest" using rest False by simp
      have a2: "level_size rest \<le> f" using fu by (simp add: L f)
      have a3: "stk_ok (level_depth rest) s3" using st2(2) s3(2,5) by (auto simp: stk_ok_def walked_def)
      have a4: "room c (level_count rest) s3" using room_walked [OF rm2 s3(5)] s3(3) by simp
      from lw a1 a2 a3 a4 obtain s4 where
        s4: "deal_with_interface f mem always c (get_next_dfh_addr ?d a) s3 = Inr s4" "ds_top s4 = ds_top s3 - 1"
        "walked mem c (visit (ds_head s3 ! nat (ds_top s3)) (next_index s3) rest) (ds_top s3) s3 s4"
        unfolding level_walks_def by blast
      have hd: "ds_head s3 ! nat (ds_top s3) = ?par"
        using w3 s2(2) s3(2) st by (auto simp: walked_def stk_ok_def)
      have n3: "c \<Longrightarrow> next_index s3 = next_index s + 1 + kids_count kids"
        using w3 s3(3) by (auto simp: walked_def nat_add_distrib)
      have "walked mem c ((((a, bs), ?par) # V) @ visit ?par (next_index s3) rest) (ds_top s) s s4"
        using walked_trans [OF w3] s4(3) hd s2(2) s3(2) by simp
      then have "walked mem c (visit ?par (next_index s) L) (ds_top s) s s4"
        using s3(3,4) n2 n3 by (cases c) (auto simp: walked_def L Let_def)
      with False step s4 s2(2) s3(2) show ?thesis by simp
    qed
  qed
qed

section \<open>Properties\<close>

lemma stack_first_push:
  assumes "ds_head s = []" "ds_top s = 0"
  shows "\<exists>k. dfh_parent_stack_push always v s =
     Inr (s\<lparr>iv_allocs := k, ds_top := 1, ds_head := (replicate 8 0)[1 := v]\<rparr>)"
  using assms
  by (intro exI [of _ "Suc (iv_allocs s)"])
    (simp add: dfh_parent_stack_push_def dfh_parent_stack_resize_def allocate_def)

lemma stack_later_push:
  "length (ds_head s) = 8 \<Longrightarrow> ds_top s = 0 \<Longrightarrow>
   dfh_parent_stack_push ok v s = Inr (s\<lparr>ds_top := 1, ds_head := (ds_head s)[1 := v]\<rparr>)"
  by (simp add: dfh_parent_stack_push_def)

lemma walked_count: "walked mem False V t s s' \<Longrightarrow> s_scanned_interface_count s' = s_scanned_interface_count s + length V"
  by (simp add: walked_def)

text \<open>The two passes, each from a stack that is empty: the entry at index zero is never used.\<close>

lemma scan_pass:
  assumes "level_at mem a L" "level_depth L \<le> 6" "level_size L \<le> fuel"
    and "ds_head s = [] \<or> length (ds_head s) = 8" "ds_top s = 0" "room c (level_count L) s"
  shows "\<exists>s'. andThen (dfh_parent_stack_push always (-1) s) (deal_with_interface fuel mem always c a) = Inr s' \<and>
              ds_top s' = 0 \<and> walked mem c (visit (-1) (next_index s) L) (-1) s s'"
proof -
  have "\<exists>k h. dfh_parent_stack_push always (-1) s = Inr (s\<lparr>iv_allocs := k, ds_top := 1, ds_head := h[1 := -1]\<rparr>) \<and>
      length h = 8 \<and> (ds_head s \<noteq> [] \<longrightarrow> h = ds_head s)"
  proof (cases "ds_head s = []")
    case True
    from stack_first_push [OF this assms(5), of "-1"] obtain k
      where "dfh_parent_stack_push always (-1) s = Inr (s\<lparr>iv_allocs := k, ds_top := 1, ds_head := (replicate 8 0)[1 := -1]\<rparr>)"
      by blast
    with True show ?thesis by (intro exI [of _ k] exI [of _ "replicate 8 0"]) simp
  next
    case False
    with assms(4) stack_later_push [OF _ assms(5), of always "-1"] show ?thesis
      by (intro exI [of _ "iv_allocs s"] exI [of _ "ds_head s"]) simp
  qed
  then obtain k h where p: "dfh_parent_stack_push always (-1) s = Inr (s\<lparr>iv_allocs := k, ds_top := 1, ds_head := h[1 := -1]\<rparr>)"
    and h: "length h = 8" by blast
  let ?s = "s\<lparr>iv_allocs := k, ds_top := 1, ds_head := h[1 := -1]\<rparr>"
  have "stk_ok (level_depth L) ?s" using assms(2) h by (simp add: stk_ok_def)
  moreover have "room c (level_count L) ?s" using assms(6) by (simp add: room_def)
  ultimately obtain s' where s': "deal_with_interface fuel mem always c a ?s = Inr s'" "ds_top s' = ds_top ?s - 1"
    "walked mem c (visit (ds_head ?s ! nat (ds_top ?s)) (next_index ?s) L) (ds_top ?s) ?s s'"
    using level_walk [of mem c L] assms(1,3) unfolding level_walks_def by blast
  have "visit (ds_head ?s ! nat (ds_top ?s)) (next_index ?s) L = visit (-1) (next_index s) L" using h by simp
  moreover have "walked mem c V (-1) s s'" if "walked mem c V 1 ?s s'" for V
    using that by (simp add: walked_def)
  ultimately show ?thesis using p s' by simp
qed

lemma vec_resize_returns:
  fixes s :: dfl_state
  shows "\<exists>s'. vec_resize always n s = Inr s' \<and> ds_head s' = ds_head s \<and> ds_top s' = ds_top s \<and>
     s_scanned_interface_count s' = s_scanned_interface_count s \<and> s_interface_index s' = s_interface_index s"
  by (auto simp: vec_resize_def vec_reserve_def allocate_def Let_def)

text \<open>A table that has been emptied and given a new size has zero entries only.\<close>

lemma vec_resize_fresh:
  assumes "vec_resize ok n s = Inr s'" "vec_ok s" "iv_size s = 0" "i < length (iv_vec s')"
  shows "iv_vec s' ! i = zero_info"
proof (cases "i < n")
  case True
  have "take n (iv_vec s') = replicate n zero_info" using vec_resize_ok(3) [OF assms(1,2)] assms(3) by simp
  then have "take n (iv_vec s') ! i = zero_info" using True by simp
  with True show ?thesis by simp
next
  case False
  with vec_resize_ok [OF assms(1,2)] assms(4) show ?thesis by (simp add: vec_ok_def)
qed

text \<open>Resizing the table to the size it has, as the second pass does, changes nothing.\<close>

lemma vec_resize_same: "vec_ok s \<Longrightarrow> 0 < iv_size s \<Longrightarrow> vec_resize ok (iv_size s) s = Inr s"
  by (auto simp: vec_resize_def vec_reserve_def vec_ok_def Let_def)

lemma push_frame:
  "dfh_parent_stack_push ok v s = Inr s' \<Longrightarrow> iv_vec s' = iv_vec s \<and> iv_size s' = iv_size s"
  by (auto simp: dfh_parent_stack_push_def dfh_parent_stack_resize_def allocate_def fpga_throw_def andThen_Inr_iff
      Let_def split: if_splits)

lemma collect_eq:
  assumes "vec_ok s" "0 < iv_size s"
  shows "dfl_collect_interfaces_info fuel mem ok a s =
         andThen (dfh_parent_stack_push ok (-1) s) (deal_with_interface fuel mem ok True a)"
proof (cases "dfh_parent_stack_push ok (-1) s")
  case (Inr s1)
  with push_frame [OF this] assms have "vec_ok s1" "0 < iv_size s1" by (simp_all add: vec_ok_def)
  with vec_resize_same [of s1 ok] Inr show ?thesis by (simp add: dfl_collect_interfaces_info_def)
qed (simp add: dfl_collect_interfaces_info_def)

lemma scan_collects_list:
  assumes "level_at mem a L" and "level_depth L \<le> 6" and "level_size L \<le> fuel"
    and "vec_ok s" and "ds_head s = []" and "ds_top s = 0" and "-1 \<le> s_interface_index s"
  shows "\<exists>s'. common_dfl_scan_multi_interfaces fuel mem (\<lambda>_ _. True) a s = Inr s' \<and>
              iv_size s' = level_count L \<and>
              take (iv_size s') (iv_vec s') = map (info_of mem) (visit (-1) 0 L) \<and>
              ds_head s' = [] \<and> ds_top s' = 0 \<and> s_interface_index s' = int (level_count L) - 1"
proof -
  let ?n = "level_count L"
  from vec_resize_returns [of 0 "s\<lparr>s_scanned_interface_count := 0\<rparr>"] obtain s1
    where s1: "vec_resize always 0 (s\<lparr>s_scanned_interface_count := 0\<rparr>) = Inr s1" "ds_head s1 = []" "ds_top s1 = 0"
      "s_scanned_interface_count s1 = 0" "s_interface_index s1 = s_interface_index s"
    using assms(5,6) by auto
  have ok1: "vec_ok s1" "iv_size s1 = 0" using vec_resize_ok [OF s1(1)] assms(4) by (auto simp: vec_ok_def)
  have "room False ?n s1" using assms(7) s1(5) by (simp add: room_def)
  from scan_pass [OF assms(1-3) _ s1(3) this] s1(2) obtain s2
    where s2: "scan_the_num_interfaces fuel mem always a s1 = Inr s2" "ds_top s2 = 0"
      and w2: "walked mem False (visit (-1) (next_index s1) L) (-1) s1 s2"
    by (auto simp: scan_the_num_interfaces_def)
  have c2: "s_scanned_interface_count s2 = ?n" using walked_count [OF w2] s1(4) by simp
  have ok2: "vec_ok s2" "iv_size s2 = 0" "length (ds_head s2) = 8" using w2 ok1 by (simp_all add: walked_def vec_ok_def)
  from vec_resize_returns [of ?n s2] obtain s3
    where s3: "vec_resize always ?n s2 = Inr s3" "ds_head s3 = ds_head s2" "ds_top s3 = 0" using s2(2) by auto
  note ok3 = vec_resize_ok [OF s3(1) ok2(1)] vec_resize_fresh [OF s3(1) ok2(1,2)]
  let ?s3 = "s3\<lparr>s_interface_index := -1\<rparr>"
  have n: "0 < ?n" using assms(1) by (cases "(mem, a, L)" rule: level_at.cases) auto
  have i: "next_index ?s3 = 0" by simp
  have len: "?n \<le> length (iv_vec s3)" using ok3(1,2) by (simp add: vec_ok_def)
  have "room True ?n ?s3" using ok3(4) len by (simp add: room_def)
  from scan_pass [OF assms(1-3) _ _ this] s3 ok2(3) obtain s4
    where s4: "andThen (dfh_parent_stack_push always (-1) ?s3) (deal_with_interface fuel mem always True a) = Inr s4"
      "ds_top s4 = 0" "walked mem True (visit (-1) 0 L) (-1) ?s3 s4" by auto
  have "vec_ok ?s3" "0 < iv_size ?s3" using ok3(1,2) n by (simp_all add: vec_ok_def)
  from collect_eq [OF this] s4(1)
  have s5: "dfl_collect_interfaces_info fuel mem always a ?s3 = Inr s4" by simp
  have v4: "iv_size s4 = ?n" "length (iv_vec s4) = length (iv_vec s3)" "s_interface_index s4 = int ?n - 1"
    "length (ds_head s4) = 8"
    using s4(3) ok3(2) by (simp_all add: walked_def)
  have "take ?n (iv_vec s4) = map (info_of mem) (visit (-1) 0 L)"
  proof (rule nth_equalityI)
    show "length (take ?n (iv_vec s4)) = length (map (info_of mem) (visit (-1) 0 L))" using len v4 by simp
    fix j assume "j < length (take ?n (iv_vec s4))"
    then have "j < ?n" "j < length (iv_vec s3)" using v4 by simp_all
    then show "take ?n (iv_vec s4) ! j = map (info_of mem) (visit (-1) 0 L) ! j"
      using s4(3) by (simp add: walked_def)
  qed
  moreover have "dfh_parent_stack_resize always 0 s4 = Inr (s4\<lparr>ds_head := []\<rparr>)"
    using v4 by (simp add: dfh_parent_stack_resize_def)
  ultimately show ?thesis
    using s1 s2 c2 s3 s5 v4 s4(2)
    by (intro exI [of _ "s4\<lparr>ds_head := []\<rparr>"]) (simp add: common_dfl_scan_multi_interfaces_def)
qed

text \<open>
  The interfaces in the same order, each with its real parent: the interface whose branch leads to its
  level.
\<close>

fun tree_visit :: "int \<Rightarrow> nat \<Rightarrow> dfl_node list \<Rightarrow> dfl_entry list"
and tree_kids :: "int \<Rightarrow> nat \<Rightarrow> dfl_node list list \<Rightarrow> dfl_entry list" where
  "tree_visit par n [] = []"
| "tree_visit par n (DflNode a bs kids # rest) =
     (let sub = tree_kids (int n) (n + 1) kids in ((a, bs), par) # sub @ tree_visit par (n + 1 + length sub) rest)"
| "tree_kids own n [] = []"
| "tree_kids own n (k # ks) = (let v = tree_visit own n k in v @ tree_kids own (n + length v) ks)"

fun one_branch :: "dfl_node list \<Rightarrow> bool"
and one_branch_kids :: "dfl_node list list \<Rightarrow> bool" where
  "one_branch [] = True"
| "one_branch (DflNode a bs kids # rest) \<longleftrightarrow> length kids \<le> 1 \<and> one_branch_kids kids \<and> one_branch rest"
| "one_branch_kids [] = True"
| "one_branch_kids (k # ks) \<longleftrightarrow> one_branch k \<and> one_branch_kids ks"

lemma visit_one_branch:
  "one_branch L \<Longrightarrow> visit par n L = tree_visit par n L"
  "one_branch_kids K \<Longrightarrow> length K \<le> 1 \<Longrightarrow> visit_kids (Suc m) K = tree_kids (int m) (Suc m) K"
proof (induction par n L and "int m" "Suc m" K arbitrary: and m rule: tree_visit_tree_kids.induct)
  case (4 k ks)
  then show ?case by (cases ks) (simp_all add: Let_def)
qed (simp_all add: Let_def)

text \<open>The interfaces and their blocks do not depend on who the parents are.\<close>

lemma visit_entries:
  "map fst (visit par n L) = map fst (tree_visit q m L)"
  "map fst (visit_kids n K) = map fst (tree_kids q m K)"
  by (induction par n L and n K arbitrary: q m and q m rule: visit_visit_kids.induct) (simp_all add: Let_def)

text \<open>
  What the entry of an interface has to hold: the identity and the base address, as read from its registers, and one
  parameter for each of its blocks, in order.  When the list of blocks ends in a block that holds data, these are
  all the parameters of the entry.
\<close>

definition ends_in_data :: "dfl_mem \<Rightarrow> u32 list \<Rightarrow> bool" where
  "ends_in_data mem bs \<longleftrightarrow> bs = [] \<or> is_last_param_block (param_header mem (last bs))"

definition recorded :: "dfl_mem \<Rightarrow> fpga_info \<Rightarrow> u32 \<times> u32 list \<Rightarrow> bool" where
  "recorded mem I e \<longleftrightarrow> (case e of (a, bs) \<Rightarrow>
     fi_guid_l I = get_x_feature_guid_l_64 mem a \<and> fi_guid_h I = get_x_feature_guid_h_64 mem a \<and>
     fi_instance_id I = get_instance_id mem a \<and> fi_group_id I = get_group_id mem a \<and>
     fi_base_address I = get_base_address mem a \<and> \<not> fi_mmio_opened I \<and> \<not> fi_interrupt_opened I \<and>
     take (length bs) (fi_parameters I) = map (param_of mem) bs \<and>
     (ends_in_data mem bs \<longrightarrow> fi_parameters I = map (param_of mem) bs))"

lemma info_recorded: "recorded mem (info_of mem e) (fst e)"
  by (cases e) (auto simp: recorded_def info_of_def params_of_def ends_in_data_def)

text \<open>C3: On memory that holds a device feature list with at most seven levels the scan returns: the table
  has one entry for every interface of the list, in the order of a walk that visits the branches of an
  interface before the next one, with the identity and the base address read from memory and a parameter for each of its
  blocks, in order; these are all its parameters when its list ends in a block that holds data.  The parent
  stack is freed and at its initial state.  (After a list that ends in a block without data the entry has a further
  parameter, all zero, see \<open>scan_null_block\<close>; which parent an entry gets is the subject of \<open>scan_parents\<close> and
  \<open>scan_wrong_parent\<close>.)\<close>

theorem scan_collects:
  assumes "level_at mem a L" and "level_depth L \<le> 6" and "level_size L \<le> fuel"
    and "vec_ok s" and "ds_head s = []" and "ds_top s = 0" and "-1 \<le> s_interface_index s"
  shows "\<exists>s'. common_dfl_scan_multi_interfaces fuel mem (\<lambda>_ _. True) a s = Inr s' \<and>
              iv_size s' = level_count L \<and>
              list_all2 (recorded mem) (take (iv_size s') (iv_vec s')) (map fst (tree_visit (-1) 0 L)) \<and>
              ds_head s' = [] \<and> ds_top s' = 0 \<and> s_interface_index s' = int (level_count L) - 1"
proof -
  have "list_all2 (recorded mem) (map (info_of mem) (visit (-1) 0 L)) (map fst (tree_visit (-1) 0 L))"
    unfolding visit_entries(1) [of "-1" 0 L "-1" 0, symmetric] list.rel_map
    by (rule list.rel_refl) (rule info_recorded)
  with scan_collects_list [OF assms] show ?thesis by fastforce
qed

text \<open>The code as it is: a list of one block and a block without data is recorded as two parameters.\<close>

lemma scan_null_block:
  assumes "level_at mem a [DflNode a [b] []]" and "\<not> is_last_param_block (param_header mem b)" and "3 \<le> fuel"
  shows "\<exists>s'. common_dfl_scan_multi_interfaces fuel mem (\<lambda>_ _. True) a dfl_init = Inr s' \<and>
              map fi_parameters (take (iv_size s') (iv_vec s')) = [[param_of mem b, zero_param]]"
proof -
  have "vec_ok dfl_init" "ds_head dfl_init = []" "ds_top dfl_init = 0" "-1 \<le> s_interface_index dfl_init"
    by (simp_all add: dfl_init_def vec_ok_def)
  from scan_collects_list [OF assms(1) _ _ this, of fuel] assms(2,3) show ?thesis
    by (auto simp: info_of_def params_of_def)
qed

text \<open>C4: On a list with at most seven levels in which no interface has more than one branch, the scan records for
  every interface the index of the interface whose branch leads to it, and -1 at the top level.\<close>

theorem scan_parents:
  assumes "level_at mem a L" and "level_depth L \<le> 6" and "level_size L \<le> fuel" and "one_branch L"
  shows "\<exists>s'. common_dfl_scan_multi_interfaces fuel mem (\<lambda>_ _. True) a dfl_init = Inr s' \<and>
              map fi_dfh_parent (take (iv_size s') (iv_vec s')) = map snd (tree_visit (-1) 0 L)"
proof -
  have "vec_ok dfl_init" "ds_head dfl_init = []" "ds_top dfl_init = 0" "-1 \<le> s_interface_index dfl_init"
    by (simp_all add: dfl_init_def vec_ok_def)
  from scan_collects_list [OF assms(1-3) this] visit_one_branch(1) [OF assms(4)] show ?thesis
    by (auto simp: info_of_def case_prod_unfold)
qed

text \<open>An interface with two branches, each to one interface: the scan records the first of these as
  the parent of the second, although the branch that leads to the second belongs to the root.\<close>

lemma scan_wrong_parent:
  assumes "level_at mem a [DflNode a bs [[DflNode b cs []], [DflNode c ds []]]]"
    and "7 + length bs + length cs + length ds \<le> fuel"
  shows "\<exists>s'. common_dfl_scan_multi_interfaces fuel mem (\<lambda>_ _. True) a dfl_init = Inr s' \<and>
              map fi_dfh_parent (take (iv_size s') (iv_vec s')) = [-1, 0, 1] \<and>
              map snd (tree_visit (-1) 0 [DflNode a bs [[DflNode b cs []], [DflNode c ds []]]]) = [-1, 0, 0]"
proof -
  let ?L = "[DflNode a bs [[DflNode b cs []], [DflNode c ds []]]]"
  have "vec_ok dfl_init" "ds_head dfl_init = []" "ds_top dfl_init = 0" "-1 \<le> s_interface_index dfl_init"
    by (simp_all add: dfl_init_def vec_ok_def)
  moreover have "level_depth ?L \<le> 6" by simp
  moreover have "level_size ?L \<le> fuel" using assms(2) by simp
  moreover have "map snd (visit (-1) 0 ?L) = [-1, 0, 1]" by (simp add: Let_def)
  ultimately show ?thesis using scan_collects_list [OF assms(1), of fuel dfl_init]
    by (auto simp: info_of_def case_prod_unfold Let_def)
qed

text \<open>With the eight entries it starts with, the stack takes pushes up to index seven and none more.\<close>

abbreviation (input) pushed :: "int list \<Rightarrow> stuck + dfl_state \<Rightarrow> stuck + dfl_state" where
  "pushed \<equiv> fold (\<lambda>v r. andThen r (dfh_parent_stack_push (\<lambda>_ _. True) v))"

lemma pushed_Inl: "pushed vs (Inl e) = Inl e"
  by (induction vs) simp_all

lemma pushed_from:
  "length (ds_head s) = 8 \<Longrightarrow> 1 \<le> ds_top s \<Longrightarrow> ds_top s \<le> 7 \<Longrightarrow>
   pushed vs (Inr s) = Inl OutOfBounds \<longleftrightarrow> 7 < ds_top s + int (length vs)"
proof (induction vs arbitrary: s)
  case (Cons v vs)
  show ?case
  proof (cases "ds_top s = 7")
    case True
    with Cons.prems have "dfh_parent_stack_push always v s = Inl OutOfBounds"
      by (simp add: dfh_parent_stack_push_def)
    with True pushed_Inl show ?thesis by simp
  next
    case False
    let ?s = "s\<lparr>ds_top := ds_top s + 1, ds_head := (ds_head s)[nat (ds_top s + 1) := v]\<rparr>"
    from False Cons.prems have "dfh_parent_stack_push always v s = Inr ?s"
      by (simp add: dfh_parent_stack_push_def Let_def)
    with Cons.IH [of ?s] Cons.prems False show ?thesis by simp
  qed
qed simp

text \<open>C34: From its initial state the parent stack takes seven entries; the eighth is written past the end
  of the array.\<close>

theorem parent_stack_overflow:
  "fold (\<lambda>v r. andThen r (dfh_parent_stack_push (\<lambda>_ _. True) v)) vs (Inr dfl_init) = Inl OutOfBounds \<longleftrightarrow>
   8 \<le> length vs"
proof (cases vs)
  case (Cons v ws)
  from stack_first_push [of dfl_init v] obtain k where k: "dfh_parent_stack_push always v dfl_init =
      Inr (dfl_init\<lparr>iv_allocs := k, ds_top := 1, ds_head := (replicate 8 0)[1 := v]\<rparr>)"
    by (auto simp: dfl_init_def)
  show ?thesis
    using pushed_from [of "dfl_init\<lparr>iv_allocs := k, ds_top := 1, ds_head := (replicate 8 0)[1 := v]\<rparr>" ws]
    by (simp add: Cons k) linarith
qed simp

section \<open>Witnesses\<close>

text \<open>
  A list in memory: the root at address 0 has two branch parameters, to an interface at 0x100 and to
  one at 0x200, both without parameters.  The interface at 0x300 has one branch, to the one at 0x100.
\<close>

definition dfl_mem0 :: dfl_mem where
  "dfl_mem0 = (\<lambda>_. 0)(0x4 := 0x100, 0x20 := 0x80000000, 0x28 := 0xc, 0x2c := 0x10, 0x30 := 0x101,
     0x38 := 0xc, 0x3c := 0x9, 0x40 := 0x201, 0x104 := 0x100, 0x204 := 0x100,
     0x304 := 0x100, 0x320 := 0x80000000, 0x328 := 0xc, 0x32c := 0x9, 0x330 := 0x101)"

abbreviation (input) dfl_list0 :: "dfl_node list" where
  "dfl_list0 \<equiv> [DflNode 0 [0x28, 0x38] [[DflNode 0x100 [] []], [DflNode 0x200 [] []]]]"

lemmas dfl_eval = dfl_mem0_def common_dfl_read_64_def get_x_feature_csr_group_size_64_data_def has_params_def
  get_first_param_header_addr_def param_header_def is_last_param_block_def get_next_param_byte_offset_def
  is_branch_def get_param_id_def branch_address_def get_x_feature_dfh_start_64_data_def is_eol_def Let_def

lemma dfl_list0_at: "level_at dfl_mem0 0 dfl_list0"
  by (simp add: dfl_eval)

lemma dfl_list1_at: "level_at dfl_mem0 0x300 [DflNode 0x300 [0x328] [[DflNode 0x100 [] []]]]"
  by (simp add: dfl_eval)

theorem scan_collects_witness:
  "\<exists>s'. common_dfl_scan_multi_interfaces 20 dfl_mem0 (\<lambda>_ _. True) 0 dfl_init = Inr s' \<and> iv_size s' = 3"
  using scan_collects [OF dfl_list0_at, of 20 dfl_init] by (auto simp: dfl_init_def vec_ok_def)

theorem scan_parents_witness:
  "\<exists>s'. common_dfl_scan_multi_interfaces 20 dfl_mem0 (\<lambda>_ _. True) 0x300 dfl_init = Inr s' \<and>
        map fi_dfh_parent (take (iv_size s') (iv_vec s')) = [-1, 0]"
  using scan_parents [OF dfl_list1_at, of 20] by (simp add: Let_def)

end
