(* ===== verification/DflReport.thy ===== *)
theory DflReport
  imports Dfl FpgaApi
begin

text \<open>
  The report on the interfaces the walk has found (\<^verbatim>\<open>common_dfl_print_all_interfaces\<close> and
  \<^verbatim>\<open>common_dfl_print_interface\<close> in \<^verbatim>\<open>intel_fpga_api_cmn_dfl.c\<close>), with the messages of \<^verbatim>\<open>FpgaApi\<close>.  What a format
  and its arguments print is the C library's business: \<open>vf\<close> is its formatting.
\<close>

section \<open>Printing\<close>

datatype msg_arg = ArgInt int | ArgU64 u64

type_synonym 's sayer = "msg_type \<Rightarrow> string \<Rightarrow> msg_arg list \<Rightarrow> 's \<Rightarrow> stuck + 's"

definition say :: "'s msg_handlers \<Rightarrow> (string \<Rightarrow> msg_arg list \<Rightarrow> string) \<Rightarrow> 's sayer" where
  "say hs vf t fmt args s = andThen (fpga_msg_printf hs t (vf fmt args) s) (\<lambda>(_, s1). Inr s1)"

fun for_each :: "('i \<Rightarrow> 's \<Rightarrow> stuck + 's) \<Rightarrow> 'i list \<Rightarrow> 's \<Rightarrow> stuck + 's" where
  "for_each f [] s = Inr s"
| "for_each f (i # is) s = andThen (f i s) (for_each f is)"

text \<open>One parameter, and one interface; an index is compared as an unsigned number first.\<close>

definition print_param_word :: "'s sayer \<Rightarrow> fpga_param \<Rightarrow> nat \<Rightarrow> 's \<Rightarrow> stuck + 's" where
  "print_param_word out p j s =
     (if j < length (fp_data p) then
        out FPGA_MSG_PRINTF_INFO ''      64-bit Param Data[%d]: 0x%016llX'' [ArgInt (int j), ArgU64 (fp_data p ! j)] s
      else Inl OutOfBounds)"

definition print_param :: "'s sayer \<Rightarrow> fpga_info \<Rightarrow> nat \<Rightarrow> 's \<Rightarrow> stuck + 's" where
  "print_param out info i s =
     (let p = fi_parameters info ! i
      in andThen (out FPGA_MSG_PRINTF_INFO ''      ------ Parameter %d ------   '' [ArgInt (int i)] s) (\<lambda>s1.
         andThen (out FPGA_MSG_PRINTF_INFO ''      Version: %d'' [ArgInt (uint (fp_version p))] s1) (\<lambda>s2.
         andThen (out FPGA_MSG_PRINTF_INFO ''      Param ID: %d'' [ArgInt (uint (fp_param_id p))] s2) (\<lambda>s3.
         andThen (out FPGA_MSG_PRINTF_INFO ''      Param Data Size: %d'' [ArgInt (sint (fp_data_size p))] s3)
           (for_each (print_param_word out p) [0..<unat (fp_data_size p) div 8])))))"

definition common_dfl_print_interface ::
    "'s sayer \<Rightarrow> 'z fpga_vec_scheme \<Rightarrow> (u64 \<Rightarrow> u64) \<Rightarrow> int \<Rightarrow> 's \<Rightarrow> stuck + 's" where
  "common_dfl_print_interface out v base_addr_decoder index s =
     (if unat (word_of_int index :: u32) < iv_size v \<and> 0 \<le> index then
        andThen (info_at (nat index) v) (\<lambda>info.
        andThen (out FPGA_MSG_PRINTF_INFO ''   ---------- Interface %d ----------'' [ArgInt index] s) (\<lambda>s1.
        andThen (out FPGA_MSG_PRINTF_INFO ''   Base Address: 0x%llX''
                   [ArgU64 (base_addr_decoder (ucast (fi_base_address info)))] s1) (\<lambda>s2.
        andThen (out FPGA_MSG_PRINTF_INFO ''   128-bit GUID: 0x%016llX%016llX''
                   [ArgU64 (fi_guid_h info), ArgU64 (fi_guid_l info)] s2) (\<lambda>s3.
        andThen (out FPGA_MSG_PRINTF_INFO ''   Instance ID: %d'' [ArgInt (uint (fi_instance_id info))] s3) (\<lambda>s4.
        andThen (out FPGA_MSG_PRINTF_INFO ''   Group ID: %d'' [ArgInt (uint (fi_group_id info))] s4)
          (for_each (print_param out info) [0..<length (fi_parameters info)]))))))
      else out FPGA_MSG_PRINTF_ERROR ''Please enter a valid interface index, acceptable index < %d''
             [ArgInt (int (iv_size v))] s)"

definition common_dfl_print_all_interfaces ::
    "'s sayer \<Rightarrow> 'z fpga_vec_scheme \<Rightarrow> (u64 \<Rightarrow> u64) \<Rightarrow> 's \<Rightarrow> stuck + 's" where
  "common_dfl_print_all_interfaces out v base_addr_decoder s =
     for_each (\<lambda>i. common_dfl_print_interface out v base_addr_decoder (int i)) [0..<iv_size v] s"

section \<open>What is printed\<close>

definition param_report :: "nat \<Rightarrow> fpga_param \<Rightarrow> (string \<times> msg_arg list) list" where
  "param_report i p =
     [(''      ------ Parameter %d ------   '', [ArgInt (int i)]),
      (''      Version: %d'', [ArgInt (uint (fp_version p))]),
      (''      Param ID: %d'', [ArgInt (uint (fp_param_id p))]),
      (''      Param Data Size: %d'', [ArgInt (sint (fp_data_size p))])] @
     map (\<lambda>(j, w). (''      64-bit Param Data[%d]: 0x%016llX'', [ArgInt (int j), ArgU64 w])) (enumerate 0 (fp_data p))"

definition interface_report :: "(u64 \<Rightarrow> u64) \<Rightarrow> nat \<Rightarrow> fpga_info \<Rightarrow> (string \<times> msg_arg list) list" where
  "interface_report base_addr_decoder n info =
     [(''   ---------- Interface %d ----------'', [ArgInt (int n)]),
      (''   Base Address: 0x%llX'', [ArgU64 (base_addr_decoder (ucast (fi_base_address info)))]),
      (''   128-bit GUID: 0x%016llX%016llX'', [ArgU64 (fi_guid_h info), ArgU64 (fi_guid_l info)]),
      (''   Instance ID: %d'', [ArgInt (uint (fi_instance_id info))]),
      (''   Group ID: %d'', [ArgInt (uint (fi_group_id info))])] @
     concat (map (\<lambda>(i, p). param_report i p) (enumerate 0 (fi_parameters info)))"

definition print_report :: "'s sayer \<Rightarrow> (string \<times> msg_arg list) list \<Rightarrow> 's \<Rightarrow> stuck + 's" where
  "print_report out = for_each (\<lambda>(fmt, args). out FPGA_MSG_PRINTF_INFO fmt args)"

lemma andThen_cong2: "(\<And>a. f a = g a) \<Longrightarrow> andThen m f = andThen m g"
  by (cases m) auto

lemma for_each_append: "for_each f (is @ js) s = andThen (for_each f is s) (for_each f js)"
  by (induction "is" arbitrary: s) (auto simp: andThen_assoc intro: andThen_cong2)

lemma for_each_cong: "(\<And>i s. i \<in> set is \<Longrightarrow> f i s = g i s) \<Longrightarrow> for_each f is s = for_each g is s"
  by (induction "is" arbitrary: s) (auto intro: andThen_cong2)

lemma for_each_map: "for_each f (map g is) s = for_each (\<lambda>i. f (g i)) is s"
  by (induction "is" arbitrary: s) (auto intro: andThen_cong2)

lemma for_each_concat: "for_each f (concat (map g is)) s = for_each (\<lambda>i. for_each f (g i)) is s"
  by (induction "is" arbitrary: s) (auto simp: for_each_append intro: andThen_cong2)

lemma for_each_nth: "for_each (\<lambda>i. f i (xs ! i)) [0..<length xs] s = for_each (\<lambda>(i, x). f i x) (enumerate 0 xs) s"
proof -
  have "enumerate 0 xs = map (\<lambda>i. (i, xs ! i)) [0..<length xs]" by (rule nth_equalityI) (simp_all add: nth_enumerate_eq)
  then show ?thesis by (simp add: for_each_map)
qed

lemma print_report_simps [simp]:
  "print_report out [] = Inr"
  "print_report out ((fmt, args) # r) = (\<lambda>s. andThen (out FPGA_MSG_PRINTF_INFO fmt args s) (print_report out r))"
  by (simp_all add: print_report_def fun_eq_iff)

text \<open>A parameter whose size is that of its data prints all of it, and nothing is read out of range.\<close>

definition param_sized :: "fpga_param \<Rightarrow> bool" where
  "param_sized p \<longleftrightarrow> length (fp_data p) = unat (fp_data_size p) div 8"

lemma print_param_reports:
  assumes "param_sized (fi_parameters info ! i)"
  shows "print_param out info i s = print_report out (param_report i (fi_parameters info ! i)) s"
proof -
  let ?p = "fi_parameters info ! i"
  let ?out = "\<lambda>j w. out FPGA_MSG_PRINTF_INFO ''      64-bit Param Data[%d]: 0x%016llX'' [ArgInt (int j), ArgU64 w]"
  have "for_each (print_param_word out ?p) [0..<unat (fp_data_size ?p) div 8] s =
      print_report out (map (\<lambda>(j, w). (''      64-bit Param Data[%d]: 0x%016llX'', [ArgInt (int j), ArgU64 w]))
        (enumerate 0 (fp_data ?p))) s" for s
  proof -
    have "for_each (print_param_word out ?p) [0..<unat (fp_data_size ?p) div 8] s =
        for_each (\<lambda>j. ?out j (fp_data ?p ! j)) [0..<length (fp_data ?p)] s"
      unfolding assms [unfolded param_sized_def, symmetric]
      by (rule for_each_cong) (simp add: print_param_word_def)
    also have "\<dots> = for_each (\<lambda>(j, w). ?out j w) (enumerate 0 (fp_data ?p)) s" by (rule for_each_nth)
    finally show ?thesis by (simp add: print_report_def for_each_map case_prod_unfold)
  qed
  then have "for_each (print_param_word out ?p) [0..<unat (fp_data_size ?p) div 8] =
      print_report out (map (\<lambda>(j, w). (''      64-bit Param Data[%d]: 0x%016llX'', [ArgInt (int j), ArgU64 w]))
        (enumerate 0 (fp_data ?p)))" by (rule ext)
  then show ?thesis by (simp only: print_param_def param_report_def Let_def append_Cons append_Nil print_report_simps)
qed

lemma print_interface_reports:
  assumes "n < iv_size v" "iv_size v \<le> length (iv_vec v)" "n < 2 ^ 32" "\<forall>p \<in> set (fi_parameters (iv_vec v ! n)). param_sized p"
  shows "common_dfl_print_interface out v dec (int n) s = print_report out (interface_report dec n (iv_vec v ! n)) s"
proof -
  let ?info = "iv_vec v ! n"
  have "for_each (print_param out ?info) [0..<length (fi_parameters ?info)] s =
      print_report out (concat (map (\<lambda>(i, p). param_report i p) (enumerate 0 (fi_parameters ?info)))) s" for s
  proof -
    have "for_each (print_param out ?info) [0..<length (fi_parameters ?info)] s =
        for_each (\<lambda>i. print_report out (param_report i (fi_parameters ?info ! i))) [0..<length (fi_parameters ?info)] s"
      using assms(4) by (intro for_each_cong print_param_reports) auto
    also have "\<dots> = for_each (\<lambda>(i, p). print_report out (param_report i p)) (enumerate 0 (fi_parameters ?info)) s"
      by (rule for_each_nth)
    finally show ?thesis by (simp add: print_report_def for_each_concat case_prod_unfold)
  qed
  then have "for_each (print_param out ?info) [0..<length (fi_parameters ?info)] =
      print_report out (concat (map (\<lambda>(i, p). param_report i p) (enumerate 0 (fi_parameters ?info))))" by (rule ext)
  moreover have "unat (word_of_int (int n) :: u32) = n" using assms(3) by (simp add: unsigned_of_nat take_bit_nat_eq_self)
  moreover have "info_at n v = Inr ?info" using assms(1,2) by (simp add: info_at_def)
  ultimately show ?thesis using assms(1)
    by (simp only: common_dfl_print_interface_def interface_report_def append_Cons append_Nil print_report_simps
        andThen.simps nat_int of_nat_0_le_iff simp_thms if_True)
qed

section \<open>The report on what a scan found\<close>

lemma info_of_sized: "\<forall>p \<in> set (fi_parameters (info_of mem e)). param_sized p"
  by (cases e) (auto simp: info_of_def params_of_def param_of_def zero_param_def param_sized_def Let_def)

text \<open>After the scan of a device feature list the report prints, for every interface of the list in the order of
  the walk and for nothing else, its number, base address as decoded, GUID, instance and group, and each of its
  parameters with all of its data, and it reads nothing out of range; it stops early only if the output does.\<close>

lemma scan_reported:
  assumes "level_at mem a L" and "level_depth L \<le> 6" and "level_size L \<le> fuel" and "level_count L < 2 ^ 32"
  shows "\<exists>s'. common_dfl_scan_multi_interfaces fuel mem (\<lambda>_ _. True) a dfl_init = Inr s' \<and>
    (\<forall>(out :: 's sayer) dec t. common_dfl_print_all_interfaces out s' dec t =
       print_report out (concat (map (\<lambda>(n, e). interface_report dec n (info_of mem e)) (enumerate 0 (visit (-1) 0 L)))) t)"
proof -
  let ?v = "map (info_of mem) (visit (-1) 0 L)"
  have "vec_ok dfl_init" "ds_head dfl_init = []" "ds_top dfl_init = 0" "-1 \<le> s_interface_index dfl_init"
    by (simp_all add: dfl_init_def vec_ok_def)
  from scan_collects_list [OF assms(1-3) this] obtain s'
    where s': "common_dfl_scan_multi_interfaces fuel mem (\<lambda>_ _. True) a dfl_init = Inr s'"
      "iv_size s' = level_count L" "take (iv_size s') (iv_vec s') = ?v" by blast
  have len: "iv_size s' = length ?v" "iv_size s' \<le> length (iv_vec s')"
    using arg_cong [OF s'(3), of length] s'(2) by auto
  have nth: "iv_vec s' ! n = ?v ! n" if "n < iv_size s'" for n using s'(3) that by (metis nth_take)
  have "common_dfl_print_all_interfaces out s' dec t =
     print_report out (concat (map (\<lambda>(n, e). interface_report dec n (info_of mem e)) (enumerate 0 (visit (-1) 0 L)))) t"
    for out :: "'s sayer" and dec t
  proof -
    have "common_dfl_print_all_interfaces out s' dec t =
        for_each (\<lambda>n. print_report out (interface_report dec n (?v ! n))) [0..<length ?v] t"
      unfolding common_dfl_print_all_interfaces_def len(1) [symmetric]
    proof (rule for_each_cong)
      fix n u assume "n \<in> set [0..<iv_size s']"
      then have n: "n < iv_size s'" by simp
      have "\<forall>p \<in> set (fi_parameters (iv_vec s' ! n)). param_sized p" using nth [OF n] n len(1) info_of_sized by simp
      with print_interface_reports [OF n len(2)] n s'(2) assms(4) nth [OF n]
      show "common_dfl_print_interface out s' dec (int n) u = print_report out (interface_report dec n (?v ! n)) u" by simp
    qed
    also have "\<dots> = for_each (\<lambda>(n, i). print_report out (interface_report dec n i)) (enumerate 0 ?v) t"
      by (rule for_each_nth)
    also have "enumerate 0 ?v = map (\<lambda>(n, e). (n, info_of mem e)) (enumerate 0 (visit (-1) 0 L))"
      by (rule nth_equalityI) (simp_all add: nth_enumerate_eq)
    finally show ?thesis by (simp add: for_each_map print_report_def for_each_concat case_prod_unfold)
  qed
  with s'(1) show ?thesis by blast
qed

text \<open>The list of three interfaces, with an output that records what is printed.\<close>

definition record_out :: "(msg_type \<times> string \<times> msg_arg list) list sayer" where
  "record_out t fmt args l = Inr (l @ [(t, fmt, args)])"

lemma scan_reported_dfl_list0:
  "\<exists>s'. common_dfl_scan_multi_interfaces 20 dfl_mem0 (\<lambda>_ _. True) 0 dfl_init = Inr s' \<and>
     common_dfl_print_all_interfaces record_out s' id [] =
       print_report record_out
         (concat (map (\<lambda>(n, e). interface_report id n (info_of dfl_mem0 e)) (enumerate 0 (visit (-1) 0 dfl_list0)))) []"
  using scan_reported [where 's = "(msg_type \<times> string \<times> msg_arg list) list", OF dfl_list0_at, of 20] by auto

end
