(* ===== verification/HyperRam.thy ===== *)
theory HyperRam
  imports HalPrelude
begin

text \<open>
  The controller of the HyperRAM the software runs from (\<^verbatim>\<open>src/hyperram_controller_ip/src\<close>), cycle by cycle: the
  address decoder, the three sequencers that talk to the memory chip, the state machine above them and the
  registers in front of the pins.  One call of \<open>ram_step\<close> is one rising edge of the clock: every register gets its
  next value from the values of all registers before the edge, and where the code assigns a register twice the
  last assignment counts.  Wires of one bit are booleans, buses are words.  Registers the reset does not reach keep
  their value.
\<close>

section \<open>Address decoder\<close>

text \<open>
  The command word of an address (\<^verbatim>\<open>addr_decode\<close>): bit 47 tells a read from a write, bits 21 to 16 hold the upper
  column address and all others are zero.  The decoder has an input \<^verbatim>\<open>write\<close> but does not look at it.
\<close>

definition out_addr :: "22 word \<Rightarrow> bool \<Rightarrow> 48 word" where
  "out_addr a rd = (if rd then 2 ^ 47 else 0) OR push_bit 16 (take_bit 6 (push_bit 1 (drop_bit 5 (ucast a))))"

definition row_id :: "22 word \<Rightarrow> 14 word" where
  "row_id a = ucast (drop_bit 10 (ucast a :: u32))"

definition page_id :: "22 word \<Rightarrow> 5 word" where
  "page_id a = ucast (push_bit 1 (drop_bit 5 (ucast a :: u32)))"

definition buffer_addr :: "22 word \<Rightarrow> 5 word" where
  "buffer_addr a = ucast a"

section \<open>Sequencers\<close>

datatype fsm_state = STATE_IDLE | STATE_CA | STATE_RUN | STATE_DONE

text \<open>The registers the three sequencers have in common; the width of the counter differs.\<close>

record (overloaded) 'c stm =
  fsm :: fsm_state
  counter :: "'c word"
  buffer_out :: "u16 list"
  stm_end :: bool
  oe :: bool
  oe_clk :: bool
  csn :: bool

record rdreg_stm = "4 stm" +
  rg_valid :: bool
  rg_dataoutr :: u16

record rdmem_stm = "6 stm" +
  inner_counter :: bool
  rm_dataoutr :: u32
  wordvalid :: bool

record wrmem_stm = "5 stm" +
  wm_rwds_out :: bool
  wm_rwds_oe :: bool

text \<open>The command word goes out in three half words, the first one first.\<close>

definition command_halves :: "48 word \<Rightarrow> u16 list" where
  "command_halves ca = [ucast (drop_bit 32 ca), ucast (drop_bit 16 ca), ucast ca]"

text \<open>The command phase of both reading sequencers: wait for the strobe, then shift the three half words out.\<close>

definition stm_ca :: "bool \<Rightarrow> ('c::len, 'e) stm_scheme \<Rightarrow> ('c, 'e) stm_scheme" where
  "stm_ca rwds s =
     (if counter s = 4 then s\<lparr>fsm := STATE_RUN, counter := 0, oe := False\<rparr>
      else if 0 < counter s \<and> counter s < 4 then
        s\<lparr>counter := counter s + 1, buffer_out := tl (buffer_out s) @ [0], oe_clk := True\<rparr>
      else if rwds then s\<lparr>oe := True, oe_clk := False, counter := 1\<rparr> else s)"

definition rdreg_step :: "bool \<Rightarrow> bool \<Rightarrow> bool \<Rightarrow> u16 \<Rightarrow> 48 word \<Rightarrow> rdreg_stm \<Rightarrow> rdreg_stm" where
  "rdreg_step rst start rwds dataout casig s =
     (if rst then s\<lparr>stm_end := False, counter := 0, fsm := STATE_IDLE, oe := False, oe_clk := False, csn := True,
                    rg_valid := False, buffer_out := [0, 0, 0]\<rparr>
      else case fsm s of
        STATE_IDLE \<Rightarrow>
          (let s1 = s\<lparr>counter := 0, stm_end := False, buffer_out := command_halves casig, csn := True,
                      rg_valid := False\<rparr>
           in if start then s1\<lparr>fsm := STATE_CA, csn := False\<rparr> else s1)
      | STATE_CA \<Rightarrow> stm_ca rwds s
      | STATE_RUN \<Rightarrow>
          (let s1 = (if counter s = 14 then s\<lparr>fsm := STATE_DONE, stm_end := True, csn := True,
                                              rg_dataoutr := dataout, rg_valid := True\<rparr>
                     else s)
           in s1\<lparr>counter := counter s + 1\<rparr>)
      | STATE_DONE \<Rightarrow> s\<lparr>fsm := STATE_IDLE, oe_clk := False, rg_valid := False\<rparr>)"

definition rdmem_run :: "u16 \<Rightarrow> rdmem_stm \<Rightarrow> rdmem_stm" where
  "rdmem_run dataout s =
     (if counter s = 32 then s\<lparr>fsm := STATE_DONE, stm_end := True, counter := 0, csn := True, wordvalid := False\<rparr>
      else if 15 < counter s then
        (if inner_counter s then
           s\<lparr>rm_dataoutr := word_cat (ucast (rm_dataoutr s) :: u16) dataout, inner_counter := False,
             wordvalid := True, counter := counter s + 1\<rparr>
         else
           s\<lparr>rm_dataoutr := word_cat (ucast (drop_bit 16 (rm_dataoutr s)) :: u16) dataout, inner_counter := True,
             wordvalid := False, counter := counter s + 1\<rparr>)
      else s\<lparr>counter := counter s + 1\<rparr>)"

definition rdmem_step :: "bool \<Rightarrow> bool \<Rightarrow> bool \<Rightarrow> u16 \<Rightarrow> 48 word \<Rightarrow> rdmem_stm \<Rightarrow> rdmem_stm" where
  "rdmem_step rst start rwds dataout casig s =
     (if rst then s\<lparr>stm_end := False, counter := 0, fsm := STATE_IDLE, oe := False, oe_clk := False, csn := True,
                    inner_counter := False, wordvalid := False, buffer_out := [0, 0, 0]\<rparr>
      else case fsm s of
        STATE_IDLE \<Rightarrow>
          (let s1 = s\<lparr>counter := 0, stm_end := False, buffer_out := command_halves casig, csn := True,
                      wordvalid := False\<rparr>
           in if start then s1\<lparr>fsm := STATE_CA, csn := False\<rparr> else s1)
      | STATE_CA \<Rightarrow> stm_ca rwds s
      | STATE_RUN \<Rightarrow> rdmem_run dataout s
      | STATE_DONE \<Rightarrow> s\<lparr>fsm := STATE_IDLE, oe_clk := False, wordvalid := False\<rparr>)"

text \<open>
  The writing sequencer shifts the command and, after the latency of the chip, the sixteen half words of the data.
  The 256 bits of data are eight words, the most significant first.
\<close>

definition half_words :: "u32 list \<Rightarrow> u16 list" where
  "half_words ws = concat (map (\<lambda>w. [ucast (drop_bit 16 w), ucast w]) ws)"

definition wrmem_ca :: "bool \<Rightarrow> wrmem_stm \<Rightarrow> wrmem_stm" where
  "wrmem_ca rwds s =
     (if counter s = 4 then s\<lparr>fsm := STATE_RUN, counter := 0, oe := False\<rparr>
      else if 0 < counter s \<and> counter s < 4 then
        s\<lparr>buffer_out := tl (buffer_out s) @ [0], oe := True, oe_clk := True, counter := counter s + 1\<rparr>
      else if rwds then s\<lparr>oe := True, oe_clk := False, counter := 1\<rparr> else s)"

definition wrmem_run :: "wrmem_stm \<Rightarrow> wrmem_stm" where
  "wrmem_run s =
     (if counter s = 29 then s\<lparr>fsm := STATE_DONE, counter := 0, stm_end := True, csn := True, oe := False,
                               oe_clk := False, wm_rwds_oe := False\<rparr>
      else if 12 < counter s then
        s\<lparr>buffer_out := tl (buffer_out s) @ [0], counter := counter s + 1, oe := True, oe_clk := True,
          wm_rwds_out := False, wm_rwds_oe := True\<rparr>
      else s\<lparr>counter := counter s + 1\<rparr>)"

definition wrmem_step :: "bool \<Rightarrow> bool \<Rightarrow> bool \<Rightarrow> u32 list \<Rightarrow> bool \<Rightarrow> 48 word \<Rightarrow> wrmem_stm \<Rightarrow> wrmem_stm" where
  "wrmem_step rst start rwds databuffer valid casig s =
     (if rst then s\<lparr>stm_end := False, counter := 0, fsm := STATE_IDLE, oe := False, oe_clk := False, csn := True,
                    wm_rwds_out := False, wm_rwds_oe := False, buffer_out := [0, 0, 0] @ drop 3 (buffer_out s)\<rparr>
      else case fsm s of
        STATE_IDLE \<Rightarrow>
          (let s1 = s\<lparr>counter := 0, stm_end := False, csn := True,
                      buffer_out := command_halves casig @
                        (if valid then half_words databuffer else drop 3 (buffer_out s))\<rparr>
           in if start then s1\<lparr>fsm := STATE_CA, csn := False\<rparr> else s1)
      | STATE_CA \<Rightarrow> wrmem_ca rwds s
      | STATE_RUN \<Rightarrow> wrmem_run s
      | STATE_DONE \<Rightarrow> s\<lparr>fsm := STATE_IDLE, oe_clk := False\<rparr>)"

section \<open>The controller\<close>

datatype top_state = IDLE | RDREG | WRREG | RDMEM1 | WRMEM1 | RDMEM2 | WRMEM2 | ACCDLY

text \<open>The inputs of a cycle; \<^verbatim>\<open>csr_writedata\<close> is left out, which nothing reads.\<close>

record ram_in =
  rst :: bool
  csr_read :: bool
  csr_write :: bool
  csr_address :: "10 word"
  s0_read :: bool
  s0_write :: bool
  s0_address :: "22 word"
  s0_writedata :: u32
  rwds_in :: bool
  dataout :: u16

text \<open>The registers of the first always block; \<open>start_rdreg\<close> to \<open>start_wrmem\<close> are \<^verbatim>\<open>stm_start[0]\<close> to \<^verbatim>\<open>[3]\<close>.\<close>

record hc =
  hstate :: top_state
  regr :: bool
  regw :: bool
  memr :: bool
  memw :: bool
  prev_regr :: bool
  prev_regw :: bool
  prev_memr :: bool
  prev_memw :: bool
  CA_sigr :: "48 word"
  start_rdreg :: bool
  start_wrreg :: bool
  start_rdmem :: bool
  start_wrmem :: bool
  acc_counter :: "4 word"
  rd_tmp :: bool
  wr_tmp :: bool
  curr_row_id :: "14 word"
  curr_page_id :: "5 word"
  buffer_wrmem :: "u32 list"
  buffer :: "u32 list"
  row :: bool
  inbuffer_valid :: bool
  s0_readdata :: u32
  s0_readdatavalid :: bool

text \<open>The registers of the second always block: the captured addresses and the pins.\<close>

record pads =
  captured_s0_address :: "22 word"
  captured_csr_address :: "10 word"
  pad_rwds_out :: bool
  pad_rwds_oe :: bool
  datain :: u16
  oe_data :: bool
  pad_oe_clk :: bool
  pad_csn :: bool

record ram =
  ctl :: hc
  pins :: pads
  rdreg :: rdreg_stm
  rdmem :: rdmem_stm
  wrmem :: wrmem_stm

text \<open>
  The sequencer for writing a register of the chip is not instantiated, so nothing drives its end signal and its
  outputs; synthesis ties such wires to zero.  The test for a buffered page is the constant zero.
\<close>

definition wrreg_end :: bool where
  "wrreg_end = False"

definition wrreg_csn :: bool where
  "wrreg_csn = False"

definition csr_command :: "10 word \<Rightarrow> 48 word" where
  "csr_command a =
     (if a = 0 then 0xc00000000000 else if a = 1 then 0xc00000000001 else if a = 2 then 0xc00001000000
      else if a = 3 then 0xc00001000001 else 0xc00000000000)"

definition buffer_read :: "5 word \<Rightarrow> u32 list \<Rightarrow> u32" where
  "buffer_read i b = (if i < 8 then b ! unat i else 0)"

definition buffer_write :: "5 word \<Rightarrow> u32 \<Rightarrow> u32 list \<Rightarrow> u32 list" where
  "buffer_write i v b = (if i < 8 then b[unat i := v] else b[0 := 0])"

definition hc_reset :: "hc \<Rightarrow> hc" where
  "hc_reset c = c\<lparr>hstate := IDLE, regr := False, regw := False, memr := False, memw := False, rd_tmp := False,
     wr_tmp := False, prev_memr := False, prev_memw := False, prev_regr := False, prev_regw := False, CA_sigr := 0,
     acc_counter := 0, s0_readdata := 0, s0_readdatavalid := False, curr_row_id := 0, curr_page_id := 0,
     buffer_wrmem := replicate 8 0, row := False, inbuffer_valid := False, buffer := replicate 8 0,
     start_rdreg := False, start_wrreg := False, start_rdmem := False, start_wrmem := False\<rparr>"

text \<open>Where the state machine waits for a request it looks for a rising edge of the four strobes.\<close>

definition hc_idle :: "hc \<Rightarrow> hc \<Rightarrow> hc" where
  "hc_idle c s =
     (let s1 = s\<lparr>CA_sigr := 0, rd_tmp := False, wr_tmp := False, buffer_wrmem := replicate 8 0,
                 s0_readdatavalid := False, acc_counter := 8, inbuffer_valid := False\<rparr>
      in if regr c \<and> \<not> prev_regr c then s1\<lparr>hstate := RDREG\<rparr>
         else if regw c \<and> \<not> prev_regw c then s1\<lparr>hstate := WRREG\<rparr>
         else if memr c \<and> \<not> prev_memr c then s1\<lparr>row := True, hstate := RDMEM2\<rparr>
         else if memw c \<and> \<not> prev_memw c then s1\<lparr>row := False, hstate := RDMEM2\<rparr>
         else s1)"

definition hc_rdmem2 :: "22 word \<Rightarrow> rdmem_stm \<Rightarrow> hc \<Rightarrow> hc \<Rightarrow> hc" where
  "hc_rdmem2 a rm c s =
     (let s1 = (if stm_end rm then
                  (if row c then s\<lparr>hstate := RDMEM1, curr_row_id := row_id a, curr_page_id := page_id a\<rparr>
                   else s\<lparr>inbuffer_valid := False, hstate := WRMEM1\<rparr>)\<lparr>start_rdmem := False\<rparr>
                else s\<lparr>start_rdmem := rd_tmp c, rd_tmp := True, CA_sigr := out_addr a (rd_tmp c)\<rparr>)
      in if wordvalid rm then s1\<lparr>buffer := tl (buffer c) @ [rm_dataoutr rm]\<rparr> else s1)"

definition hc_wrmem2 :: "22 word \<Rightarrow> wrmem_stm \<Rightarrow> hc \<Rightarrow> hc \<Rightarrow> hc" where
  "hc_wrmem2 a wm c s =
     (let s1 = s\<lparr>inbuffer_valid := False\<rparr>
      in if stm_end wm then s1\<lparr>hstate := ACCDLY, curr_row_id := row_id a, curr_page_id := page_id a, start_wrmem := False\<rparr>
         else s1\<lparr>start_wrmem := wr_tmp c, wr_tmp := True, CA_sigr := out_addr a (rd_tmp c)\<rparr>)"

definition hc_step :: "ram_in \<Rightarrow> ram \<Rightarrow> hc" where
  "hc_step x r =
     (let c = ctl r; a = captured_s0_address (pins r) in
      if rst x then hc_reset c else
      let s = c\<lparr>regr := csr_read x, regw := csr_write x, memr := s0_read x, memw := s0_write x,
                prev_regr := regr c, prev_regw := regw c, prev_memr := memr c, prev_memw := memw c\<rparr>
      in case hstate c of
           IDLE \<Rightarrow> hc_idle c s
         | RDREG \<Rightarrow>
             (if stm_end (rdreg r) then s\<lparr>hstate := IDLE, start_rdreg := False\<rparr> else s\<lparr>start_rdreg := True\<rparr>)
               \<lparr>CA_sigr := csr_command (captured_csr_address (pins r))\<rparr>
         | WRREG \<Rightarrow> if wrreg_end then s\<lparr>hstate := IDLE, start_wrreg := False\<rparr> else s\<lparr>start_wrreg := True\<rparr>
         | RDMEM1 \<Rightarrow> s\<lparr>s0_readdata := buffer_read (buffer_addr a) (buffer c), s0_readdatavalid := True, hstate := IDLE\<rparr>
         | WRMEM1 \<Rightarrow> s\<lparr>buffer := buffer_write (buffer_addr a) (s0_writedata x) (buffer c), hstate := WRMEM2,
                        inbuffer_valid := True, buffer_wrmem := buffer c\<rparr>
         | RDMEM2 \<Rightarrow> hc_rdmem2 a (rdmem r) c s
         | WRMEM2 \<Rightarrow> hc_wrmem2 a (wrmem r) c s
         | ACCDLY \<Rightarrow> if acc_counter c = 0 then s\<lparr>hstate := IDLE\<rparr> else s\<lparr>acc_counter := acc_counter c - 1\<rparr>)"

definition pads_step :: "ram_in \<Rightarrow> ram \<Rightarrow> pads" where
  "pads_step x r =
     (let c = ctl r; p = pins r in
      if rst x then p\<lparr>pad_rwds_out := False, pad_rwds_oe := False, datain := 0, oe_data := False, pad_oe_clk := False,
                      pad_csn := True, captured_s0_address := 0, captured_csr_address := 0\<rparr>
      else
        \<lparr>captured_s0_address = (if s0_read x \<or> s0_write x then s0_address x else captured_s0_address p),
         captured_csr_address = (if csr_read x \<or> csr_write x then csr_address x else captured_csr_address p),
         pad_rwds_out = start_wrmem c \<and> wm_rwds_out (wrmem r),
         pad_rwds_oe = start_wrmem c \<and> wm_rwds_oe (wrmem r),
         datain = (if start_rdreg c then buffer_out (rdreg r) ! 0 else if start_wrreg c then 0
                   else if start_rdmem c then buffer_out (rdmem r) ! 0
                   else if start_wrmem c then buffer_out (wrmem r) ! 0 else 0),
         oe_data = (if start_rdreg c then oe (rdreg r) else if start_wrreg c then False
                    else if start_rdmem c then oe (rdmem r) else start_wrmem c \<and> oe (wrmem r)),
         pad_oe_clk = (if start_rdreg c then oe_clk (rdreg r) else if start_wrreg c then False
                       else if start_rdmem c then oe_clk (rdmem r) else start_wrmem c \<and> oe_clk (wrmem r)),
         pad_csn = (if start_rdreg c then csn (rdreg r) else if start_wrreg c then wrreg_csn
                    else if start_rdmem c then csn (rdmem r) else start_wrmem c \<longrightarrow> csn (wrmem r))\<rparr>)"

definition ram_step :: "ram_in \<Rightarrow> ram \<Rightarrow> ram" where
  "ram_step x r =
     (let c = ctl r in
      \<lparr>ctl = hc_step x r, pins = pads_step x r,
       rdreg = rdreg_step (rst x) (start_rdreg c) (rwds_in x) (dataout x) (CA_sigr c) (rdreg r),
       rdmem = rdmem_step (rst x) (start_rdmem c) (rwds_in x) (dataout x) (CA_sigr c) (rdmem r),
       wrmem = wrmem_step (rst x) (start_wrmem c) (rwds_in x) (buffer_wrmem c) (inbuffer_valid c) (CA_sigr c) (wrmem r)\<rparr>)"

section \<open>Runs\<close>

text \<open>The states after each of a sequence of cycles, and after the first \<open>n\<close> of an endless one.\<close>

fun ram_trace :: "ram_in list \<Rightarrow> ram \<Rightarrow> ram list" where
  "ram_trace [] r = []"
| "ram_trace (x # xs) r = ram_step x r # ram_trace xs (ram_step x r)"

primrec ram_run :: "(nat \<Rightarrow> ram_in) \<Rightarrow> nat \<Rightarrow> ram \<Rightarrow> ram" where
  "ram_run x 0 r = r"
| "ram_run x (Suc n) r = ram_step (x n) (ram_run x n r)"

text \<open>
  What the memory chip gets.  The double data rate register of the data pins (\<^verbatim>\<open>iobuf\<close>) delays the data by one
  cycle, but neither the output enable nor the clock gate: in a cycle with the chip selected, the clock on and the
  output enabled the chip takes the half word that \<open>datain\<close> had one cycle before.  The first one after the chip
  is selected is the head of the command, whose topmost bit tells a read.
\<close>

fun commands :: "bool \<Rightarrow> pads \<Rightarrow> pads list \<Rightarrow> u16 list" where
  "commands armed p [] = []"
| "commands armed p (q # qs) =
     (if pad_csn q then commands True q qs
      else if pad_oe_clk q \<and> oe_data q then (if armed then [datain p] else []) @ commands False q qs
      else commands armed q qs)"

section \<open>Invariant\<close>

text \<open>
  \<open>writes\<close>: the sequencer writes data; \<open>own\<close>: the state machine is in the state of this sequencer; \<open>armed\<close>: the chip waits for a command; \<open>p\<close>: the
  half word in front of the pins.
\<close>

definition seq_inv :: "bool \<Rightarrow> bool \<Rightarrow> u16 \<Rightarrow> bool \<Rightarrow> bool \<Rightarrow> 48 word \<Rightarrow> ('c::len, 'e) stm_scheme \<Rightarrow> bool" where
  "seq_inv writes armed p own start ca s \<longleftrightarrow> (start \<longrightarrow> own) \<and>
     (case fsm s of
        STATE_IDLE \<Rightarrow> \<not> oe s \<and> (own \<longrightarrow> \<not> stm_end s) \<and> (start \<longrightarrow> bit ca 47)
      | STATE_CA \<Rightarrow> start \<and> \<not> stm_end s \<and> \<not> csn s \<and>
          (counter s = 0 \<and> \<not> oe s \<and> bit (buffer_out s ! 0) 15 \<or>
           counter s = 1 \<and> oe s \<and> \<not> oe_clk s \<and> bit (buffer_out s ! 0) 15 \<or>
           counter s = 2 \<and> oe s \<and> oe_clk s \<and> bit p 15 \<or>
           counter s \<in> {3, 4} \<and> \<not> armed)
      | STATE_RUN \<Rightarrow> start \<and> \<not> stm_end s \<and> \<not> csn s \<and> \<not> armed \<and> (oe s \<longrightarrow> writes)
      | STATE_DONE \<Rightarrow> start \<and> stm_end s \<and> \<not> oe s)"

text \<open>What the next cycle brings a sequencer: the registers in front of the pins follow the one that is started.\<close>

definition seq_next ::
    "bool \<Rightarrow> bool \<Rightarrow> ('c::len, 'e) stm_scheme \<Rightarrow> bool \<Rightarrow> u16 \<Rightarrow> bool \<Rightarrow> bool \<Rightarrow> 48 word \<Rightarrow> bool" where
  "seq_next armed start s armed' p' own' start' ca' \<longleftrightarrow>
     (start \<longrightarrow> armed' = (csn s \<or> \<not> (oe_clk s \<and> oe s) \<and> armed) \<and> p' = buffer_out s ! 0) \<and>
     (start \<and> \<not> stm_end s \<longrightarrow> start') \<and> (start \<and> stm_end s \<longrightarrow> \<not> start' \<and> \<not> own') \<and> (start' \<longrightarrow> own' \<and> bit ca' 47)"

lemma command_bit: "bit ca 47 \<Longrightarrow> bit (command_halves ca ! 0) 15"
  by (simp add: command_halves_def bit_simps)

lemma rdreg_inv:
  assumes "seq_inv False armed p own start ca s" "seq_next armed start s armed' p' own' start' ca'"
  shows "seq_inv False armed' p' own' start' ca' (rdreg_step False start rwds d ca s)"
  using assms command_bit [of ca]
  by (auto simp: seq_inv_def seq_next_def rdreg_step_def stm_ca_def Let_def split: fsm_state.splits if_splits)

lemma rdmem_inv:
  assumes "seq_inv False armed p own start ca s" "seq_next armed start s armed' p' own' start' ca'"
  shows "seq_inv False armed' p' own' start' ca' (rdmem_step False start rwds d ca s)"
  using assms command_bit [of ca]
  by (auto simp: seq_inv_def seq_next_def rdmem_step_def rdmem_run_def stm_ca_def Let_def split: fsm_state.splits if_splits)

lemma wrmem_inv:
  assumes "seq_inv True armed p own start ca s" "seq_next armed start s armed' p' own' start' ca'"
  shows "seq_inv True armed' p' own' start' ca' (wrmem_step False start rwds b v ca s)"
  using assms command_bit [of ca]
  by (auto simp: seq_inv_def seq_next_def wrmem_step_def wrmem_run_def wrmem_ca_def Let_def nth_append command_halves_def
      split: fsm_state.splits if_splits)

definition ram_inv :: "bool \<Rightarrow> ram \<Rightarrow> bool" where
  "ram_inv armed r \<longleftrightarrow> (let c = ctl r; p = datain (pins r) in
     seq_inv False armed p (hstate c = RDREG) (start_rdreg c) (CA_sigr c) (rdreg r) \<and>
     seq_inv False armed p (hstate c = RDMEM2) (start_rdmem c) (CA_sigr c) (rdmem r) \<and>
     seq_inv True armed p (hstate c = WRMEM2) (start_wrmem c) (CA_sigr c) (wrmem r) \<and>
     (start_wrreg c \<longrightarrow> hstate c = WRREG) \<and> (start_rdmem c \<longrightarrow> rd_tmp c) \<and>
     (start_wrmem c \<longrightarrow> wr_tmp c) \<and> (hstate c \<in> {WRMEM1, WRMEM2} \<longrightarrow> rd_tmp c))"

definition armed_next :: "bool \<Rightarrow> pads \<Rightarrow> bool" where
  "armed_next armed q \<longleftrightarrow> pad_csn q \<or> \<not> (pad_oe_clk q \<and> oe_data q) \<and> armed"

lemma ram_step_sel [simp]:
  "ctl (ram_step x r) = hc_step x r" "pins (ram_step x r) = pads_step x r"
  "rdreg (ram_step x r) = rdreg_step (rst x) (start_rdreg (ctl r)) (rwds_in x) (dataout x) (CA_sigr (ctl r)) (rdreg r)"
  "rdmem (ram_step x r) = rdmem_step (rst x) (start_rdmem (ctl r)) (rwds_in x) (dataout x) (CA_sigr (ctl r)) (rdmem r)"
  "wrmem (ram_step x r) = wrmem_step (rst x) (start_wrmem (ctl r)) (rwds_in x) (buffer_wrmem (ctl r))
     (inbuffer_valid (ctl r)) (CA_sigr (ctl r)) (wrmem r)"
  by (simp_all add: ram_step_def Let_def)

lemma ram_inv_reset: "rst x \<Longrightarrow> ram_inv True (ram_step x r)"
  by (simp add: ram_inv_def hc_step_def hc_reset_def rdreg_step_def rdmem_step_def wrmem_step_def seq_inv_def Let_def)

lemma command_bits: "bit (out_addr a rd) 47 = rd" "bit (csr_command b) 47"
  by (simp_all add: out_addr_def csr_command_def bit_simps)

lemma stop_in_own: "seq_inv w armed p own start ca s \<Longrightarrow> own \<Longrightarrow> stm_end s \<Longrightarrow> start"
  by (auto simp: seq_inv_def split: fsm_state.splits)

lemma ram_inv_next:
  assumes "ram_inv armed r" "\<not> rst x"
  defines "a \<equiv> armed_next armed (pads_step x r)" and "p \<equiv> datain (pads_step x r)" and "c \<equiv> hc_step x r"
  shows "seq_next armed (start_rdreg (ctl r)) (rdreg r) a p (hstate c = RDREG) (start_rdreg c) (CA_sigr c)"
    and "seq_next armed (start_rdmem (ctl r)) (rdmem r) a p (hstate c = RDMEM2) (start_rdmem c) (CA_sigr c)"
    and "seq_next armed (start_wrmem (ctl r)) (wrmem r) a p (hstate c = WRMEM2) (start_wrmem c) (CA_sigr c)"
proof -
  have i: "start_rdreg (ctl r) \<longrightarrow> hstate (ctl r) = RDREG" "start_wrreg (ctl r) \<longrightarrow> hstate (ctl r) = WRREG"
    "start_rdmem (ctl r) \<longrightarrow> hstate (ctl r) = RDMEM2 \<and> rd_tmp (ctl r)" "start_wrmem (ctl r) \<longrightarrow> hstate (ctl r) = WRMEM2 \<and> wr_tmp (ctl r)"
    "hstate (ctl r) \<in> {WRMEM1, WRMEM2} \<longrightarrow> rd_tmp (ctl r)"
    using assms(1) by (auto simp: ram_inv_def seq_inv_def Let_def)
  have e: "hstate (ctl r) = RDREG \<Longrightarrow> stm_end (rdreg r) \<Longrightarrow> start_rdreg (ctl r)"
    "hstate (ctl r) = RDMEM2 \<Longrightarrow> stm_end (rdmem r) \<Longrightarrow> start_rdmem (ctl r)"
    "hstate (ctl r) = WRMEM2 \<Longrightarrow> stm_end (wrmem r) \<Longrightarrow> start_wrmem (ctl r)"
    using assms(1) stop_in_own unfolding ram_inv_def Let_def by metis+
  note defs = a_def p_def c_def seq_next_def armed_next_def hc_step_def pads_step_def hc_idle_def hc_rdmem2_def hc_wrmem2_def
    command_bits Let_def
  show "seq_next armed (start_rdreg (ctl r)) (rdreg r) a p (hstate c = RDREG) (start_rdreg c) (CA_sigr c)"
    using i e assms(2) by (cases "hstate (ctl r)") (auto simp: defs)
  show "seq_next armed (start_rdmem (ctl r)) (rdmem r) a p (hstate c = RDMEM2) (start_rdmem c) (CA_sigr c)"
    using i e assms(2) by (cases "hstate (ctl r)") (auto simp: defs)
  show "seq_next armed (start_wrmem (ctl r)) (wrmem r) a p (hstate c = WRMEM2) (start_wrmem c) (CA_sigr c)"
    using i e assms(2) by (cases "hstate (ctl r)") (auto simp: defs)
qed

lemma ram_inv_step:
  assumes "ram_inv armed r"
  shows "ram_inv (armed_next armed (pads_step x r)) (ram_step x r)"
proof (cases "rst x")
  case True
  then have "armed_next armed (pads_step x r)" by (simp add: armed_next_def pads_step_def Let_def)
  with ram_inv_reset [OF True] show ?thesis by simp
next
  case False
  have e: "hstate (ctl r) = RDMEM2 \<Longrightarrow> stm_end (rdmem r) \<Longrightarrow> start_rdmem (ctl r)"
    using assms stop_in_own unfolding ram_inv_def Let_def by metis
  have c: "(start_wrreg (hc_step x r) \<longrightarrow> hstate (hc_step x r) = WRREG) \<and>
      (start_rdmem (hc_step x r) \<longrightarrow> rd_tmp (hc_step x r)) \<and> (start_wrmem (hc_step x r) \<longrightarrow> wr_tmp (hc_step x r)) \<and>
      (hstate (hc_step x r) \<in> {WRMEM1, WRMEM2} \<longrightarrow> rd_tmp (hc_step x r))"
    using assms False e
    by (cases "hstate (ctl r)")
      (auto simp: ram_inv_def seq_inv_def hc_step_def hc_idle_def hc_rdmem2_def hc_wrmem2_def wrreg_end_def Let_def)
  from assms have s: "seq_inv False armed (datain (pins r)) (hstate (ctl r) = RDREG) (start_rdreg (ctl r)) (CA_sigr (ctl r)) (rdreg r)"
    "seq_inv False armed (datain (pins r)) (hstate (ctl r) = RDMEM2) (start_rdmem (ctl r)) (CA_sigr (ctl r)) (rdmem r)"
    "seq_inv True armed (datain (pins r)) (hstate (ctl r) = WRMEM2) (start_wrmem (ctl r)) (CA_sigr (ctl r)) (wrmem r)"
    by (simp_all add: ram_inv_def Let_def)
  note n = ram_inv_next [OF assms False]
  from c rdreg_inv [OF s(1) n(1)] rdmem_inv [OF s(2) n(2)] wrmem_inv [OF s(3) n(3)] False
  show ?thesis by (simp add: ram_inv_def Let_def)
qed

lemma command_reads:
  assumes "ram_inv True r" "\<not> pad_csn (pads_step x r)" "pad_oe_clk (pads_step x r)" "oe_data (pads_step x r)"
  shows "bit (datain (pins r)) 15"
  using assms
  by (auto simp: ram_inv_def pads_step_def seq_inv_def Let_def split: if_splits fsm_state.splits)

lemma commands_read:
  "ram_inv armed r \<Longrightarrow> w \<in> set (commands armed (pins r) (map pins (ram_trace xs r))) \<Longrightarrow> bit w 15"
proof (induction xs arbitrary: armed r)
  case Nil
  then show ?case by simp
next
  case (Cons x xs)
  from Cons.IH [OF ram_inv_step [OF Cons.prems(1), of x]] Cons.prems command_reads [of r x]
  show ?case by (auto simp: armed_next_def split: if_splits)
qed

section \<open>What an address selects\<close>

lemma out_addr_bit: "bit (out_addr a rd) i \<longleftrightarrow> i = 47 \<and> rd \<or> 17 \<le> i \<and> i < 22 \<and> bit a (i - 12)"
proof -
  have "bit (2 ^ 47 :: 48 word) i \<longleftrightarrow> i = 47" unfolding bit_exp_iff by auto
  moreover have "bit (push_bit 16 (take_bit 6 (push_bit 1 (drop_bit 5 (ucast a :: 48 word))))) i \<longleftrightarrow>
      17 \<le> i \<and> i < 22 \<and> bit a (i - 12)"
    unfolding bit_push_bit_iff bit_take_bit_iff bit_drop_bit_eq bit_ucast_iff comp_def by (auto simp: bit_simps)
  ultimately show ?thesis unfolding out_addr_def bit_or_iff by (cases rd) (simp_all del: push_bit_of_1)
qed

lemma out_addr_same: "out_addr a rd = out_addr b rd \<longleftrightarrow> (\<forall>i \<in> {5..<10}. bit a i = bit b i)"
proof
  assume e: "out_addr a rd = out_addr b rd"
  show "\<forall>i \<in> {5..<10}. bit a i = bit b i"
  proof
    fix i :: nat
    assume i: "i \<in> {5..<10}"
    from e have "bit (out_addr a rd) (i + 12) = bit (out_addr b rd) (i + 12)" by simp
    with i show "bit a i = bit b i" by (simp add: out_addr_bit)
  qed
next
  assume e: "\<forall>i \<in> {5..<10}. bit a i = bit b i"
  show "out_addr a rd = out_addr b rd"
  proof (rule bit_eqI)
    fix i :: nat
    have "i - 12 \<in> {5..<10}" if "17 \<le> i" "i < 22" using that by auto
    with e show "bit (out_addr a rd) i = bit (out_addr b rd) i" by (auto simp: out_addr_bit)
  qed
qed

lemma buffer_addr_same: "buffer_addr a = buffer_addr b \<longleftrightarrow> (\<forall>i < 5. bit a i = bit b i)"
  by (auto simp: buffer_addr_def bit_eq_iff bit_simps)

lemma mod_same: "unat a mod 1024 = unat b mod 1024 \<longleftrightarrow> (\<forall>i < 10. bit a i = bit b i)" for a b :: "22 word"
proof -
  have "unat a mod 1024 = unat b mod 1024 \<longleftrightarrow> take_bit 10 (unat a) = take_bit 10 (unat b)" by (simp add: take_bit_eq_mod)
  also have "\<dots> \<longleftrightarrow> (\<forall>i < 10. bit a i = bit b i)"
    by (auto simp: bit_eq_iff bit_simps)
  finally show ?thesis .
qed

section \<open>Properties\<close>

text \<open>C14: Whatever the processor and the chip do after a reset, further resets at any time included, every command
  the controller puts out after selecting the chip is a read: the chip is never asked to store anything, whatever
  the processor writes.\<close>

theorem hyperram_only_reads:
  assumes "rst x"
  shows "\<forall>w \<in> set (commands True (pins (ram_step x r)) (map pins (ram_trace xs (ram_step x r)))). bit w 15"
  using commands_read [OF ram_inv_reset [OF assms]] by blast

text \<open>C35: Of the 22 bits of a word address the controller uses ten: two addresses get the same command and the
  same place in the buffer exactly when they agree modulo 1024 words, so that the 16 MB of the chip appear as 4 KB
  over and over.\<close>

theorem hyperram_aliases:
  "out_addr a rd = out_addr b rd \<and> buffer_addr a = buffer_addr b \<longleftrightarrow> unat a mod 1024 = unat b mod 1024"
proof -
  have "(\<forall>i < 10. bit a i = bit b i) \<longleftrightarrow> (\<forall>i < 5. bit a i = bit b i) \<and> (\<forall>i \<in> {5..<10}. bit a i = bit b i)"
    by (auto simp: not_less)
  then show ?thesis unfolding mod_same out_addr_same buffer_addr_same by blast
qed

section \<open>Witness\<close>

text \<open>The controller at power-up, and cycles without and with a request.\<close>

definition ram_power_up :: ram where
  "ram_power_up =
     (let h = \<lparr>hstate = ACCDLY, regr = True, regw = True, memr = True, memw = True, prev_regr = True, prev_regw = True,
               prev_memr = True, prev_memw = True, CA_sigr = 5, start_rdreg = True, start_wrreg = True, start_rdmem = True,
               start_wrmem = True, acc_counter = 3, rd_tmp = True, wr_tmp = True, curr_row_id = 1, curr_page_id = 1,
               buffer_wrmem = replicate 8 4, buffer = replicate 8 5, row = True, inbuffer_valid = True, s0_readdata = 9, s0_readdatavalid = True\<rparr>
      in \<lparr>ctl = h,
          pins = \<lparr>captured_s0_address = 1, captured_csr_address = 1, pad_rwds_out = True, pad_rwds_oe = True, datain = 1,
                  oe_data = True, pad_oe_clk = True, pad_csn = False\<rparr>,
          rdreg = \<lparr>fsm = STATE_RUN, counter = 3, buffer_out = replicate 3 6, stm_end = True, oe = True, oe_clk = True, csn = False,
                   rg_valid = True, rg_dataoutr = 4\<rparr>,
          rdmem = \<lparr>fsm = STATE_RUN, counter = 3, buffer_out = replicate 3 6, stm_end = True, oe = True, oe_clk = True, csn = False,
                   inner_counter = True, rm_dataoutr = 4, wordvalid = True\<rparr>,
          wrmem = \<lparr>fsm = STATE_RUN, counter = 3, buffer_out = replicate 19 6, stm_end = True, oe = True, oe_clk = True, csn = False,
                   wm_rwds_out = True, wm_rwds_oe = True\<rparr>\<rparr>)"

definition no_request :: ram_in where
  "no_request = \<lparr>rst = False, csr_read = False, csr_write = False, csr_address = 0, s0_read = False, s0_write = False,
     s0_address = 0, s0_writedata = 0, rwds_in = True, dataout = 7\<rparr>"

theorem hyperram_only_reads_witness:
  "let r = ram_step (no_request\<lparr>rst := True\<rparr>) ram_power_up;
       ws = commands True (pins r) (map pins (ram_trace (no_request\<lparr>s0_write := True\<rparr> # replicate 8 no_request) r))
   in ws = [0x8000] \<and> (\<forall>w \<in> set ws. bit w 15)"
proof -
  let ?r = "ram_step (no_request\<lparr>rst := True\<rparr>) ram_power_up"
  let ?xs = "no_request\<lparr>s0_write := True\<rparr> # replicate 8 no_request"
  have "commands True (pins ?r) (map pins (ram_trace ?xs ?r)) = [0x8000]" by code_simp
  moreover have "\<forall>w \<in> set (commands True (pins ?r) (map pins (ram_trace ?xs ?r))). bit w 15"
    by (rule hyperram_only_reads) simp
  ultimately show ?thesis by (simp only: Let_def simp_thms)
qed

end
