(* ===== verification/HyperRamAccess.thy ===== *)
theory HyperRamAccess
  imports HyperRam
begin

text \<open>
  Whole transactions of the HyperRAM controller, cycle by cycle: what a read of the processor returns and what the
  memory chip is clocked, and the same for a write.
\<close>

section \<open>What the chip takes\<close>

definition chip_takes :: "pads \<Rightarrow> pads \<Rightarrow> u16 list" where
  "chip_takes p q = (if \<not> pad_csn q \<and> pad_oe_clk q \<and> oe_data q then [datain p] else [])"

primrec clocked :: "(nat \<Rightarrow> ram_in) \<Rightarrow> nat \<Rightarrow> ram \<Rightarrow> u16 list" where
  "clocked x 0 r = []"
| "clocked x (Suc n) r = clocked x n r @ chip_takes (pins (ram_run x n r)) (pins (ram_run x (Suc n) r))"

lemma ram_run_add: "ram_run x (m + n) r = ram_run (\<lambda>i. x (m + i)) n (ram_run x m r)"
  by (induction n) simp_all

lemma clocked_add: "clocked x (m + n) r = clocked x m r @ clocked (\<lambda>i. x (m + i)) n (ram_run x m r)"
  by (induction n) (simp_all add: ram_run_add)

section \<open>Between requests\<close>

definition at_rest :: "ram \<Rightarrow> bool" where
  "at_rest r \<longleftrightarrow> (let c = ctl r in
     hstate c = IDLE \<and> \<not> regr c \<and> \<not> regw c \<and> \<not> memr c \<and> \<not> memw c \<and>
     \<not> start_rdreg c \<and> \<not> start_wrreg c \<and> \<not> start_rdmem c \<and> \<not> start_wrmem c \<and> length (buffer c) = 8 \<and>
     fsm (rdreg r) = STATE_IDLE \<and> \<not> oe (rdreg r) \<and> fsm (rdmem r) = STATE_IDLE \<and> fsm (wrmem r) = STATE_IDLE \<and>
     \<not> inner_counter (rdmem r) \<and> \<not> oe (rdmem r) \<and> \<not> oe (wrmem r))"

text \<open>A cycle in which nothing but the request of \<open>a\<close> may still stand at the inputs.\<close>

definition calm :: "22 word \<Rightarrow> ram_in \<Rightarrow> bool" where
  "calm a x \<longleftrightarrow> \<not> rst x \<and> \<not> csr_read x \<and> \<not> csr_write x \<and> (s0_read x \<or> s0_write x \<longrightarrow> s0_address x = a)"

definition quiet :: "ram_in \<Rightarrow> bool" where
  "quiet x \<longleftrightarrow> \<not> rst x \<and> \<not> csr_read x \<and> \<not> csr_write x \<and> \<not> s0_read x \<and> \<not> s0_write x"

definition requests :: "bool \<Rightarrow> 22 word \<Rightarrow> ram_in \<Rightarrow> bool" where
  "requests rd a x \<longleftrightarrow> calm a x \<and> s0_read x = rd \<and> s0_write x = (\<not> rd) \<and> s0_address x = a"

section \<open>A sequencer by itself\<close>

text \<open>
  Once a sequencer is started it runs by itself while the state machine waits.  Its view holds what the next cycle
  depends on: \<open>nxt\<close> is one cycle, \<open>takes\<close> what the chip takes in it.  A run of some cycles, if the sequencer does
  not stop in one before the last:
\<close>

primrec seq_run :: "(ram_in \<Rightarrow> 'v \<Rightarrow> 'v) \<Rightarrow> ('v \<Rightarrow> u16 list) \<Rightarrow> ('v \<Rightarrow> bool) \<Rightarrow> (nat \<Rightarrow> ram_in) \<Rightarrow> nat \<Rightarrow> 'v \<Rightarrow>
    ('v \<times> u16 list) option" where
  "seq_run nxt takes stops x 0 v = Some (v, [])"
| "seq_run nxt takes stops x (Suc n) v =
     (case seq_run nxt takes stops x n v of None \<Rightarrow> None
      | Some (u, out) \<Rightarrow> if stops u then None else Some (nxt (x n) u, out @ takes u))"

lemma seq_run_trans:
  "seq_run nxt takes stops x m v = Some (u, out) \<Longrightarrow> seq_run nxt takes stops (\<lambda>i. x (m + i)) n u = Some (w, out') \<Longrightarrow>
   seq_run nxt takes stops x (m + n) v = Some (w, out @ out')"
  by (induction n arbitrary: w out') (auto split: option.splits if_splits)

lemma seq_run_2:
  "seq_run nxt takes stops x 2 v =
     (let u = nxt (x 0) v in if stops v \<or> stops u then None else Some (nxt (x 1) u, takes v @ takes u))"
  by (simp add: numeral_2_eq_2 Let_def)

lemma seq_run_5:
  "seq_run nxt takes stops x 5 v =
     (let v1 = nxt (x 0) v; v2 = nxt (x 1) v1; v3 = nxt (x 2) v2; v4 = nxt (x 3) v3 in
      if stops v \<or> stops v1 \<or> stops v2 \<or> stops v3 \<or> stops v4 then None
      else Some (nxt (x 4) v4, takes v @ takes v1 @ takes v2 @ takes v3 @ takes v4))"
  by (simp add: eval_nat_numeral Let_def)

text \<open>What a run of the controller has to do with one of its sequencer: the state machine waits in \<open>waits a\<close>.\<close>

locale sequencer =
  fixes waits :: "22 word \<Rightarrow> ram \<Rightarrow> bool" and view :: "ram \<Rightarrow> 'v" and nxt :: "22 word \<Rightarrow> ram_in \<Rightarrow> 'v \<Rightarrow> 'v"
    and takes :: "'v \<Rightarrow> u16 list" and stops :: "'v \<Rightarrow> bool"
  assumes waits_on: "waits a r \<Longrightarrow> calm a x \<Longrightarrow> \<not> stops (view r) \<Longrightarrow> waits a (ram_step x r)"
    and view_step: "waits a r \<Longrightarrow> calm a x \<Longrightarrow> \<not> stops (view r) \<Longrightarrow> view (ram_step x r) = nxt a x (view r)"
    and takes_step: "waits a r \<Longrightarrow> calm a x \<Longrightarrow> \<not> stops (view r) \<Longrightarrow> chip_takes (pins r) (pads_step x r) = takes (view r)"
begin

lemma run:
  assumes "waits a r" "\<forall>i < n. calm a (x i)" "seq_run (nxt a) takes stops x n (view r) = Some (v, out)"
  shows "(\<forall>k \<le> n. waits a (ram_run x k r)) \<and> view (ram_run x n r) = v \<and> clocked x n r = out"
  using assms(2,3)
proof (induction n arbitrary: v out)
  case 0
  with assms(1) show ?case by simp
next
  case (Suc n)
  from Suc.prems(2) obtain u out1 where u: "seq_run (nxt a) takes stops x n (view r) = Some (u, out1)"
    "\<not> stops u" "v = nxt a (x n) u" "out = out1 @ takes u"
    by (auto split: option.splits if_splits)
  from Suc.IH [OF _ u(1)] Suc.prems(1)
  have i: "\<forall>k \<le> n. waits a (ram_run x k r)" "view (ram_run x n r) = u" "clocked x n r = out1" by simp_all
  then have w: "waits a (ram_run x n r)" "\<not> stops (view (ram_run x n r))" using u(2) by simp_all
  from Suc.prems(1) have c: "calm a (x n)" by simp
  from waits_on [OF w(1) c w(2)] view_step [OF w(1) c w(2)] takes_step [OF w(1) c w(2)] i u(3,4)
  show ?case by (simp add: le_Suc_eq)
qed

end

section \<open>The reading sequencer alone\<close>

text \<open>The view: its registers, the words of the buffer, and the half word in front of the pins.\<close>

type_synonym rd_view = "rdmem_stm \<times> u32 list \<times> u16"

fun rd_next :: "48 word \<Rightarrow> ram_in \<Rightarrow> rd_view \<Rightarrow> rd_view" where
  "rd_next ca x (m, b, p) =
     (rdmem_step False True (rwds_in x) (dataout x) ca m, if wordvalid m then tl b @ [rm_dataoutr m] else b,
      buffer_out m ! 0)"

fun rd_takes :: "rd_view \<Rightarrow> u16 list" where
  "rd_takes (m, b, p) = (if \<not> csn m \<and> oe_clk m \<and> oe m then [p] else [])"

fun rd_stops :: "rd_view \<Rightarrow> bool" where
  "rd_stops (m, b, p) = stm_end m"

abbreviation rd_run :: "48 word \<Rightarrow> (nat \<Rightarrow> ram_in) \<Rightarrow> nat \<Rightarrow> rd_view \<Rightarrow> (rd_view \<times> u16 list) option" where
  "rd_run ca \<equiv> seq_run (rd_next ca) rd_takes rd_stops"

text \<open>Waiting for the strobe, then the command.\<close>

definition rd_ca :: "48 word \<Rightarrow> rdmem_stm \<Rightarrow> bool" where
  "rd_ca ca m \<longleftrightarrow> fsm m = STATE_CA \<and> counter m = 0 \<and> buffer_out m = command_halves ca \<and> \<not> csn m \<and> \<not> oe m \<and>
     \<not> stm_end m \<and> \<not> wordvalid m \<and> \<not> inner_counter m"

definition rd_runs :: "6 word \<Rightarrow> rdmem_stm \<Rightarrow> bool" where
  "rd_runs k m \<longleftrightarrow> fsm m = STATE_RUN \<and> counter m = k \<and> \<not> csn m \<and> \<not> oe m \<and> \<not> stm_end m"

lemma rd_wait:
  "rd_ca ca m \<Longrightarrow> (\<forall>i < n. \<not> rwds_in (x i)) \<Longrightarrow> \<exists>q. rd_run ca x n (m, b, p) = Some ((m, b, q), [])"
  by (induction n) (auto simp: rd_ca_def rdmem_step_def stm_ca_def)

lemma rd_command:
  assumes "rd_ca ca m" "rwds_in (x 0)"
  shows "\<exists>m' q. rd_run ca x 5 (m, b, p) = Some ((m', b, q), command_halves ca) \<and> rd_runs 0 m' \<and> \<not> wordvalid m' \<and> \<not> inner_counter m'"
proof -
  obtain c0 c1 c2 where c: "command_halves ca = [c0, c1, c2]" by (simp add: command_halves_def)
  note m = assms(1) [unfolded rd_ca_def c]
  let ?m1 = "m\<lparr>oe := True, oe_clk := False, counter := 1\<rparr>"
  let ?m2 = "m\<lparr>oe := True, oe_clk := True, counter := 2, buffer_out := [c1, c2, 0]\<rparr>"
  let ?m3 = "m\<lparr>oe := True, oe_clk := True, counter := 3, buffer_out := [c2, 0, 0]\<rparr>"
  let ?m4 = "m\<lparr>oe := True, oe_clk := True, counter := 4, buffer_out := [0, 0, 0]\<rparr>"
  let ?m5 = "m\<lparr>oe := False, oe_clk := True, counter := 0, buffer_out := [0, 0, 0], fsm := STATE_RUN\<rparr>"
  note step = rdmem_step_def stm_ca_def
  have 1: "rd_next ca (x 0) (m, b, p) = (?m1, b, c0)" using m assms(2) by (simp add: step)
  have 2: "rd_next ca (x 1) (?m1, b, c0) = (?m2, b, c0)" using m by (simp add: step)
  have 3: "rd_next ca (x 2) (?m2, b, c0) = (?m3, b, c1)" using m by (simp add: step)
  have 4: "rd_next ca (x 3) (?m3, b, c1) = (?m4, b, c2)" using m by (simp add: step)
  have 5: "rd_next ca (x 4) (?m4, b, c2) = (?m5, b, 0)" using m by (simp add: step)
  have "rd_run ca x 5 (m, b, p) = Some ((?m5, b, 0), command_halves ca)"
    unfolding seq_run_5 Let_def 1 2 3 4 5 using m by (simp add: c)
  moreover have "rd_runs 0 ?m5" "\<not> wordvalid ?m5" "\<not> inner_counter ?m5" using m by (simp_all add: rd_runs_def)
  ultimately show ?thesis by blast
qed

lemma rd_latency:
  "rd_runs 0 m \<Longrightarrow> \<not> wordvalid m \<Longrightarrow> \<not> inner_counter m \<Longrightarrow> n \<le> 16 \<Longrightarrow>
   \<exists>m' q. rd_run ca x n (m, b, p) = Some ((m', b, q), []) \<and> rd_runs (of_nat n) m' \<and> \<not> wordvalid m' \<and> \<not> inner_counter m'"
proof (induction n)
  case 0
  then show ?case by simp
next
  case (Suc n)
  then obtain m' q where 1: "rd_run ca x n (m, b, p) = Some ((m', b, q), [])" "rd_runs (of_nat n) m'" "\<not> wordvalid m'"
    "\<not> inner_counter m'" by auto
  from Suc.prems(4) have n: "(of_nat n :: 6 word) \<noteq> 32" "\<not> 15 < (of_nat n :: 6 word)"
    by (auto simp: word_less_nat_alt unat_of_nat word_unat_eq_iff)
  with 1 show ?case
    by (auto simp: rd_runs_def rdmem_step_def rdmem_run_def add.commute)
qed

definition word_of :: "(nat \<Rightarrow> ram_in) \<Rightarrow> nat \<Rightarrow> u32" where
  "word_of x i = word_cat (dataout (x (2 * i))) (dataout (x (2 * i + 1)))"

text \<open>
  The sixteen half words the chip answers with make eight words; each is in the register for the one cycle in which
  the buffer takes it.
\<close>

definition rd_pairs :: "(nat \<Rightarrow> ram_in) \<Rightarrow> u32 list \<Rightarrow> nat \<Rightarrow> rdmem_stm \<Rightarrow> u32 list \<Rightarrow> bool" where
  "rd_pairs x b0 k m b \<longleftrightarrow> rd_runs (of_nat (16 + 2 * k)) m \<and> \<not> inner_counter m \<and>
     (if wordvalid m then tl b @ [rm_dataoutr m] else b) = drop k b0 @ map (word_of x) [0..<k]"

lemma word_pair: "word_cat (ucast (word_cat (h :: u16) (d :: u16) :: u32) :: u16) (e :: u16) = (word_cat d e :: u32)"
  by (rule bit_eqI) (auto simp: bit_simps)

lemma rd_counts:
  "k < 8 \<Longrightarrow> (of_nat (16 + 2 * k) :: 6 word) \<noteq> 32 \<and> 15 < (of_nat (16 + 2 * k) :: 6 word) \<and>
     (of_nat (16 + 2 * k) + 1 :: 6 word) \<noteq> 32 \<and> 15 < (of_nat (16 + 2 * k) + 1 :: 6 word) \<and>
     (of_nat (16 + 2 * k) + 1 + 1 :: 6 word) = of_nat (16 + 2 * Suc k)"
proof -
  have "\<forall>k \<in> set [0..<8]. (of_nat (16 + 2 * k) :: 6 word) \<noteq> 32 \<and> 15 < (of_nat (16 + 2 * k) :: 6 word) \<and>
     (of_nat (16 + 2 * k) + 1 :: 6 word) \<noteq> 32 \<and> 15 < (of_nat (16 + 2 * k) + 1 :: 6 word) \<and>
     (of_nat (16 + 2 * k) + 1 + 1 :: 6 word) = of_nat (16 + 2 * Suc k)"
    by (simp add: upt_rec)
  then show "k < 8 \<Longrightarrow> ?thesis" by simp
qed

lemma rd_pair:
  assumes "rd_pairs x b0 k m b" "k < 8" "length b0 = 8"
  shows "\<exists>m' b' q. rd_run ca (\<lambda>i. x (2 * k + i)) 2 (m, b, p) = Some ((m', b', q), []) \<and> rd_pairs x b0 (Suc k) m' b'"
proof -
  note k = rd_counts [OF assms(2)]
  note m = assms(1) [unfolded rd_pairs_def rd_runs_def]
  let ?b = "if wordvalid m then tl b @ [rm_dataoutr m] else b"
  let ?d = "dataout (x (2 * k))"
  let ?m1 = "m\<lparr>rm_dataoutr := word_cat (ucast (drop_bit 16 (rm_dataoutr m)) :: u16) ?d, inner_counter := True,
    wordvalid := False, counter := of_nat (16 + 2 * k) + 1\<rparr>"
  let ?m2 = "m\<lparr>rm_dataoutr := word_of x k, inner_counter := False, wordvalid := True, counter := of_nat (16 + 2 * Suc k)\<rparr>"
  note step = rdmem_step_def rdmem_run_def
  have 1: "rd_next ca (x (2 * k)) (m, b, p) = (?m1, ?b, buffer_out m ! 0)" using m k by (simp add: step)
  have 2: "rd_next ca (x (2 * k + 1)) (?m1, ?b, buffer_out m ! 0) = (?m2, ?b, buffer_out m ! 0)"
    using m k by (simp add: step word_pair word_of_def)
  have "rd_run ca (\<lambda>i. x (2 * k + i)) 2 (m, b, p) = Some ((?m2, ?b, buffer_out m ! 0), [])"
    unfolding seq_run_2 Let_def using 1 2 m by (simp add:)
  moreover have "rd_pairs x b0 (Suc k) ?m2 ?b" using m assms(2,3) by (simp add: rd_pairs_def rd_runs_def tl_drop drop_Suc)
  ultimately show ?thesis by blast
qed

lemma rd_burst:
  "rd_pairs x b0 0 m b \<Longrightarrow> length b0 = 8 \<Longrightarrow> k \<le> 8 \<Longrightarrow>
   \<exists>m' b' q. rd_run ca x (2 * k) (m, b, p) = Some ((m', b', q), []) \<and> rd_pairs x b0 k m' b'"
proof (induction k)
  case 0
  then show ?case by simp
next
  case (Suc k)
  then obtain m' b' q where 1: "rd_run ca x (2 * k) (m, b, p) = Some ((m', b', q), [])" "rd_pairs x b0 k m' b'" by auto
  from rd_pair [OF 1(2) _ Suc.prems(2), of ca q] Suc.prems(3) obtain m'' b'' q'
    where 2: "rd_run ca (\<lambda>i. x (2 * k + i)) 2 (m', b', q) = Some ((m'', b'', q'), [])" "rd_pairs x b0 (Suc k) m'' b''" by auto
  from seq_run_trans [OF 1(1) 2(1)] 2(2) show ?case by (simp add: add.commute)
qed

text \<open>The whole transaction, from the cycle in which the sequencer sees its start.\<close>

lemma rd_transaction:
  assumes "fsm m = STATE_IDLE" "\<not> oe m" "\<not> inner_counter m" "\<not> stm_end m" "\<not> wordvalid m" "length b = 8"
    and "\<forall>i < w. \<not> rwds_in (x (1 + i))" "rwds_in (x (1 + w))"
  shows "\<exists>m' q. rd_run ca x (39 + w) (m, b, p) = Some ((m', map (word_of (\<lambda>i. x (22 + w + i))) [0..<8], q), command_halves ca) \<and>
    fsm m' = STATE_DONE \<and> stm_end m' \<and> \<not> oe m' \<and> \<not> inner_counter m' \<and> \<not> wordvalid m'"
proof -
  let ?m1 = "rdmem_step False True (rwds_in (x 0)) (dataout (x 0)) ca m"
  have "rd_ca ca ?m1" using assms(1-5) by (simp add: rd_ca_def rdmem_step_def Let_def)
  moreover have 1: "rd_run ca x 1 (m, b, p) = Some ((?m1, b, buffer_out m ! 0), [])"
    using assms(1-5) by (simp add:)
  ultimately obtain q2 where 2: "rd_run ca x (1 + w) (m, b, p) = Some ((?m1, b, q2), [])" "rd_ca ca ?m1"
    using rd_wait [of ca ?m1 w "\<lambda>i. x (1 + i)" b "buffer_out m ! 0"] seq_run_trans [OF 1, of w] assms(7) by fastforce
  from rd_command [OF 2(2), of "\<lambda>i. x (1 + w + i)" b q2] assms(8) obtain m3 q3
    where 3: "rd_run ca (\<lambda>i. x (1 + w + i)) 5 (?m1, b, q2) = Some ((m3, b, q3), command_halves ca)"
      "rd_runs 0 m3" "\<not> wordvalid m3" "\<not> inner_counter m3" by auto
  note r3 = seq_run_trans [OF 2(1) 3(1)]
  from rd_latency [OF 3(2-4), of 16 ca "\<lambda>i. x (1 + w + 5 + i)" b q3] obtain m4 q4
    where 4: "rd_run ca (\<lambda>i. x (1 + w + 5 + i)) 16 (m3, b, q3) = Some ((m4, b, q4), [])"
      "rd_runs 16 m4" "\<not> wordvalid m4" "\<not> inner_counter m4" by auto
  note r4 = seq_run_trans [OF r3 4(1)]
  let ?y = "\<lambda>i. x (1 + w + 5 + 16 + i)"
  have "rd_pairs ?y b 0 m4 b" using 4 by (simp add: rd_pairs_def)
  from rd_burst [OF this assms(6), of 8 ca q4] obtain m5 b5 q5
    where 5: "rd_run ca ?y 16 (m4, b, q4) = Some ((m5, b5, q5), [])" "rd_pairs ?y b 8 m5 b5" by auto
  note r5 = seq_run_trans [OF r4 5(1)]
  let ?m6 = "m5\<lparr>fsm := STATE_DONE, stm_end := True, counter := 0, csn := True, wordvalid := False\<rparr>"
  have "rd_run ca (\<lambda>i. x (1 + w + 5 + 16 + 16 + i)) 1 (m5, b5, q5) =
      Some ((?m6, map (word_of ?y) [0..<8], buffer_out m5 ! 0), [])"
    using 5(2) assms(6) by (simp add: rd_pairs_def rd_runs_def rdmem_step_def rdmem_run_def)
  note r6 = seq_run_trans [OF r5 this]
  have n: "39 + w = 1 + w + 5 + 16 + 16 + 1" "\<And>i. 22 + w + i = 1 + w + 5 + 16 + i" by simp_all
  from r6 have "rd_run ca x (39 + w) (m, b, p) =
      Some ((?m6, map (word_of (\<lambda>i. x (22 + w + i))) [0..<8], buffer_out m5 ! 0), command_halves ca)"
    by (simp only: append_Nil append_Nil2 n)
  moreover have "fsm ?m6 = STATE_DONE \<and> stm_end ?m6 \<and> \<not> oe ?m6 \<and> \<not> inner_counter ?m6 \<and> \<not> wordvalid ?m6"
    using 5(2) by (simp add: rd_pairs_def rd_runs_def)
  ultimately show ?thesis by blast
qed

section \<open>Fetching a page\<close>

text \<open>While the state machine waits for the reading sequencer, the rest of the controller stands still.\<close>

definition fetching :: "22 word \<Rightarrow> bool \<Rightarrow> ram \<Rightarrow> bool" where
  "fetching a rd r \<longleftrightarrow> (let c = ctl r in
     captured_s0_address (pins r) = a \<and> hstate c = RDMEM2 \<and> row c = rd \<and> start_rdmem c \<and> rd_tmp c \<and>
     CA_sigr c = out_addr a True \<and> \<not> start_rdreg c \<and> \<not> start_wrreg c \<and> \<not> start_wrmem c \<and> \<not> wr_tmp c \<and>
     \<not> inbuffer_valid c \<and> \<not> s0_readdatavalid c \<and> \<not> regr c \<and> \<not> regw c \<and> acc_counter c = 8 \<and>
     fsm (rdreg r) = STATE_IDLE \<and> \<not> oe (rdreg r) \<and> fsm (wrmem r) = STATE_IDLE \<and> \<not> oe (wrmem r))"

definition rd_view_of :: "ram \<Rightarrow> rd_view" where
  "rd_view_of r = (rdmem r, buffer (ctl r), datain (pins r))"

lemma idle_stays:
  "fsm g = STATE_IDLE \<Longrightarrow> fsm (rdreg_step False False rw d ca g) = STATE_IDLE"
  "fsm g = STATE_IDLE \<Longrightarrow> oe (rdreg_step False False rw d ca g) = oe g"
  "fsm g = STATE_IDLE \<Longrightarrow> \<not> stm_end (rdreg_step False False rw d ca g)"
  "fsm m = STATE_IDLE \<Longrightarrow> fsm (rdmem_step False False rw d ca m) = STATE_IDLE"
  "fsm m = STATE_IDLE \<Longrightarrow> oe (rdmem_step False False rw d ca m) = oe m"
  "fsm m = STATE_IDLE \<Longrightarrow> inner_counter (rdmem_step False False rw d ca m) = inner_counter m"
  "fsm m = STATE_IDLE \<Longrightarrow> \<not> stm_end (rdmem_step False False rw d ca m)"
  "fsm m = STATE_IDLE \<Longrightarrow> \<not> wordvalid (rdmem_step False False rw d ca m)"
  "fsm s = STATE_IDLE \<Longrightarrow> fsm (wrmem_step False False rw b v ca s) = STATE_IDLE"
  "fsm s = STATE_IDLE \<Longrightarrow> oe (wrmem_step False False rw b v ca s) = oe s"
  "fsm s = STATE_IDLE \<Longrightarrow> \<not> stm_end (wrmem_step False False rw b v ca s)"
  by (simp_all add: rdreg_step_def rdmem_step_def wrmem_step_def Let_def)

lemma fetch_step:
  assumes "fetching a rd r" "calm a x" "\<not> rd_stops (rd_view_of r)"
  shows "fetching a rd (ram_step x r)" "rd_view_of (ram_step x r) = rd_next (out_addr a True) x (rd_view_of r)"
    "chip_takes (pins r) (pads_step x r) = rd_takes (rd_view_of r)"
  using assms
  by (auto simp: fetching_def rd_view_of_def chip_takes_def calm_def hc_step_def pads_step_def
      hc_rdmem2_def idle_stays Let_def)

interpretation reading: sequencer "\<lambda>a. fetching a rd" rd_view_of "\<lambda>a. rd_next (out_addr a True)" rd_takes rd_stops for rd
  by unfold_locales (simp_all add: fetch_step)

text \<open>From a request to the start of the sequencer.\<close>

definition prepared :: "22 word \<Rightarrow> ram \<Rightarrow> bool" where
  "prepared a r \<longleftrightarrow> (let c = ctl r in
     captured_s0_address (pins r) = a \<and> \<not> s0_readdatavalid c \<and> \<not> regr c \<and> \<not> regw c \<and>
     \<not> start_rdreg c \<and> \<not> start_wrreg c \<and> \<not> start_rdmem c \<and> \<not> start_wrmem c \<and> length (buffer c) = 8 \<and>
     fsm (rdreg r) = STATE_IDLE \<and> \<not> oe (rdreg r) \<and> fsm (rdmem r) = STATE_IDLE \<and> fsm (wrmem r) = STATE_IDLE \<and>
     \<not> oe (rdmem r) \<and> \<not> oe (wrmem r) \<and> \<not> inner_counter (rdmem r) \<and> \<not> stm_end (rdmem r) \<and> \<not> wordvalid (rdmem r))"

lemma deselected: "\<not> start_rdreg (ctl r) \<and> \<not> start_wrreg (ctl r) \<and> \<not> start_rdmem (ctl r) \<and> \<not> start_wrmem (ctl r) \<Longrightarrow>
    chip_takes p (pads_step x r) = []"
  by (simp add: chip_takes_def pads_step_def Let_def)

lemma prepared_1:
  assumes "at_rest r" "requests rd a x"
  defines "c \<equiv> hc_step x r"
  shows "prepared a (ram_step x r) \<and> hstate c = IDLE \<and> memr c = rd \<and> memw c = (\<not> rd) \<and> \<not> prev_memr c \<and> \<not> prev_memw c"
  using assms(1,2) unfolding c_def
  by (simp add: at_rest_def requests_def calm_def prepared_def hc_step_def hc_idle_def pads_step_def idle_stays Let_def)

lemma prepared_2:
  assumes "prepared a r" "calm a x" "hstate (ctl r) = IDLE" "memr (ctl r) = rd" "memw (ctl r) = (\<not> rd)"
    and "\<not> prev_memr (ctl r)" "\<not> prev_memw (ctl r)"
  defines "c \<equiv> hc_step x r"
  shows "prepared a (ram_step x r) \<and> hstate c = RDMEM2 \<and> row c = rd \<and> \<not> rd_tmp c \<and> \<not> wr_tmp c \<and>
    \<not> inbuffer_valid c \<and> acc_counter c = 8"
  using assms(1-7) unfolding c_def
  by (cases rd) (simp_all add: calm_def prepared_def hc_step_def hc_idle_def pads_step_def idle_stays Let_def)

lemma prepared_3:
  assumes "prepared a r" "calm a x" "hstate (ctl r) = RDMEM2" "row (ctl r) = rd" "\<not> rd_tmp (ctl r)" "\<not> wr_tmp (ctl r)"
    and "\<not> inbuffer_valid (ctl r)" "acc_counter (ctl r) = 8"
  defines "c \<equiv> hc_step x r"
  shows "prepared a (ram_step x r) \<and> hstate c = RDMEM2 \<and> row c = rd \<and> rd_tmp c \<and> \<not> wr_tmp c \<and>
    \<not> inbuffer_valid c \<and> acc_counter c = 8"
  using assms(1-8) unfolding c_def
  by (simp add: calm_def prepared_def hc_step_def hc_rdmem2_def pads_step_def idle_stays Let_def)

lemma prepared_4:
  assumes "prepared a r" "calm a x" "hstate (ctl r) = RDMEM2" "row (ctl r) = rd" "rd_tmp (ctl r)" "\<not> wr_tmp (ctl r)"
    and "\<not> inbuffer_valid (ctl r)" "acc_counter (ctl r) = 8"
  defines "s \<equiv> ram_step x r"
  shows "fetching a rd s \<and> fsm (rdmem s) = STATE_IDLE \<and> \<not> oe (rdmem s) \<and> \<not> inner_counter (rdmem s) \<and> \<not> stm_end (rdmem s) \<and>
    \<not> wordvalid (rdmem s) \<and> length (buffer (ctl s)) = 8"
  using assms(1-8) unfolding s_def
  by (simp add: calm_def prepared_def fetching_def hc_step_def hc_rdmem2_def pads_step_def idle_stays Let_def)

lemma fetch_start:
  assumes "at_rest r" "requests rd a (x 0)" "\<forall>i. 0 < i \<longrightarrow> calm a (x i)"
  defines "s \<equiv> ram_run x 4 r"
  shows "fetching a rd s \<and> fsm (rdmem s) = STATE_IDLE \<and> \<not> oe (rdmem s) \<and> \<not> inner_counter (rdmem s) \<and> \<not> stm_end (rdmem s) \<and>
    \<not> wordvalid (rdmem s) \<and> length (buffer (ctl s)) = 8 \<and> clocked x 4 r = [] \<and>
    (\<forall>n. 0 < n \<and> n < 4 \<longrightarrow> \<not> s0_readdatavalid (ctl (ram_run x n r)))"
proof -
  define r1 where "r1 = ram_step (x 0) r"
  define r2 where "r2 = ram_step (x 1) r1"
  define r3 where "r3 = ram_step (x 2) r2"
  have c: "calm a (x 1)" "calm a (x 2)" "calm a (x 3)" using assms(3) by simp_all
  have 1: "prepared a r1 \<and> hstate (ctl r1) = IDLE \<and> memr (ctl r1) = rd \<and> memw (ctl r1) = (\<not> rd) \<and>
      \<not> prev_memr (ctl r1) \<and> \<not> prev_memw (ctl r1)"
    using prepared_1 [OF assms(1,2)] by (simp add: r1_def)
  then have 2: "prepared a r2 \<and> hstate (ctl r2) = RDMEM2 \<and> row (ctl r2) = rd \<and> \<not> rd_tmp (ctl r2) \<and> \<not> wr_tmp (ctl r2) \<and>
      \<not> inbuffer_valid (ctl r2) \<and> acc_counter (ctl r2) = 8"
    using prepared_2 [of a r1 "x 1" rd] c(1) by (simp add: r2_def)
  then have 3: "prepared a r3 \<and> hstate (ctl r3) = RDMEM2 \<and> row (ctl r3) = rd \<and> rd_tmp (ctl r3) \<and> \<not> wr_tmp (ctl r3) \<and>
      \<not> inbuffer_valid (ctl r3) \<and> acc_counter (ctl r3) = 8"
    using prepared_3 [of a r2 "x 2" rd] c(2) by (simp add: r3_def)
  have s: "s = ram_step (x 3) r3" by (simp add: s_def r1_def r2_def r3_def eval_nat_numeral)
  have "clocked x 4 r = chip_takes (pins r) (pads_step (x 0) r) @ chip_takes (pins r1) (pads_step (x 1) r1) @
      chip_takes (pins r2) (pads_step (x 2) r2) @ chip_takes (pins r3) (pads_step (x 3) r3)"
    by (simp add: r1_def r2_def r3_def eval_nat_numeral)
  also have "\<dots> = []" using assms(1) 1 2 3 by (simp add: deselected at_rest_def prepared_def Let_def)
  finally have "clocked x 4 r = []" .
  moreover have "\<not> s0_readdatavalid (ctl (ram_run x n r))" if "0 < n" "n < 4" for n
  proof -
    from that have "n \<in> {1, 2, 3}" by auto
    moreover have "ram_run x 1 r = r1" "ram_run x 2 r = r2" "ram_run x 3 r = r3"
      by (simp_all add: r1_def r2_def r3_def eval_nat_numeral)
    ultimately show ?thesis using 1 2 3 by (auto simp: prepared_def Let_def)
  qed
  ultimately show ?thesis using prepared_4 [of a r3 "x 3" rd] 3 c(3) by (simp add: s)
qed

text \<open>The page is in the buffer.\<close>

definition fetched :: "22 word \<Rightarrow> bool \<Rightarrow> u32 list \<Rightarrow> ram \<Rightarrow> bool" where
  "fetched a rd ws r \<longleftrightarrow> (let c = ctl r in
     captured_s0_address (pins r) = a \<and> hstate c = (if rd then RDMEM1 else WRMEM1) \<and> buffer c = ws \<and> rd_tmp c \<and> \<not> wr_tmp c \<and>
     acc_counter c = 8 \<and> \<not> s0_readdatavalid c \<and> \<not> regr c \<and> \<not> regw c \<and>
     \<not> start_rdreg c \<and> \<not> start_wrreg c \<and> \<not> start_rdmem c \<and> \<not> start_wrmem c \<and>
     fsm (rdreg r) = STATE_IDLE \<and> \<not> oe (rdreg r) \<and> fsm (rdmem r) = STATE_IDLE \<and> fsm (wrmem r) = STATE_IDLE \<and>
     \<not> oe (rdmem r) \<and> \<not> oe (wrmem r) \<and> \<not> inner_counter (rdmem r))"

lemma fetch_end:
  assumes "fetching a rd r" "calm a x" "fsm (rdmem r) = STATE_DONE" "stm_end (rdmem r)" "\<not> oe (rdmem r)"
    and "\<not> inner_counter (rdmem r)" "\<not> wordvalid (rdmem r)"
  shows "fetched a rd (buffer (ctl r)) (ram_step x r) \<and> chip_takes (pins r) (pads_step x r) = []"
  using assms
  by (simp add: fetching_def fetched_def calm_def chip_takes_def hc_step_def hc_rdmem2_def pads_step_def idle_stays
      rdmem_step_def Let_def)

definition burst :: "(nat \<Rightarrow> ram_in) \<Rightarrow> u32 list" where
  "burst x = map (word_of x) [0..<8]"

lemma fetch:
  assumes "at_rest r" "requests rd a (x 0)" "\<forall>i. 0 < i \<longrightarrow> calm a (x i)"
    and "\<forall>i < w. \<not> rwds_in (x (5 + i))" "rwds_in (x (5 + w))"
  shows "fetched a rd (burst (\<lambda>i. x (26 + w + i))) (ram_run x (44 + w) r) \<and>
    clocked x (44 + w) r = command_halves (out_addr a True) \<and>
    (\<forall>n. 0 < n \<and> n \<le> 44 + w \<longrightarrow> \<not> s0_readdatavalid (ctl (ram_run x n r)))"
proof -
  let ?ca = "out_addr a True" let ?s = "ram_run x 4 r" let ?y = "\<lambda>i. x (4 + i)" let ?t = "ram_run x (43 + w) r"
  note s = fetch_start [OF assms(1-3)]
  have y: "\<forall>i < w. \<not> rwds_in (?y (1 + i))" "rwds_in (?y (1 + w))" using assms(4,5) by simp_all
  from s rd_transaction [OF _ _ _ _ _ _ y, of "rdmem ?s" "buffer (ctl ?s)" ?ca "datain (pins ?s)"] obtain m' q
    where m: "rd_run ?ca ?y (39 + w) (rd_view_of ?s) = Some ((m', burst (\<lambda>i. ?y (22 + w + i)), q), command_halves ?ca)"
      "fsm m' = STATE_DONE \<and> stm_end m' \<and> \<not> oe m' \<and> \<not> inner_counter m' \<and> \<not> wordvalid m'"
    by (auto simp: rd_view_of_def burst_def)
  have c: "\<forall>i < 39 + w. calm a (?y i)" using assms(3) by simp
  from reading.run [OF conjunct1 [OF s] c m(1)] have f: "\<forall>k \<le> 39 + w. fetching a rd (ram_run ?y k ?s)"
    "rd_view_of (ram_run ?y (39 + w) ?s) = (m', burst (\<lambda>i. ?y (22 + w + i)), q)"
    "clocked ?y (39 + w) ?s = command_halves ?ca" by simp_all
  have n: "43 + w = 4 + (39 + w)" "44 + w = Suc (43 + w)" by simp_all
  have t: "fetching a rd ?t" "rdmem ?t = m'" "buffer (ctl ?t) = burst (\<lambda>i. x (26 + w + i))"
    "clocked x (43 + w) r = command_halves ?ca"
    using f s unfolding n(1) ram_run_add [of x 4] clocked_add [of x 4] by (simp_all add: rd_view_of_def add.assoc)
  have "ram_run x (44 + w) r = ram_step (x (43 + w)) ?t"
    "clocked x (44 + w) r = clocked x (43 + w) r @ chip_takes (pins ?t) (pads_step (x (43 + w)) ?t)"
    by (simp_all only: n(2) ram_run.simps clocked.simps ram_step_sel)
  with fetch_end [OF t(1), of "x (43 + w)"] t m(2) assms(3)
  have e: "fetched a rd (burst (\<lambda>i. x (26 + w + i))) (ram_run x (44 + w) r)" "clocked x (44 + w) r = command_halves ?ca"
    by simp_all
  have "\<not> s0_readdatavalid (ctl (ram_run x n r))" if "0 < n" "n \<le> 44 + w" for n
  proof (cases "n < 4 \<or> n = 44 + w")
    case True
    with s e(1) that(1) show ?thesis by (auto simp: fetched_def Let_def)
  next
    case False
    define k where "k = n - 4"
    from False that have "n = 4 + k" "k \<le> 39 + w" by (auto simp: k_def)
    with f(1) ram_run_add [of x 4 k r] show ?thesis by (auto simp: fetching_def Let_def)
  qed
  with e show ?thesis by blast
qed

section \<open>A read\<close>

lemma read_end:
  assumes "fetched a True ws r" "calm a x"
  shows "s0_readdatavalid (hc_step x r) \<and> s0_readdata (hc_step x r) = buffer_read (buffer_addr a) ws \<and>
    chip_takes (pins r) (pads_step x r) = [] \<and> (quiet x \<and> length ws = 8 \<longrightarrow> at_rest (ram_step x r))"
  using assms deselected [of r "pins r" x]
  by (simp add: fetched_def at_rest_def calm_def quiet_def hc_step_def idle_stays Let_def)

lemma buffer_addr_unat: "unat (buffer_addr a) = unat a mod 32"
  by (simp add: buffer_addr_def unsigned_ucast_eq take_bit_eq_mod)

lemma read_returns:
  assumes "at_rest r" "requests True a (x 0)" "\<forall>i. 0 < i \<longrightarrow> calm a (x i)"
    and "\<forall>i < w. \<not> rwds_in (x (5 + i))" "rwds_in (x (5 + w))"
  defines "s \<equiv> ram_run x (45 + w) r"
  shows "s0_readdatavalid (ctl s) \<and> s0_readdata (ctl s) = buffer_read (buffer_addr a) (burst (\<lambda>i. x (26 + w + i))) \<and>
    (\<forall>n. 0 < n \<and> n < 45 + w \<longrightarrow> \<not> s0_readdatavalid (ctl (ram_run x n r))) \<and>
    clocked x (45 + w) r = command_halves (out_addr a True) \<and> (quiet (x (44 + w)) \<longrightarrow> at_rest s)"
proof -
  note f = fetch [OF assms(1-5)]
  have n: "45 + w = Suc (44 + w)" by simp
  have "s = ram_step (x (44 + w)) (ram_run x (44 + w) r)" unfolding s_def by (simp only: n ram_run.simps)
  moreover have "clocked x (45 + w) r = clocked x (44 + w) r @
      chip_takes (pins (ram_run x (44 + w) r)) (pads_step (x (44 + w)) (ram_run x (44 + w) r))"
    by (simp only: n clocked.simps ram_run.simps ram_step_sel)
  moreover have "n < 45 + w \<Longrightarrow> n \<le> 44 + w" for n by simp
  ultimately show ?thesis using f read_end [OF conjunct1 [OF f], of "x (44 + w)"] assms(3) by (simp add: burst_def)
qed

end
