(* ===== verification/HyperRamWrite.thy ===== *)
theory HyperRamWrite
  imports HyperRamAccess
begin

text \<open>
  The write transaction of the HyperRAM controller: the page is read into the buffer, the word goes into the buffer,
  and the buffer goes to the chip.
\<close>

section \<open>The writing sequencer alone\<close>

text \<open>The view: its registers and the half word in front of the pins.\<close>

type_synonym wr_view = "wrmem_stm \<times> u16"

fun wr_next :: "48 word \<Rightarrow> ram_in \<Rightarrow> wr_view \<Rightarrow> wr_view" where
  "wr_next ca x (m, p) = (wrmem_step False True (rwds_in x) [] False ca m, buffer_out m ! 0)"

fun wr_takes :: "wr_view \<Rightarrow> u16 list" where
  "wr_takes (m, p) = (if \<not> csn m \<and> oe_clk m \<and> oe m then [p] else [])"

fun wr_stops :: "wr_view \<Rightarrow> bool" where
  "wr_stops (m, p) = stm_end m"

abbreviation wr_run :: "48 word \<Rightarrow> (nat \<Rightarrow> ram_in) \<Rightarrow> nat \<Rightarrow> wr_view \<Rightarrow> (wr_view \<times> u16 list) option" where
  "wr_run ca \<equiv> seq_run (wr_next ca) wr_takes wr_stops"

definition wr_ca :: "48 word \<Rightarrow> u16 list \<Rightarrow> wrmem_stm \<Rightarrow> bool" where
  "wr_ca ca hw m \<longleftrightarrow> fsm m = STATE_CA \<and> counter m = 0 \<and> buffer_out m = command_halves ca @ hw \<and> \<not> csn m \<and> \<not> oe m \<and>
     \<not> stm_end m"

definition wr_runs :: "u16 list \<Rightarrow> 5 word \<Rightarrow> wrmem_stm \<Rightarrow> bool" where
  "wr_runs hw k m \<longleftrightarrow> fsm m = STATE_RUN \<and> counter m = k \<and> buffer_out m = hw @ [0, 0, 0] \<and> \<not> csn m \<and> \<not> oe m \<and> \<not> stm_end m"

definition wr_data :: "u16 list \<Rightarrow> nat \<Rightarrow> wr_view \<Rightarrow> bool" where
  "wr_data hw k v \<longleftrightarrow> (case v of (m, p) \<Rightarrow> fsm m = STATE_RUN \<and> counter m = of_nat (14 + k) \<and>
     buffer_out m = drop (Suc k) hw @ replicate (4 + k) 0 \<and> \<not> csn m \<and> oe m \<and> oe_clk m \<and> \<not> stm_end m \<and> p = hw ! k)"

lemma wr_wait:
  "wr_ca ca hw m \<Longrightarrow> (\<forall>i < n. \<not> rwds_in (x i)) \<Longrightarrow> \<exists>q. wr_run ca x n (m, p) = Some ((m, q), [])"
  by (induction n) (auto simp: wr_ca_def wrmem_step_def wrmem_ca_def)

lemma wr_command:
  assumes "wr_ca ca hw m" "rwds_in (x 0)"
  shows "\<exists>m' q. wr_run ca x 5 (m, p) = Some ((m', q), command_halves ca) \<and> wr_runs hw 0 m'"
proof -
  obtain c0 c1 c2 where c: "command_halves ca = [c0, c1, c2]" by (simp add: command_halves_def)
  note m = assms(1) [unfolded wr_ca_def c]
  let ?m1 = "m\<lparr>oe := True, oe_clk := False, counter := 1\<rparr>"
  let ?m2 = "m\<lparr>oe := True, oe_clk := True, counter := 2, buffer_out := [c1, c2] @ hw @ [0]\<rparr>"
  let ?m3 = "m\<lparr>oe := True, oe_clk := True, counter := 3, buffer_out := [c2] @ hw @ [0, 0]\<rparr>"
  let ?m4 = "m\<lparr>oe := True, oe_clk := True, counter := 4, buffer_out := hw @ [0, 0, 0]\<rparr>"
  let ?m5 = "m\<lparr>oe := False, oe_clk := True, counter := 0, buffer_out := hw @ [0, 0, 0], fsm := STATE_RUN\<rparr>"
  note step = wrmem_step_def wrmem_ca_def
  have 1: "wr_next ca (x 0) (m, p) = (?m1, c0)" using m assms(2) by (simp add: step)
  have 2: "wr_next ca (x 1) (?m1, c0) = (?m2, c0)" using m by (simp add: step)
  have 3: "wr_next ca (x 2) (?m2, c0) = (?m3, c1)" using m by (simp add: step)
  have 4: "wr_next ca (x 3) (?m3, c1) = (?m4, c2)" using m by (simp add: step)
  have 5: "wr_next ca (x 4) (?m4, c2) = (?m5, (hw @ [0, 0, 0]) ! 0)" using m by (simp add: step)
  have "wr_run ca x 5 (m, p) = Some ((?m5, (hw @ [0, 0, 0]) ! 0), command_halves ca)"
    unfolding seq_run_5 Let_def 1 2 3 4 5 using m by (simp add: c)
  moreover have "wr_runs hw 0 ?m5" using m by (simp add: wr_runs_def)
  ultimately show ?thesis by blast
qed

lemma wr_latency:
  "wr_runs hw 0 m \<Longrightarrow> n \<le> 13 \<Longrightarrow> \<exists>m' q. wr_run ca x n (m, p) = Some ((m', q), []) \<and> wr_runs hw (of_nat n) m'"
proof (induction n)
  case 0
  then show ?case by simp
next
  case (Suc n)
  then obtain m' q where 1: "wr_run ca x n (m, p) = Some ((m', q), [])" "wr_runs hw (of_nat n) m'" by auto
  from Suc.prems(2) have n: "(of_nat n :: 5 word) \<noteq> 29" "\<not> 12 < (of_nat n :: 5 word)"
    by (auto simp: word_less_nat_alt unat_of_nat word_unat_eq_iff)
  with 1 show ?case by (auto simp: wr_runs_def wrmem_step_def wrmem_run_def add.commute)
qed

lemma wr_counts:
  "k < 15 \<Longrightarrow> (of_nat (14 + k) :: 5 word) \<noteq> 29 \<and> 12 < (of_nat (14 + k) :: 5 word) \<and>
     (of_nat (14 + k) + 1 :: 5 word) = of_nat (14 + Suc k)"
proof -
  have "\<forall>k \<in> set [0..<15]. (of_nat (14 + k) :: 5 word) \<noteq> 29 \<and> 12 < (of_nat (14 + k) :: 5 word) \<and>
     (of_nat (14 + k) + 1 :: 5 word) = of_nat (14 + Suc k)"
    by (simp add: upt_rec)
  then show "k < 15 \<Longrightarrow> ?thesis" by simp
qed

lemma wr_shift:
  assumes "wr_data hw k (m, p)" "k < 15" "length hw = 16"
  shows "\<not> wr_stops (m, p) \<and> wr_takes (m, p) = [hw ! k] \<and> wr_data hw (Suc k) (wr_next ca x (m, p))"
proof -
  have "replicate (5 + k) (0 :: u16) = 0 # replicate (4 + k) 0" by (simp add: numeral_eq_Suc)
  then show ?thesis using assms wr_counts [OF assms(2)]
    by (simp add: wr_data_def wrmem_step_def wrmem_run_def tl_drop drop_Suc nth_append nth_tl replicate_append_same)
qed

lemma wr_burst:
  "wr_data hw 0 v \<Longrightarrow> length hw = 16 \<Longrightarrow> n \<le> 15 \<Longrightarrow>
   \<exists>v'. wr_run ca x n v = Some (v', take n hw) \<and> wr_data hw n v'"
proof (induction n)
  case 0
  then show ?case by simp
next
  case (Suc n)
  then obtain v' where 1: "wr_run ca x n v = Some (v', take n hw)" "wr_data hw n v'" by auto
  obtain m p where v: "v' = (m, p)" by fastforce
  from wr_shift [OF 1(2) [unfolded v] _ Suc.prems(2), of ca "x n"] Suc.prems(2,3) 1(1) show ?case
    by (simp add: v take_Suc_conv_app_nth del: wr_next.simps wr_takes.simps wr_stops.simps)
qed

text \<open>The whole transaction, from the cycle in which the sequencer sees its start.\<close>

lemma wr_transaction:
  assumes "fsm m = STATE_IDLE" "\<not> oe m" "drop 3 (buffer_out m) = hw" "length hw = 16"
    and "\<not> stm_end m" "\<forall>i < v. \<not> rwds_in (x (1 + i))" "rwds_in (x (1 + v))"
  shows "\<exists>m' q. wr_run ca x (36 + v) (m, p) = Some ((m', q), command_halves ca @ hw) \<and>
    fsm m' = STATE_DONE \<and> stm_end m' \<and> \<not> oe m'"
proof -
  let ?m1 = "wrmem_step False True (rwds_in (x 0)) [] False ca m"
  have "wr_ca ca hw ?m1" using assms(1-5) by (simp add: wr_ca_def wrmem_step_def Let_def)
  moreover have 1: "wr_run ca x 1 (m, p) = Some ((?m1, buffer_out m ! 0), [])" using assms(1-5) by simp
  ultimately obtain q2 where 2: "wr_run ca x (1 + v) (m, p) = Some ((?m1, q2), [])" "wr_ca ca hw ?m1"
    using wr_wait [of ca hw ?m1 v "\<lambda>i. x (1 + i)" "buffer_out m ! 0"] seq_run_trans [OF 1, of v] assms(6) by fastforce
  from wr_command [OF 2(2), of "\<lambda>i. x (1 + v + i)" q2] assms(7) obtain m3 q3
    where 3: "wr_run ca (\<lambda>i. x (1 + v + i)) 5 (?m1, q2) = Some ((m3, q3), command_halves ca)" "wr_runs hw 0 m3" by auto
  note r3 = seq_run_trans [OF 2(1) 3(1)]
  from wr_latency [OF 3(2), of 13 ca "\<lambda>i. x (1 + v + 5 + i)" q3] obtain m4 q4
    where 4: "wr_run ca (\<lambda>i. x (1 + v + 5 + i)) 13 (m3, q3) = Some ((m4, q4), [])" "wr_runs hw 13 m4" by auto
  note r4 = seq_run_trans [OF r3 4(1)]
  let ?v5 = "wr_next ca (x (1 + v + 5 + 13)) (m4, q4)"
  have 5: "wr_run ca (\<lambda>i. x (1 + v + 5 + 13 + i)) 1 (m4, q4) = Some (?v5, [])" using 4(2) by (simp add: wr_runs_def)
  note r5 = seq_run_trans [OF r4 5]
  have "replicate 4 (0 :: u16) = [0, 0, 0, 0]" by (simp add: eval_nat_numeral)
  moreover have "hw \<noteq> []" using assms(4) by auto
  ultimately have "wr_data hw 0 ?v5" using 4(2) assms(4)
    by (simp add: wr_runs_def wr_data_def wrmem_step_def wrmem_run_def drop_Suc nth_append)
  from wr_burst [OF this assms(4), of 15 ca "\<lambda>i. x (1 + v + 5 + 13 + 1 + i)"] obtain m6 q6
    where 6: "wr_run ca (\<lambda>i. x (1 + v + 5 + 13 + 1 + i)) 15 ?v5 = Some ((m6, q6), take 15 hw)" "wr_data hw 15 (m6, q6)"
    by (auto simp del: wr_next.simps)
  note r6 = seq_run_trans [OF r5 6(1)]
  let ?v7 = "wr_next ca (x (1 + v + 5 + 13 + 1 + 15)) (m6, q6)"
  have 7: "wr_run ca (\<lambda>i. x (1 + v + 5 + 13 + 1 + 15 + i)) 1 (m6, q6) = Some (?v7, [hw ! 15])"
    using 6(2) by (simp add: wr_data_def)
  note r7 = seq_run_trans [OF r6 7]
  have n: "36 + v = 1 + v + 5 + 13 + 1 + 15 + 1" by simp
  have hw: "take 15 hw @ [hw ! 15] = hw" using assms(4) take_Suc_conv_app_nth [of 15 hw] by simp
  from r7 have "wr_run ca x (36 + v) (m, p) = Some (?v7, command_halves ca @ hw)"
    by (simp only: n append_Nil append_Nil2 append_assoc hw)
  moreover have "fsm (fst ?v7) = STATE_DONE \<and> stm_end (fst ?v7) \<and> \<not> oe (fst ?v7)"
    using 6(2) by (simp add: wr_data_def wrmem_step_def wrmem_run_def)
  ultimately show ?thesis by (cases ?v7) (simp del: wr_next.simps)
qed

section \<open>The state machine around it\<close>

definition writing :: "22 word \<Rightarrow> u32 list \<Rightarrow> ram \<Rightarrow> bool" where
  "writing a b r \<longleftrightarrow> (let c = ctl r in
     captured_s0_address (pins r) = a \<and> hstate c = WRMEM2 \<and> start_wrmem c \<and> wr_tmp c \<and> rd_tmp c \<and> buffer c = b \<and>
     CA_sigr c = out_addr a True \<and> \<not> start_rdreg c \<and> \<not> start_wrreg c \<and> \<not> start_rdmem c \<and>
     \<not> inbuffer_valid c \<and> \<not> s0_readdatavalid c \<and> \<not> regr c \<and> \<not> regw c \<and> acc_counter c = 8 \<and>
     fsm (rdreg r) = STATE_IDLE \<and> \<not> oe (rdreg r) \<and> fsm (rdmem r) = STATE_IDLE \<and> \<not> oe (rdmem r) \<and> \<not> inner_counter (rdmem r))"

definition wr_view_of :: "ram \<Rightarrow> wr_view" where
  "wr_view_of r = (wrmem r, datain (pins r))"

lemma write_step:
  assumes "writing a b r" "calm a x" "\<not> wr_stops (wr_view_of r)"
  shows "writing a b (ram_step x r)" "wr_view_of (ram_step x r) = wr_next (out_addr a True) x (wr_view_of r)"
    "chip_takes (pins r) (pads_step x r) = wr_takes (wr_view_of r)"
  using assms
  by (auto simp: writing_def wr_view_of_def chip_takes_def calm_def hc_step_def pads_step_def hc_wrmem2_def
      wrmem_step_def idle_stays Let_def)

interpretation writing: sequencer "\<lambda>a. writing a b" wr_view_of "\<lambda>a. wr_next (out_addr a True)" wr_takes wr_stops for b
  by unfold_locales (simp_all add: write_step)

text \<open>The three cycles from the fetched page to the start of the sequencer.\<close>

lemma half_words_length: "length (half_words ws) = 2 * length ws"
  by (induction ws) (simp_all add: half_words_def)

definition ready :: "22 word \<Rightarrow> u32 list \<Rightarrow> ram \<Rightarrow> bool" where
  "ready a b r \<longleftrightarrow> (let c = ctl r in
     captured_s0_address (pins r) = a \<and> hstate c = WRMEM2 \<and> rd_tmp c \<and> buffer c = b \<and>
     \<not> s0_readdatavalid c \<and> \<not> regr c \<and> \<not> regw c \<and> acc_counter c = 8 \<and>
     \<not> start_rdreg c \<and> \<not> start_wrreg c \<and> \<not> start_rdmem c \<and> \<not> start_wrmem c \<and>
     fsm (rdreg r) = STATE_IDLE \<and> \<not> oe (rdreg r) \<and> fsm (rdmem r) = STATE_IDLE \<and> fsm (wrmem r) = STATE_IDLE \<and>
     \<not> oe (rdmem r) \<and> \<not> oe (wrmem r) \<and> \<not> inner_counter (rdmem r) \<and> \<not> stm_end (wrmem r))"

lemma ready_1:
  assumes "fetched a False ws r" "calm a x"
  shows "ready a (buffer_write (buffer_addr a) (s0_writedata x) ws) (ram_step x r) \<and> inbuffer_valid (hc_step x r) \<and>
    buffer_wrmem (hc_step x r) = ws \<and> \<not> wr_tmp (hc_step x r)"
  using assms
  by (simp add: fetched_def ready_def calm_def hc_step_def pads_step_def idle_stays Let_def)

lemma ready_2:
  assumes "ready a b r" "calm a x" "inbuffer_valid (ctl r)" "buffer_wrmem (ctl r) = ws" "\<not> wr_tmp (ctl r)"
  shows "ready a b (ram_step x r) \<and> \<not> inbuffer_valid (hc_step x r) \<and> wr_tmp (hc_step x r) \<and>
    drop 3 (buffer_out (wrmem (ram_step x r))) = half_words ws"
  using assms
  by (simp add: ready_def calm_def hc_step_def hc_wrmem2_def pads_step_def idle_stays Let_def)
    (simp add: wrmem_step_def command_halves_def Let_def)

lemma ready_3:
  assumes "ready a b r" "calm a x" "\<not> inbuffer_valid (ctl r)" "wr_tmp (ctl r)" "drop 3 (buffer_out (wrmem r)) = hw"
  defines "s \<equiv> ram_step x r"
  shows "writing a b s \<and> fsm (wrmem s) = STATE_IDLE \<and> \<not> oe (wrmem s) \<and> \<not> stm_end (wrmem s) \<and> drop 3 (buffer_out (wrmem s)) = hw"
  using assms(1-5) unfolding s_def
  by (simp add: ready_def writing_def calm_def hc_step_def hc_wrmem2_def pads_step_def idle_stays Let_def)
    (simp add: wrmem_step_def command_halves_def Let_def)

lemma write_start:
  assumes "fetched a False ws r" "\<forall>i. calm a (x i)"
  defines "s \<equiv> ram_run x 3 r" and "b \<equiv> buffer_write (buffer_addr a) (s0_writedata (x 0)) ws"
  shows "writing a b s \<and> fsm (wrmem s) = STATE_IDLE \<and> \<not> oe (wrmem s) \<and> \<not> stm_end (wrmem s) \<and>
    drop 3 (buffer_out (wrmem s)) = half_words ws \<and> clocked x 3 r = []"
proof -
  define r1 where "r1 = ram_step (x 0) r"
  define r2 where "r2 = ram_step (x 1) r1"
  have 1: "ready a b r1 \<and> inbuffer_valid (ctl r1) \<and> buffer_wrmem (ctl r1) = ws \<and> \<not> wr_tmp (ctl r1)"
    using ready_1 [OF assms(1), of "x 0"] assms(2) by (simp add: r1_def b_def)
  then have 2: "ready a b r2 \<and> \<not> inbuffer_valid (ctl r2) \<and> wr_tmp (ctl r2) \<and> drop 3 (buffer_out (wrmem r2)) = half_words ws"
    using ready_2 [of a b r1 "x 1" ws] assms(2) by (simp add: r2_def)
  have s: "s = ram_step (x 2) r2" by (simp add: s_def r1_def r2_def eval_nat_numeral)
  have "clocked x 3 r = chip_takes (pins r) (pads_step (x 0) r) @ chip_takes (pins r1) (pads_step (x 1) r1) @
      chip_takes (pins r2) (pads_step (x 2) r2)"
    by (simp add: r1_def r2_def eval_nat_numeral)
  also have "\<dots> = []" using assms(1) 1 2 by (simp add: deselected fetched_def ready_def Let_def)
  finally show ?thesis using ready_3 [of a b r2 "x 2"] 2 assms(2) by (simp add: s)
qed

text \<open>After the transfer the state machine counts down before it looks at the next request.\<close>

definition delaying :: "u32 list \<Rightarrow> nat \<Rightarrow> ram \<Rightarrow> bool" where
  "delaying b n r \<longleftrightarrow> (let c = ctl r in
     hstate c = ACCDLY \<and> acc_counter c = of_nat n \<and> buffer c = b \<and> \<not> s0_readdatavalid c \<and>
     \<not> start_rdreg c \<and> \<not> start_wrreg c \<and> \<not> start_rdmem c \<and> \<not> start_wrmem c \<and>
     fsm (rdreg r) = STATE_IDLE \<and> \<not> oe (rdreg r) \<and> fsm (rdmem r) = STATE_IDLE \<and> fsm (wrmem r) = STATE_IDLE \<and>
     \<not> inner_counter (rdmem r) \<and> \<not> oe (rdmem r) \<and> \<not> oe (wrmem r))"

lemma write_end:
  assumes "writing a b r" "calm a x" "fsm (wrmem r) = STATE_DONE" "stm_end (wrmem r)" "\<not> oe (wrmem r)"
  shows "delaying b 8 (ram_step x r) \<and> chip_takes (pins r) (pads_step x r) = []"
  using assms
  by (simp add: writing_def delaying_def calm_def chip_takes_def hc_step_def hc_wrmem2_def pads_step_def idle_stays
      wrmem_step_def Let_def)

lemma delaying_step:
  assumes "delaying b (Suc n) r" "\<not> rst x" "n < 8"
  shows "delaying b n (ram_step x r)"
proof -
  have "(of_nat (Suc n) :: 4 word) \<noteq> 0" using assms(3) by (simp add: word_unat_eq_iff unat_of_nat del: of_nat_Suc)
  then show ?thesis using assms(1,2)
    by (simp add: delaying_def hc_step_def idle_stays Let_def)
qed

lemma delaying_run:
  "delaying b 8 r \<Longrightarrow> \<forall>i. \<not> rst (x i) \<Longrightarrow> n \<le> 8 \<Longrightarrow> delaying b (8 - n) (ram_run x n r) \<and> clocked x n r = []"
proof (induction n)
  case 0
  then show ?case by simp
next
  case (Suc n)
  then have d: "delaying b (8 - n) (ram_run x n r)" "clocked x n r = []" by simp_all
  have n: "8 - n = Suc (8 - Suc n)" using Suc.prems(3) by simp
  from delaying_step [OF d(1) [unfolded n], of "x n"] d deselected [of "ram_run x n r"] Suc.prems(2)
  show ?case by (simp add: delaying_def Let_def)
qed

lemma delaying_done:
  "delaying b 0 r \<Longrightarrow> quiet x \<Longrightarrow> length b = 8 \<Longrightarrow>
   at_rest (ram_step x r) \<and> buffer (hc_step x r) = b \<and> chip_takes (pins r) (pads_step x r) = []"
  using deselected [of r "pins r" x]
  by (simp add: delaying_def at_rest_def quiet_def hc_step_def idle_stays Let_def)

section \<open>A write\<close>

lemma buffer_write_length: "length (buffer_write i v b) = length b"
  by (simp add: buffer_write_def)

lemma write_transfers:
  assumes "at_rest r" "requests False a (x 0)" "\<forall>i. 0 < i \<longrightarrow> calm a (x i)" "quiet (x (92 + w + v))"
    and "\<forall>i < w. \<not> rwds_in (x (5 + i))" "rwds_in (x (5 + w))"
    and "\<forall>i < v. \<not> rwds_in (x (48 + w + i))" "rwds_in (x (48 + w + v))"
  defines "s \<equiv> ram_run x (93 + w + v) r" and "ws \<equiv> burst (\<lambda>i. x (26 + w + i))" and "ca \<equiv> command_halves (out_addr a True)"
  shows "at_rest s \<and> buffer (ctl s) = buffer_write (buffer_addr a) (s0_writedata (x (44 + w))) ws \<and>
    clocked x (93 + w + v) r = ca @ ca @ half_words ws"
proof -
  let ?r1 = "ram_run x (44 + w) r" let ?y = "\<lambda>i. x (44 + w + i)"
  let ?r2 = "ram_run ?y 3 ?r1" let ?z = "\<lambda>i. x (47 + w + i)"
  let ?b = "buffer_write (buffer_addr a) (s0_writedata (x (44 + w))) ws"
  note f = fetch [OF assms(1-3,5,6), folded ws_def ca_def]
  have y: "\<forall>i. calm a (?y i)" "\<forall>i. calm a (?z i)" using assms(3) by simp_all
  have e: "?y 0 = x (44 + w)" by simp
  note g = write_start [OF conjunct1 [OF f] y(1), unfolded e]
  have l: "length ws = 8" "length (half_words ws) = 16" by (simp_all add: ws_def burst_def half_words_length)
  have z: "\<forall>i < v. \<not> rwds_in (?z (1 + i))" "rwds_in (?z (1 + v))" using assms(7,8) by (simp_all add: add.assoc)
  from g wr_transaction [OF _ _ _ l(2) _ z, of "wrmem ?r2" "out_addr a True" "datain (pins ?r2)"] obtain m' q
    where m: "wr_run (out_addr a True) ?z (36 + v) (wr_view_of ?r2) = Some ((m', q), ca @ half_words ws)"
      "fsm m' = STATE_DONE \<and> stm_end m' \<and> \<not> oe m'" by (auto simp: wr_view_of_def ca_def)
  let ?r3 = "ram_run ?z (36 + v) ?r2"
  from y(2) have c: "\<forall>i < 36 + v. calm a (?z i)" by simp
  from writing.run [OF conjunct1 [OF g] c m(1)]
  have h: "writing a ?b ?r3" "wrmem ?r3 = m'" "clocked ?z (36 + v) ?r2 = ca @ half_words ws" by (auto simp: wr_view_of_def)
  let ?u = "\<lambda>i. x (83 + w + v + i)" let ?t = "\<lambda>i. x (84 + w + v + i)"
  from write_end [OF h(1), of "?u 0"] h(2) m(2) assms(3)
  have d: "delaying ?b 8 (ram_run ?u 1 ?r3)" "clocked ?u 1 ?r3 = []" by simp_all
  have nr: "\<forall>i. \<not> rst (?t i)" using assms(3) by (simp add: calm_def)
  from delaying_run [OF d(1) nr, of 8]
  have k: "delaying ?b 0 (ram_run ?t 8 (ram_run ?u 1 ?r3))" "clocked ?t 8 (ram_run ?u 1 ?r3) = []" by simp_all
  let ?q = "\<lambda>i. x (92 + w + v + i)"
  let ?r4 = "ram_run ?t 8 (ram_run ?u 1 ?r3)"
  from delaying_done [OF k(1), of "?q 0"] assms(4) l(1)
  have o: "at_rest (ram_run ?q 1 ?r4)" "buffer (ctl (ram_run ?q 1 ?r4)) = ?b" "clocked ?q 1 ?r4 = []"
    by (simp_all add: buffer_write_length)
  have n: "93 + w + v = (44 + w) + (3 + ((36 + v) + (1 + (8 + 1))))" by simp
  have i: "\<And>i. 44 + w + (3 + i) = 47 + w + i" "\<And>i. 47 + w + (36 + v + i) = 83 + w + v + i"
    "\<And>i. 83 + w + v + (1 + i) = 84 + w + v + i" "\<And>i. 84 + w + v + (8 + i) = 92 + w + v + i" by simp_all
  note splits = ram_run_add [where m = "44 + w"] ram_run_add [where m = 3] ram_run_add [where m = "36 + v"]
    ram_run_add [where m = 1] ram_run_add [where m = 8] clocked_add [where m = "44 + w"] clocked_add [where m = 3]
    clocked_add [where m = "36 + v"] clocked_add [where m = 1] clocked_add [where m = 8]
  have "s = ram_run ?q 1 ?r4" unfolding s_def n splits by (simp only: i)
  moreover have "clocked x (93 + w + v) r = ca @ ca @ half_words ws"
    unfolding n splits by (simp only: i f g h(3) d(2) k(2) o(3) append_Nil append_Nil2 append_assoc)
  ultimately show ?thesis using o by simp
qed

section \<open>After reset\<close>

lemma reset_at_rest: "rst x \<Longrightarrow> at_rest (ram_step x r)"
  by (simp add: at_rest_def hc_step_def hc_reset_def rdreg_step_def rdmem_step_def wrmem_step_def Let_def)

section \<open>Properties\<close>

text \<open>C12: A read of a word, from the controller at rest, on any chip that signals with its strobe when it is ready:
  the answer comes 45 cycles after the request plus those the strobe is waited for, and not earlier.  The chip has
  been clocked exactly the three half words of the read command.  Of the eight words made of the sixteen half words it
  answered with, the processor gets the one its address selects, but zero for three of four addresses, which select a
  word the buffer does not have; then the controller is at rest again.\<close>

theorem hyperram_read:
  assumes "at_rest r" and "requests True a (x 0)" "\<forall>i. 0 < i \<longrightarrow> calm a (x i)"
    and "\<forall>i < w. \<not> rwds_in (x (5 + i))" "rwds_in (x (5 + w))"
  shows "s0_readdatavalid (ctl (ram_run x (45 + w) r)) \<and>
    s0_readdata (ctl (ram_run x (45 + w) r)) =
      (if unat a mod 32 < 8 then word_of (\<lambda>i. x (26 + w + i)) (unat a mod 32) else 0) \<and>
    (\<forall>n. 0 < n \<and> n < 45 + w \<longrightarrow> \<not> s0_readdatavalid (ctl (ram_run x n r))) \<and>
    clocked x (45 + w) r = command_halves (out_addr a True) \<and>
    (quiet (x (44 + w)) \<longrightarrow> at_rest (ram_run x (45 + w) r))"
proof -
  have "(buffer_addr a < 8) = (unat a mod 32 < 8)" using buffer_addr_unat [of a] by (simp add: word_less_nat_alt)
  then have "buffer_read (buffer_addr a) (burst y) = (if unat a mod 32 < 8 then word_of y (unat a mod 32) else 0)" for y
    by (simp add: buffer_read_def burst_def buffer_addr_unat)
  with read_returns [OF assms] show ?thesis by simp
qed


section \<open>Witnesses\<close>

text \<open>The controller after reset, and a chip that is always ready and answers with the number of the cycle.\<close>

definition ram_reset :: ram where
  "ram_reset = ram_step (no_request\<lparr>rst := True\<rparr>) ram_power_up"

definition access :: "bool \<Rightarrow> 22 word \<Rightarrow> nat \<Rightarrow> ram_in" where
  "access rd a n = no_request\<lparr>s0_read := rd \<and> n = 0, s0_write := \<not> rd \<and> n = 0, s0_address := a, s0_writedata := 99,
     dataout := of_nat n\<rparr>"

lemma ram_reset_rest: "at_rest ram_reset"
  unfolding ram_reset_def by (rule reset_at_rest) simp

lemma access_inputs:
  "requests rd a (access rd a 0)" "\<forall>i. 0 < i \<longrightarrow> calm a (access rd a i)" "rwds_in (access rd a n)" "quiet (access rd a (Suc n))"
  by (simp_all add: access_def no_request_def requests_def calm_def quiet_def)

theorem hyperram_read_witness:
  "s0_readdatavalid (ctl (ram_run (access True 35) 45 ram_reset)) \<and>
   s0_readdata (ctl (ram_run (access True 35) 45 ram_reset)) = 0x00200021 \<and>
   clocked (access True 35) 45 ram_reset = [0x8000, 2, 0] \<and> at_rest (ram_run (access True 35) 45 ram_reset)"
proof -
  have "quiet (access True 35 44)" using access_inputs(4) [where rd = True and a = 35 and n = 43] by simp
  moreover have "word_of (\<lambda>i. access True 35 (26 + i)) 3 = 0x00200021"
    by (simp add: word_of_def access_def no_request_def word_cat_eq)
  moreover have "command_halves (out_addr 35 True) = [0x8000, 2, 0]" by code_simp
  ultimately show ?thesis
    using hyperram_read [where w = 0, OF ram_reset_rest access_inputs(1,2) [where rd = True and a = 35]] access_inputs(3) by simp
qed


end
