(* ===== verification/HyperRamCsr.thy ===== *)
theory HyperRamCsr
  imports HyperRamWrite
begin

text \<open>
  The registers of the HyperRAM chip: reading one, and why writing one stops the controller.
\<close>

section \<open>The register sequencer alone\<close>

text \<open>The view: its registers and the half word in front of the pins.\<close>

type_synonym rg_view = "rdreg_stm \<times> u16"

fun rg_next :: "48 word \<Rightarrow> ram_in \<Rightarrow> rg_view \<Rightarrow> rg_view" where
  "rg_next ca x (m, p) = (rdreg_step False True (rwds_in x) (dataout x) ca m, buffer_out m ! 0)"

fun rg_takes :: "rg_view \<Rightarrow> u16 list" where
  "rg_takes (m, p) = (if \<not> csn m \<and> oe_clk m \<and> oe m then [p] else [])"

fun rg_stops :: "rg_view \<Rightarrow> bool" where
  "rg_stops (m, p) = stm_end m"

abbreviation rg_run :: "48 word \<Rightarrow> (nat \<Rightarrow> ram_in) \<Rightarrow> nat \<Rightarrow> rg_view \<Rightarrow> (rg_view \<times> u16 list) option" where
  "rg_run ca \<equiv> seq_run (rg_next ca) rg_takes rg_stops"

definition rg_ca :: "48 word \<Rightarrow> rdreg_stm \<Rightarrow> bool" where
  "rg_ca ca m \<longleftrightarrow> fsm m = STATE_CA \<and> counter m = 0 \<and> buffer_out m = command_halves ca \<and> \<not> csn m \<and> \<not> oe m \<and> \<not> stm_end m"

definition rg_runs :: "4 word \<Rightarrow> rdreg_stm \<Rightarrow> bool" where
  "rg_runs k m \<longleftrightarrow> fsm m = STATE_RUN \<and> counter m = k \<and> \<not> csn m \<and> \<not> oe m \<and> \<not> stm_end m"

lemma rg_wait:
  "rg_ca ca m \<Longrightarrow> (\<forall>i < n. \<not> rwds_in (x i)) \<Longrightarrow> \<exists>q. rg_run ca x n (m, p) = Some ((m, q), [])"
  by (induction n) (auto simp: rg_ca_def rdreg_step_def stm_ca_def)

lemma rg_command:
  assumes "rg_ca ca m" "rwds_in (x 0)"
  shows "\<exists>m' q. rg_run ca x 5 (m, p) = Some ((m', q), command_halves ca) \<and> rg_runs 0 m'"
proof -
  obtain c0 c1 c2 where c: "command_halves ca = [c0, c1, c2]" by (simp add: command_halves_def)
  note m = assms(1) [unfolded rg_ca_def c]
  let ?m1 = "m\<lparr>oe := True, oe_clk := False, counter := 1\<rparr>"
  let ?m2 = "m\<lparr>oe := True, oe_clk := True, counter := 2, buffer_out := [c1, c2, 0]\<rparr>"
  let ?m3 = "m\<lparr>oe := True, oe_clk := True, counter := 3, buffer_out := [c2, 0, 0]\<rparr>"
  let ?m4 = "m\<lparr>oe := True, oe_clk := True, counter := 4, buffer_out := [0, 0, 0]\<rparr>"
  let ?m5 = "m\<lparr>oe := False, oe_clk := True, counter := 0, buffer_out := [0, 0, 0], fsm := STATE_RUN\<rparr>"
  note step = rdreg_step_def stm_ca_def
  have 1: "rg_next ca (x 0) (m, p) = (?m1, c0)" using m assms(2) by (simp add: step)
  have 2: "rg_next ca (x 1) (?m1, c0) = (?m2, c0)" using m by (simp add: step)
  have 3: "rg_next ca (x 2) (?m2, c0) = (?m3, c1)" using m by (simp add: step)
  have 4: "rg_next ca (x 3) (?m3, c1) = (?m4, c2)" using m by (simp add: step)
  have 5: "rg_next ca (x 4) (?m4, c2) = (?m5, 0)" using m by (simp add: step)
  have "rg_run ca x 5 (m, p) = Some ((?m5, 0), command_halves ca)"
    unfolding seq_run_5 Let_def 1 2 3 4 5 using m by (simp add: c)
  moreover have "rg_runs 0 ?m5" using m by (simp add: rg_runs_def)
  ultimately show ?thesis by blast
qed

lemma rg_latency:
  "rg_runs 0 m \<Longrightarrow> n \<le> 14 \<Longrightarrow> \<exists>m' q. rg_run ca x n (m, p) = Some ((m', q), []) \<and> rg_runs (of_nat n) m'"
proof (induction n)
  case 0
  then show ?case by simp
next
  case (Suc n)
  then obtain m' q where 1: "rg_run ca x n (m, p) = Some ((m', q), [])" "rg_runs (of_nat n) m'" by auto
  from Suc.prems(2) have n: "(of_nat n :: 4 word) \<noteq> 14" by (simp add: unat_of_nat word_unat_eq_iff)
  with 1 show ?case by (auto simp: rg_runs_def rdreg_step_def add.commute)
qed

lemma rg_transaction:
  assumes "fsm m = STATE_IDLE" "\<not> oe m" "\<not> stm_end m" "\<forall>i < w. \<not> rwds_in (x (1 + i))" "rwds_in (x (1 + w))"
  shows "\<exists>m' q. rg_run ca x (21 + w) (m, p) = Some ((m', q), command_halves ca) \<and>
    fsm m' = STATE_DONE \<and> stm_end m' \<and> \<not> oe m' \<and> rg_valid m' \<and> rg_dataoutr m' = dataout (x (20 + w))"
proof -
  let ?m1 = "rdreg_step False True (rwds_in (x 0)) (dataout (x 0)) ca m"
  have "rg_ca ca ?m1" using assms(1-3) by (simp add: rg_ca_def rdreg_step_def Let_def)
  moreover have 1: "rg_run ca x 1 (m, p) = Some ((?m1, buffer_out m ! 0), [])" using assms(1-3) by simp
  ultimately obtain q2 where 2: "rg_run ca x (1 + w) (m, p) = Some ((?m1, q2), [])" "rg_ca ca ?m1"
    using rg_wait [of ca ?m1 w "\<lambda>i. x (1 + i)" "buffer_out m ! 0"] seq_run_trans [OF 1, of w] assms(4) by fastforce
  from rg_command [OF 2(2), of "\<lambda>i. x (1 + w + i)" q2] assms(5) obtain m3 q3
    where 3: "rg_run ca (\<lambda>i. x (1 + w + i)) 5 (?m1, q2) = Some ((m3, q3), command_halves ca)" "rg_runs 0 m3" by auto
  note r3 = seq_run_trans [OF 2(1) 3(1)]
  from rg_latency [OF 3(2), of 14 ca "\<lambda>i. x (1 + w + 5 + i)" q3] obtain m4 q4
    where 4: "rg_run ca (\<lambda>i. x (1 + w + 5 + i)) 14 (m3, q3) = Some ((m4, q4), [])" "rg_runs 14 m4" by auto
  note r4 = seq_run_trans [OF r3 4(1)]
  let ?v5 = "rg_next ca (x (1 + w + 5 + 14)) (m4, q4)"
  have 5: "rg_run ca (\<lambda>i. x (1 + w + 5 + 14 + i)) 1 (m4, q4) = Some (?v5, [])" using 4(2) by (simp add: rg_runs_def)
  note r5 = seq_run_trans [OF r4 5]
  have n: "21 + w = 1 + w + 5 + 14 + 1" "20 + w = 1 + w + 5 + 14" by simp_all
  from r5 have "rg_run ca x (21 + w) (m, p) = Some (?v5, command_halves ca)"
    by (simp only: n append_Nil append_Nil2 append_assoc)
  moreover have "fsm (fst ?v5) = STATE_DONE \<and> stm_end (fst ?v5) \<and> \<not> oe (fst ?v5) \<and> rg_valid (fst ?v5) \<and>
      rg_dataoutr (fst ?v5) = dataout (x (20 + w))"
    using 4(2) unfolding n by (simp add: rg_runs_def rdreg_step_def Let_def)
  ultimately show ?thesis by (cases ?v5) (simp del: rg_next.simps)
qed

section \<open>The state machine around it\<close>

definition fetching_reg :: "10 word \<Rightarrow> ram \<Rightarrow> bool" where
  "fetching_reg b r \<longleftrightarrow> (let c = ctl r in
     captured_csr_address (pins r) = b \<and> hstate c = RDREG \<and> start_rdreg c \<and> CA_sigr c = csr_command b \<and>
     \<not> start_wrreg c \<and> \<not> start_rdmem c \<and> \<not> start_wrmem c \<and> length (buffer c) = 8 \<and>
     fsm (rdmem r) = STATE_IDLE \<and> fsm (wrmem r) = STATE_IDLE \<and> \<not> inner_counter (rdmem r) \<and> \<not> oe (rdmem r) \<and> \<not> oe (wrmem r))"

definition rg_view_of :: "ram \<Rightarrow> rg_view" where
  "rg_view_of r = (rdreg r, datain (pins r))"

lemma reg_step:
  assumes "fetching_reg b r" "calm a x" "\<not> rg_stops (rg_view_of r)"
  shows "fetching_reg b (ram_step x r)" "rg_view_of (ram_step x r) = rg_next (csr_command b) x (rg_view_of r)"
    "chip_takes (pins r) (pads_step x r) = rg_takes (rg_view_of r)"
  using assms
  by (auto simp: fetching_reg_def rg_view_of_def chip_takes_def calm_def hc_step_def pads_step_def idle_stays Let_def)

interpretation reading_reg: sequencer "\<lambda>_. fetching_reg b" rg_view_of "\<lambda>_. rg_next (csr_command b)" rg_takes rg_stops for b
  by unfold_locales (auto simp: reg_step simp del: rg_next.simps)

text \<open>From the request to the start of the sequencer, and back to rest.\<close>

definition prepared_reg :: "10 word \<Rightarrow> ram \<Rightarrow> bool" where
  "prepared_reg b r \<longleftrightarrow> (let c = ctl r in
     captured_csr_address (pins r) = b \<and>
     \<not> start_rdreg c \<and> \<not> start_wrreg c \<and> \<not> start_rdmem c \<and> \<not> start_wrmem c \<and> length (buffer c) = 8 \<and>
     fsm (rdreg r) = STATE_IDLE \<and> \<not> oe (rdreg r) \<and> fsm (rdmem r) = STATE_IDLE \<and> fsm (wrmem r) = STATE_IDLE \<and>
     \<not> oe (rdmem r) \<and> \<not> oe (wrmem r) \<and> \<not> inner_counter (rdmem r) \<and> \<not> stm_end (rdreg r))"

lemma reg_start:
  assumes "at_rest r" "csr_read (x 0)" "\<not> rst (x 0)" "\<not> csr_write (x 0)" "\<not> s0_read (x 0)" "\<not> s0_write (x 0)"
    and "csr_address (x 0) = b" "\<forall>i. 0 < i \<longrightarrow> quiet (x i)"
  defines "s \<equiv> ram_run x 3 r"
  shows "fetching_reg b s \<and> fsm (rdreg s) = STATE_IDLE \<and> \<not> oe (rdreg s) \<and> \<not> stm_end (rdreg s) \<and> clocked x 3 r = []"
proof -
  define r1 where "r1 = ram_step (x 0) r"
  define r2 where "r2 = ram_step (x 1) r1"
  have q: "quiet (x 1)" "quiet (x 2)" using assms(8) by simp_all
  have 1: "prepared_reg b r1 \<and> hstate (ctl r1) = IDLE \<and> regr (ctl r1) \<and> \<not> prev_regr (ctl r1)"
    using assms(1-7) unfolding r1_def
    by (simp add: at_rest_def prepared_reg_def hc_step_def hc_idle_def pads_step_def idle_stays Let_def)
  then have 2: "prepared_reg b r2 \<and> hstate (ctl r2) = RDREG" using q(1) unfolding r2_def
    by (simp add: prepared_reg_def quiet_def hc_step_def hc_idle_def pads_step_def idle_stays Let_def)
  have s: "s = ram_step (x 2) r2" by (simp add: s_def r1_def r2_def eval_nat_numeral)
  have "clocked x 3 r = chip_takes (pins r) (pads_step (x 0) r) @ chip_takes (pins r1) (pads_step (x 1) r1) @
      chip_takes (pins r2) (pads_step (x 2) r2)"
    by (simp add: r1_def r2_def eval_nat_numeral)
  also have "\<dots> = []" using assms(1) 1 2 by (simp add: deselected at_rest_def prepared_reg_def Let_def)
  finally show ?thesis using 2 q(2) unfolding s
    by (simp add: prepared_reg_def fetching_reg_def quiet_def hc_step_def pads_step_def idle_stays Let_def)
qed

lemma reg_end:
  assumes "fetching_reg b r" "quiet x" "fsm (rdreg r) = STATE_DONE" "stm_end (rdreg r)" "\<not> oe (rdreg r)"
  shows "at_rest (ram_step x r) \<and> \<not> rg_valid (rdreg (ram_step x r)) \<and> chip_takes (pins r) (pads_step x r) = []"
  using assms
  by (simp add: fetching_reg_def at_rest_def quiet_def chip_takes_def hc_step_def pads_step_def idle_stays rdreg_step_def Let_def)

text \<open>
  A register is read with one command; its value is what the chip answers with in the last cycle, valid for one
  cycle.
\<close>

lemma csr_read_returns:
  assumes "at_rest r" "csr_read (x 0)" "\<not> rst (x 0)" "\<not> csr_write (x 0)" "\<not> s0_read (x 0)" "\<not> s0_write (x 0)"
    and "csr_address (x 0) = b" "\<forall>i. 0 < i \<longrightarrow> quiet (x i)"
    and "\<forall>i < w. \<not> rwds_in (x (4 + i))" "rwds_in (x (4 + w))"
  defines "s \<equiv> ram_run x (24 + w) r"
  shows "rg_valid (rdreg s) \<and> rg_dataoutr (rdreg s) = dataout (x (23 + w)) \<and> at_rest (ram_run x (25 + w) r) \<and>
    \<not> rg_valid (rdreg (ram_run x (25 + w) r)) \<and> clocked x (25 + w) r = command_halves (csr_command b)"
proof -
  let ?r1 = "ram_run x 3 r" let ?y = "\<lambda>i. x (3 + i)" let ?ca = "csr_command b"
  note g = reg_start [OF assms(1-8)]
  have y: "\<forall>i < w. \<not> rwds_in (?y (1 + i))" "rwds_in (?y (1 + w))" using assms(9,10) by simp_all
  from g rg_transaction [OF _ _ _ y, of "rdreg ?r1" ?ca "datain (pins ?r1)"] obtain m' q
    where m: "rg_run ?ca ?y (21 + w) (rg_view_of ?r1) = Some ((m', q), command_halves ?ca)"
      "fsm m' = STATE_DONE \<and> stm_end m' \<and> \<not> oe m' \<and> rg_valid m' \<and> rg_dataoutr m' = dataout (?y (20 + w))"
    by (auto simp: rg_view_of_def)
  have c: "\<forall>i < 21 + w. calm 0 (?y i)" using assms(8) by (simp add: quiet_def calm_def)
  from reading_reg.run [OF conjunct1 [OF g] c m(1)]
  have h: "fetching_reg b (ram_run ?y (21 + w) ?r1)" "rdreg (ram_run ?y (21 + w) ?r1) = m'"
    "clocked ?y (21 + w) ?r1 = command_halves ?ca" by (auto simp: rg_view_of_def)
  have n: "24 + w = 3 + (21 + w)" "25 + w = Suc (24 + w)" "3 + (20 + w) = 23 + w" by simp_all
  have s: "fetching_reg b s" "rdreg s = m'" "clocked x (24 + w) r = command_halves ?ca"
    using h g unfolding s_def n(1) ram_run_add [where m = 3] clocked_add [where m = 3] by simp_all
  have "ram_run x (25 + w) r = ram_step (x (24 + w)) s"
    "clocked x (25 + w) r = clocked x (24 + w) r @ chip_takes (pins s) (pads_step (x (24 + w)) s)"
    by (simp_all only: n(2) s_def ram_run.simps clocked.simps ram_step_sel)
  with reg_end [OF s(1), of "x (24 + w)"] s m(2) assms(8) show ?thesis by (simp add: add.assoc [symmetric])
qed

section \<open>A write of a register\<close>

text \<open>The state machine waits for a sequencer that does not exist.\<close>

definition stuck_in_wrreg :: "ram \<Rightarrow> bool" where
  "stuck_in_wrreg r \<longleftrightarrow> hstate (ctl r) = WRREG \<and> \<not> start_rdreg (ctl r) \<and> \<not> s0_readdatavalid (ctl r)"

lemma stuck_step:
  "stuck_in_wrreg r \<Longrightarrow> \<not> rst x \<Longrightarrow> stuck_in_wrreg (ram_step x r) \<and> start_wrreg (hc_step x r)"
  by (simp add: stuck_in_wrreg_def hc_step_def wrreg_end_def Let_def)

lemma stuck_run:
  assumes "stuck_in_wrreg r" "\<forall>i. \<not> rst (x i)"
  shows "stuck_in_wrreg (ram_run x n r) \<and> (0 < n \<longrightarrow> start_wrreg (ctl (ram_run x n r)))"
  using stuck_step assms by (induction n) auto

lemma stuck_pins:
  assumes "stuck_in_wrreg r" "\<forall>i. \<not> rst (x i)"
  shows "\<not> pad_csn (pins (ram_run x (Suc (Suc n)) r)) \<and> \<not> oe_data (pins (ram_run x (Suc (Suc n)) r))"
proof -
  from stuck_run [OF assms, of "Suc n"] have "\<not> start_rdreg (ctl (ram_run x (Suc n) r))" "start_wrreg (ctl (ram_run x (Suc n) r))"
    by (simp_all add: stuck_in_wrreg_def del: ram_run.simps)
  with assms(2) show ?thesis
    by (simp add: pads_step_def wrreg_csn_def Let_def ram_run.simps(2) [of x "Suc n"] del: ram_run.simps)
qed

section \<open>Properties\<close>

text \<open>C36: A write of a register of the chip stops the controller until it is reset: from the second cycle on it waits
  for the sequencer that is not there, answers no request, and from the fourth on keeps the chip selected.\<close>

theorem hyperram_csr_write_hangs:
  assumes "at_rest r" "csr_write (x 0)" "\<not> csr_read (x 0)" "\<forall>n. \<not> rst (x n)"
  shows "hstate (ctl (ram_run x (2 + n) r)) = WRREG \<and> \<not> s0_readdatavalid (ctl (ram_run x (2 + n) r)) \<and>
    \<not> pad_csn (pins (ram_run x (4 + n) r)) \<and> \<not> oe_data (pins (ram_run x (4 + n) r))"
proof -
  let ?s = "ram_run x 2 r" let ?y = "\<lambda>i. x (2 + i)"
  from assms have s: "stuck_in_wrreg ?s"
    by (simp add: numeral_2_eq_2 stuck_in_wrreg_def at_rest_def hc_step_def hc_idle_def Let_def)
  have y: "\<forall>i. \<not> rst (?y i)" using assms(4) by simp
  have "stuck_in_wrreg (ram_run x (2 + n) r)" using stuck_run [OF s y, of n] by (simp only: ram_run_add [of x 2])
  moreover have "4 + n = 2 + Suc (Suc n)" by simp
  then have "ram_run x (4 + n) r = ram_run ?y (Suc (Suc n)) ?s" by (simp only: ram_run_add [of x 2])
  ultimately show ?thesis using stuck_pins [OF s y, of n] by (simp only: stuck_in_wrreg_def simp_thms)
qed

section \<open>Witness\<close>

theorem hyperram_csr_write_hangs_witness:
  "hstate (ctl (ram_run (\<lambda>n. no_request\<lparr>csr_write := n = 0\<rparr>) (2 + 1000) ram_reset)) = WRREG \<and>
   \<not> pad_csn (pins (ram_run (\<lambda>n. no_request\<lparr>csr_write := n = 0\<rparr>) (4 + 1000) ram_reset))"
  using hyperram_csr_write_hangs [OF ram_reset_rest, of "\<lambda>n. no_request\<lparr>csr_write := n = 0\<rparr>" 1000]
  by (simp add: no_request_def del: ram_run.simps)

end
