(* ===== verification/Spec2Isabelle.thy ===== *)
theory Spec2Isabelle
  imports AlarmProg Platform JtagIrq JtagHost UartSession LogConf Sleep DflReport HyperRamCsr
begin

text \<open>
  This development models the C code of the repository: the hardware abstraction layer (HAL) and the JTAG
  UART driver that run on the Nios V processor beside the HyperRAM controller, under \<^verbatim>\<open>src/HAL\<close>,
  \<^verbatim>\<open>src/drivers\<close> and \<^verbatim>\<open>src/alt_sys_init.c\<close>; and the controller itself, which is SystemVerilog
  (\<^verbatim>\<open>src/hyperram_controller_ip/src\<close>) and which the software reaches as memory.

  \<^bold>\<open>The program.\<close>  Start-up (\<^verbatim>\<open>alt_main.c\<close>) enables interrupts where the processor has
  them, registers the devices
  (\<^verbatim>\<open>alt_sys_init.c\<close>), points the standard streams at the UART and calls \<^verbatim>\<open>main\<close>.  The program then uses
  system calls: they go through a pool of 32 file descriptors to the callbacks of a device, which the
  registry finds by its name.  The UART driver is such a device.  It either polls its registers or has two
  rings of bytes which an interrupt handler fills and drains, and asks the system clock to be called once
  a second.  The clock is a tick handler over a list of alarms.  Beside these stand the interrupt
  enables, the heap, delays, two small printers, and an interface to components in the FPGA, which are
  found by walking a device feature list.  The HyperRAM controller is a state machine over three sequencers, which
  talk to the memory chip in transactions of a command and a burst of data.

  \<^bold>\<open>The theories\<close>, each with the source it models; the names of the definitions are those of the code.
  \<^item> \<^verbatim>\<open>HalPrelude\<close>: words for the integers of \<^verbatim>\<open>alt_types.h\<close>, error numbers, C strings, and the type
    \<open>stuck\<close> of the ways in which a call does not return, with the sequencing \<open>andThen\<close>.
  \<^item> \<^verbatim>\<open>LList\<close> (\<^verbatim>\<open>sys/alt_llist.h\<close>): the intrusive lists as a heap of links.  \<open>llist_at\<close> is the abstraction to a list
    of addresses, insertion and removal are shown to be the list operations, and the locales
    \<open>intrusive_list\<close> and \<open>removable_list\<close> are what registry and clock use of them.
  \<^item> \<^verbatim>\<open>AlarmClock\<close> (\<^verbatim>\<open>alt_alarm_start.c\<close>, \<^verbatim>\<open>alt_tick.c\<close>, \<^verbatim>\<open>alt_gettod.c\<close>, \<^verbatim>\<open>alt_settod.c\<close>, \<^verbatim>\<open>alt_times.c\<close>): alarms, the
    tick handler refined by a function on lists, the time of day, its exactness and where it is not.
  \<^item> \<^verbatim>\<open>AlarmProg\<close>: callbacks that start and stop alarms, the rules they must keep to, and the list of alarms
    over every program that uses the clock (\<open>clock_step\<close>).
  \<^item> \<^verbatim>\<open>DevList\<close> (\<^verbatim>\<open>alt_find_dev.c\<close>, \<^verbatim>\<open>alt_find_file.c\<close>, \<^verbatim>\<open>alt_dev_llist_insert.c\<close>, DMA and flash): the registry,
    lookup by name and by mount point, and the two interfaces built on it.
  \<^item> \<^verbatim>\<open>FdTable\<close> (\<^verbatim>\<open>alt_get_fd.c\<close>, \<^verbatim>\<open>alt_release_fd.c\<close>, \<^verbatim>\<open>alt_fd_lock.c\<close>, \<^verbatim>\<open>alt_fd_unlock.c\<close>, \<^verbatim>\<open>alt_fcntl.c\<close>): the pool;
    \<open>owner\<close> is its abstraction to the device of each descriptor, the locale \<open>fd_pool\<close> its contract.
  \<^item> \<^verbatim>\<open>Posix\<close> (\<^verbatim>\<open>alt_open.c\<close> to \<^verbatim>\<open>alt_write.c\<close>, \<^verbatim>\<open>alt_io_redirect.c\<close>, \<^verbatim>\<open>alt_kill.c\<close> and the calls that are not
    supported): the system calls over any drivers that keep to \<open>driver_ok\<close>, and the invariant of the
    pool over every program that uses them (\<open>posix_step\<close>).
  \<^item> \<^verbatim>\<open>ByteRing\<close>, \<^verbatim>\<open>JtagUart\<close>, \<^verbatim>\<open>JtagIrq\<close>, \<^verbatim>\<open>JtagDev\<close> (\<^verbatim>\<open>src/drivers\<close>): the rings and the queue they implement
    (locale \<open>byte_queue\<close>); both drivers over arbitrary register functions; the termination of the
    interrupt handler under a contract with the device; both drivers behind a descriptor.
  \<^item> \<^verbatim>\<open>JtagHost\<close>: the interrupt-driven driver without a host, whose blocking calls return after the timeout, and its
    timer on the system clock.
  \<^item> \<^verbatim>\<open>Printf\<close>, \<^verbatim>\<open>CharIo\<close> (\<^verbatim>\<open>alt_printf.c\<close>, \<^verbatim>\<open>alt_log_printf.c\<close>, \<^verbatim>\<open>alt_getchar.c\<close>, \<^verbatim>\<open>alt_put*.c\<close>): the two printers, with
    reference definitions they are equivalent to, and characters in the three builds.
  \<^item> \<^verbatim>\<open>LogConf\<close> (\<^verbatim>\<open>sys/alt_log_printf.h\<close>): the settings of the log by level, its macros, and how often its heartbeat
    prints.
  \<^item> \<^verbatim>\<open>DirectIo\<close> (the same files as \<^verbatim>\<open>Posix\<close>, built with \<^verbatim>\<open>ALT_USE_DIRECT_DRIVERS\<close>): the system calls without
    descriptors, compared with those of \<^verbatim>\<open>Posix\<close> by the locale \<open>wrapped_driver\<close>.
  \<^item> \<^verbatim>\<open>Irq\<close> (\<^verbatim>\<open>intel_niosv.h\<close>, \<^verbatim>\<open>sys/alt_irq.h\<close>, \<^verbatim>\<open>alt_vic_isr_wrapper.c\<close>): control registers, critical sections, the
    enable register as a set of interrupt numbers, the service routines of the vectored mode.
  \<^item> \<^verbatim>\<open>HeapMem\<close> (\<^verbatim>\<open>alt_sbrk.c\<close>, \<^verbatim>\<open>alt_load.c\<close>, \<^verbatim>\<open>alt_tls.c\<close>, \<^verbatim>\<open>alt_dcache_flush*.c\<close>): the break of the heap and the
    stack limit that follows it, the copying of sections, the cache lines a flush touches.
  \<^item> \<^verbatim>\<open>Sleep\<close> (\<^verbatim>\<open>alt_busy_sleep.c\<close>): how long the counted loop takes, and where it wraps round.
  \<^item> \<^verbatim>\<open>FpgaInf\<close>, \<^verbatim>\<open>FpgaApi\<close>, \<^verbatim>\<open>Dfl\<close> (\<^verbatim>\<open>intel_fpga_api_*.c\<close>): the table of interfaces, register accesses of 8 to
    512 bits and interrupts of an interface, and the walk that fills the table.  The walk is
    shown to collect a tree of interfaces (\<open>dfl_node\<close>) that memory holds.
  \<^item> \<^verbatim>\<open>DflReport\<close>: the printed report on what the walk has found.
  \<^item> \<^verbatim>\<open>Boot\<close> (\<^verbatim>\<open>alt_main.c\<close>, \<^verbatim>\<open>alt_sys_init.c\<close>): interrupts, registry, descriptors and driver put together, from reset to \<^verbatim>\<open>main\<close>.
  \<^item> \<^verbatim>\<open>Console\<close>: reads and writes on the standard streams, from the system calls to the registers.  The locale
    \<open>console_driver\<close> carries what a driver promises of one operation over to all sequences; it is interpreted
    here and in \<^verbatim>\<open>UartSession\<close>.  The property of the system from reset on stands below.
  \<^item> \<^verbatim>\<open>UartSession\<close>: the same with the interrupt-driven driver, while its handler and its timer run; \<open>flow\<close> (in
    \<^verbatim>\<open>JtagUart\<close>) says that no byte is lost, doubled or out of order between the device and the calls.
  \<^item> \<^verbatim>\<open>SystemMap\<close> (\<^verbatim>\<open>system.h\<close>, \<^verbatim>\<open>linker.h\<close>, \<^verbatim>\<open>linker.x\<close>): the addresses of memory and devices, the UART as registers on the
    bus (\<open>uart_regs\<close>), the heap of this system, and the polled driver with the buffers of its callers in memory
    (\<open>read_into\<close>, \<open>write_from\<close>).  What the bus does with an address is the hypothesis \<open>decoded\<close>, and that an area of
    it is memory the hypothesis \<open>memory_at\<close>.  In the other theories a read returns its bytes as a list;
    \<open>read_into_list\<close> shows that they are what the code stores.
  \<^item> \<^verbatim>\<open>Platform\<close>: the error number, the handler of fatal memory errors, sections loaded by name, system
    identification, assertions, terminal settings.
  \<^item> \<^verbatim>\<open>HyperRam\<close> (\<^verbatim>\<open>addr_decode.sv\<close>, \<^verbatim>\<open>comp_stm.sv\<close>, \<^verbatim>\<open>hyperram_controller.sv\<close>): the registers of the HyperRAM controller
    and one cycle of its clock (\<open>ram_step\<close>); an invariant of all its states, the commands it puts out, and what an
    address selects.
  \<^item> \<^verbatim>\<open>HyperRamAccess\<close>, \<^verbatim>\<open>HyperRamWrite\<close>, \<^verbatim>\<open>HyperRamCsr\<close>: whole transactions of the controller, cycle by cycle: a
    read, a write, and the registers of the chip.  The locale \<open>sequencer\<close> says how a sequencer that runs by itself
    determines what the controller does and what the chip is given; it is interpreted for all three.

  \<^bold>\<open>How the code is modelled.\<close>  State is a record that every operation returns updated.  A C error code is
  the value the function returns; what has no value, an endless wait, the end of the program, an access out of
  range or through a null pointer, is \<open>Inl\<close> of \<open>stuck\<close>.  Integers whose width matters are
  words; a status or a length that is far from the limits is an \<open>int\<close> or a \<open>nat\<close>.  A loop over
  memory or over a device that may not end is a \<open>partial_function (option)\<close>, with \<open>None\<close> for not
  ending, and the properties show that it ends.  Two things are bounded:
  \<^item> The walk over the feature list takes fuel, because two of its functions call each other and
    memory may hold a list that goes round.  \<open>level_size\<close> of the list is enough (\<^verbatim>\<open>Dfl.scan_collects\<close>).
  \<^item> The foreground calls of the interrupt-driven driver get a list of events, what the handler and the
    timer do while the call runs, one at each access to what they share.  The list is arbitrary; a wait that
    outlives it is a wait for ever.  The properties say when a call returns in any case.  A run of the handler that
    does not return is no event: what is said of calls that the handler interrupts is said of a device that keeps to
    its documentation (\<open>uart_device\<close>), on which the handler always returns.

  Drivers, registers, callbacks of alarms, and what is not under \<^verbatim>\<open>src/\<close> (the C library, \<^verbatim>\<open>malloc\<close>, the
  application) are parameters.  Device registers are functions on an unknown state of the hardware; a
  property that needs the device to answer says so as a hypothesis.  In the HyperRAM controller time is the number
  of the cycle, the inputs of every cycle are arbitrary, and the memory chip is known by its strobe and its answers
  only; wires that nothing drives are zero.

  \<^bold>\<open>The configuration.\<close>  \<^verbatim>\<open>toolchain.cmake\<close> and \<^verbatim>\<open>system.h\<close> choose the polled UART driver, no log
  (\<^verbatim>\<open>ALT_LOG_FLAGS=0\<close>), no caches, no CSR based interrupts (\<^verbatim>\<open>ALT_CPU_HAS_CSR_SUPPORT\<close> is 0), no
  walk over a feature list, and a processor clock of 0 Hz, with which the busy delay divides by zero.  \<^verbatim>\<open>Boot\<close> is
  about this configuration.  The other theories model what the code does in every configuration, and take the
  options as arguments.

  \<^bold>\<open>Not modelled.\<close>  The other hardware: the pads, the clock generator and the memory chip around the controller,
  the Platform Designer output, vendor IP, and the older copies of the controller and the board tops in \<^verbatim>\<open>src\<close>,
  which the system is not built from.  The assembly: \<^verbatim>\<open>crt0.S\<close>,
  the vector table, the profiling hook; so the model starts at \<^verbatim>\<open>alt_main\<close> and the dispatch of an interrupt is
  given.  The C library.  Semaphores and flags, which are empty in this single-threaded HAL, and the branches for
  an operating system.  The debug messages of the feature list walker, and where the messages of the boot log
  stand (\<^verbatim>\<open>LogConf\<close> has the macro that prints them, \<^verbatim>\<open>DflReport\<close> the report of the walk).  The arguments of
  \<^verbatim>\<open>main\<close>.  Instructions that only a debugger or a simulator sees.  Headers that hold only prototypes and
  constants.
\<close>

section \<open>The system from reset on\<close>

text \<open>C6: From reset, on a UART that a poll eventually finds with room and with data, a program that starts with any
  sequence of writes to the standard output and error and reads from the standard input completes all of them:
  each write is whole, each read gives at least one byte and no more than asked for, the UART has been given
  exactly the bytes written, in order, and the reads have given exactly the bytes taken from it, in order; the
  descriptors keep their invariant, and the rest of the program goes on from there.\<close>

theorem console_session:
  assumes "\<forall>h. \<exists>k. polls (iord_control regs) CONTROL_WSPACE_MSK k h"
    and "\<forall>h. \<exists>k. polls (iord_data regs) DATA_RVALID_MSK k h"
    and "list_all console_ok ops"
  shows "\<exists>rs s h' m.
    alt_main wr irqs [] fini_array (\<lambda>(c, s). andThen (run_console ops s) (\<lambda>(rs, s). rest rs (c, s)))
        (c, reset_hal (logged regs) (h, [])) =
      andThen (rest rs (alt_irq_cpu_enable_interrupts wr irqs c, s)) (\<lambda>(result, (c4, s4)).
        andThen (ALT_CLOSE (int STDOUT_FILENO) s4) (\<lambda>(_, s5). exit_program fini_array result (c4, s5))) \<and>
    list_all2 console_result ops rs \<and> hal_world s = (h', m) \<and> hal_inv s \<and>
    sent m = concat (map console_out ops) \<and> received m = concat (map snd rs)"
proof -
  let ?s = "boot_hal (logged regs) (h, [])"
  have "hal_world ?s = (h, [])" using boot_hal_booting [of "logged regs" "(h, [])"] by (simp add: booting_def)
  from console_runs [OF assms(1,2) boot_streams this assms(3)] obtain rs h' m
    where r: "run_console ops ?s = Inr (rs, ?s\<lparr>hal_world := (h', m)\<rparr>)" "list_all2 console_result ops rs"
      "sent m = concat (map console_out ops)" "received m = concat (map snd rs)" by auto
  have "hal_inv (?s\<lparr>hal_world := (h', m)\<rparr>)" using boot_hal_inv [of "logged regs" "(h, [])"]
    by (simp add: hal_inv_def fd_inv_def owner_def)
  with r show ?thesis
    by (intro exI [of _ rs] exI [of _ "?s\<lparr>hal_world := (h', m)\<rparr>"] exI [of _ h'] exI [of _ m])
      (simp add: alt_main_boot do_ctors_def)
qed

text \<open>A device that always has room, and always the same byte.\<close>

definition echo_regs :: "unit regs" where
  "echo_regs = \<lparr>iord_data = \<lambda>h. (0x8041, h), iowr_data = \<lambda>v h. h, iord_control = \<lambda>h. (0x80000, h), iowr_control = \<lambda>v h. h\<rparr>"

theorem console_session_witness:
  "\<exists>rs s h' m.
     alt_main (\<lambda>_. 0) False [] [] (\<lambda>(c, s). andThen (run_console [Put 1 [7, 8], Get 3, Put 2 [9]] s) (\<lambda>(rs, s). Inr (0, (c, s))))
       (\<lambda>_. 0, reset_hal (logged echo_regs) ((), [])) =
     andThen (Inr (0, (alt_irq_cpu_enable_interrupts (\<lambda>_. 0) False (\<lambda>_. 0), s))) (\<lambda>(result, (c4, s4)).
       andThen (ALT_CLOSE (int STDOUT_FILENO) s4) (\<lambda>(_, s5). exit_program [] result (c4, s5))) \<and>
     list_all2 console_result [Put 1 [7, 8], Get 3, Put 2 [9]] rs \<and> hal_world s = (h', m) \<and> hal_inv s \<and>
     sent m = [7, 8, 9] \<and> received m = concat (map snd rs)"
proof -
  let ?ops = "[Put 1 [7, 8], Get 3, Put 2 [9]]"
  have p: "\<forall>h. \<exists>k. polls (iord_control echo_regs) CONTROL_WSPACE_MSK k h" "\<forall>h. \<exists>k. polls (iord_data echo_regs) DATA_RVALID_MSK k h"
    by (auto simp: echo_regs_def intro!: polls_now)
  have ok: "list_all console_ok ?ops" by simp
  have out: "concat (map console_out ?ops) = [7, 8, 9]" by simp
  show ?thesis
    using console_session [OF p ok, of "\<lambda>_. 0" False "[]" "\<lambda>_ m. Inr (0, m)" "\<lambda>_. 0" "()", unfolded out] .
qed

end
